(* ===== verification/Nachos_Prelude.thy ===== *)
theory Nachos_Prelude
  imports Main "HOL-Library.Word" "HOL-Library.Signed_Division"
begin

text \<open>
  Shared vocabulary of the Nachos development.

  \<^item> \<open>fault\<close> lists the ways a run of the C++ code stops or leaves defined behaviour:
    an \<^verbatim>\<open>ASSERT\<close> of \<^verbatim>\<open>threads/utility.h\<close> that fails (the program aborts), an array
    access outside its bounds, a null pointer or a pointer to no live object that is
    followed, a host division whose quotient does not fit (the host processor traps), and a read of
    a variable that was never written.
  \<^item> \<open>'a result\<close> is the outcome of fallible code, \<open>rbind\<close> its sequencing: the first
    fault stops everything after it, as the abort does.
  \<^item> \<open>aget\<close>, \<open>aset\<close> are reads and writes of a C array, modelled by a list; an index
    outside the array is the fault \<open>OutOfBounds\<close>.
  \<^item> \<open>divRoundUp\<close>, \<open>divRoundDown\<close> are the macros of \<^verbatim>\<open>threads/utility.h\<close>, over C's
    division, which truncates towards zero (\<open>sdiv\<close>, \<open>smod\<close>).

  C's \<^verbatim>\<open>int\<close> is \<open>int\<close> in the kernel's bookkeeping, where every quantity is bounded by a
  small table size, and \<open>32 word\<close> in the CPU simulator and the bitmaps, where the width
  matters.
\<close>

datatype fault =
    AssertFailed
  | OutOfBounds
  | NullPointer
  | DanglingPointer
  | DivideOverflow
  | Uninitialised

type_synonym 'a result = "fault + 'a"

named_theorems result_simps "equations of the result type and of array accesses"

subsection \<open>Sequencing of fallible code\<close>

definition rbind :: "'a result \<Rightarrow> ('a \<Rightarrow> 'b result) \<Rightarrow> 'b result" where
  "rbind m f = (case m of Inl e \<Rightarrow> Inl e | Inr x \<Rightarrow> f x)"

lemma rbind_Inl [simp, result_simps]: "rbind (Inl e) f = Inl e"
  by (simp add: rbind_def)

lemma rbind_Inr [simp, result_simps]: "rbind (Inr x) f = f x"
  by (simp add: rbind_def)

lemma rbind_eq_Inr_iff: "rbind m f = Inr y \<longleftrightarrow> (\<exists>x. m = Inr x \<and> f x = Inr y)"
  by (cases m) auto

lemma rbind_eq_Inl_iff:
  "rbind m f = Inl e \<longleftrightarrow> m = Inl e \<or> (\<exists>x. m = Inr x \<and> f x = Inl e)"
  by (cases m) auto

lemma rbind_assoc: "rbind (rbind m f) g = rbind m (\<lambda>x. rbind (f x) g)"
  by (cases m) auto

lemma rbind_cong [fundef_cong]:
  "m = m' \<Longrightarrow> (\<And>x. m' = Inr x \<Longrightarrow> f x = g x) \<Longrightarrow> rbind m f = rbind m' g"
  by (cases m') auto

text \<open>
  \<open>rall P m\<close>: if \<open>m\<close> returns, its value satisfies \<open>P\<close>. It distributes over sequencing, so that
  statements about what an operation keeps are proved by rewriting.
\<close>

definition rall :: "('a \<Rightarrow> bool) \<Rightarrow> 'a result \<Rightarrow> bool" where
  "rall P m = (case m of Inl e \<Rightarrow> True | Inr x \<Rightarrow> P x)"

lemma rall_simps [simp]: "rall P (Inl e)" "rall P (Inr x) = P x"
  "rall P (rbind m f) = rall (\<lambda>x. rall P (f x)) m"
  "rall P (if c then m1 else m2) = (if c then rall P m1 else rall P m2)"
  by (auto simp: rall_def rbind_def split: sum.splits)

lemma rallD: "rall P m \<Longrightarrow> m = Inr x \<Longrightarrow> P x"
  by simp

lemma rallI: "(\<And>x. m = Inr x \<Longrightarrow> P x) \<Longrightarrow> rall P m"
  by (cases m) auto

lemma rall_mono: "rall P m \<Longrightarrow> (\<And>x. P x \<Longrightarrow> Q x) \<Longrightarrow> rall Q m"
  by (cases m) auto

text \<open>Sequencing of code that need not return; \<open>returns\<close> embeds code that does.\<close>

definition obind :: "'a result option \<Rightarrow> ('a \<Rightarrow> 'b result option) \<Rightarrow> 'b result option" where
  "obind m f = (case m of None \<Rightarrow> None | Some (Inl e) \<Rightarrow> Some (Inl e) | Some (Inr x) \<Rightarrow> f x)"

abbreviation returns :: "'a result \<Rightarrow> 'a result option" where
  "returns r \<equiv> Some r"

lemma obind_simps [simp]:
  "obind None f = None" "obind (Some (Inl e)) f = Some (Inl e)" "obind (Some (Inr x)) f = f x"
  by (simp_all add: obind_def)

text \<open>The macro \<^verbatim>\<open>ASSERT\<close>: nothing when the condition holds, an abort otherwise.\<close>

definition ASSERT :: "bool \<Rightarrow> unit result" where
  "ASSERT c = (if c then Inr () else Inl AssertFailed)"

lemma ASSERT_True [simp, result_simps]: "c \<Longrightarrow> ASSERT c = Inr ()"
  by (simp add: ASSERT_def)

lemma ASSERT_False [simp, result_simps]: "\<not> c \<Longrightarrow> ASSERT c = Inl AssertFailed"
  by (simp add: ASSERT_def)

lemma ASSERT_eq_Inr_iff: "ASSERT c = Inr u \<longleftrightarrow> c"
  by (simp add: ASSERT_def)

lemma rall_ASSERT [simp]: "rall P (ASSERT c) = (c \<longrightarrow> P ())"
  by (simp add: ASSERT_def)

subsection \<open>Arrays\<close>

definition aget :: "'a list \<Rightarrow> int \<Rightarrow> 'a result" where
  "aget xs i = (if 0 \<le> i \<and> i < int (length xs) then Inr (xs ! nat i) else Inl OutOfBounds)"

definition aset :: "'a list \<Rightarrow> int \<Rightarrow> 'a \<Rightarrow> 'a list result" where
  "aset xs i v =
     (if 0 \<le> i \<and> i < int (length xs) then Inr (xs[nat i := v]) else Inl OutOfBounds)"

lemma aget_in [simp, result_simps]:
  "0 \<le> i \<Longrightarrow> i < int (length xs) \<Longrightarrow> aget xs i = Inr (xs ! nat i)"
  by (simp add: aget_def)

lemma aget_out: "i < 0 \<or> int (length xs) \<le> i \<Longrightarrow> aget xs i = Inl OutOfBounds"
  by (auto simp: aget_def)

lemma aset_in [simp, result_simps]:
  "0 \<le> i \<Longrightarrow> i < int (length xs) \<Longrightarrow> aset xs i v = Inr (xs[nat i := v])"
  by (simp add: aset_def)

lemma aset_out: "i < 0 \<or> int (length xs) \<le> i \<Longrightarrow> aset xs i v = Inl OutOfBounds"
  by (auto simp: aset_def)

subsection \<open>Counting loops\<close>

text \<open>
  \<open>for_each is body s\<close> runs \<open>body i\<close> on the state for every \<open>i\<close> of the list, in
  order, and stops at the first fault: the loop \<^verbatim>\<open>for (i = 0; i < n; i++)\<close>, whose bound the
  body does not change, is \<open>for_each [0..n - 1]\<close>.
\<close>

fun for_each :: "'i list \<Rightarrow> ('i \<Rightarrow> 's \<Rightarrow> 's result) \<Rightarrow> 's \<Rightarrow> 's result" where
  "for_each [] body s = Inr s"
| "for_each (i # is) body s = rbind (body i s) (for_each is body)"

lemma for_each_append:
  "for_each (is @ js) body s = rbind (for_each is body s) (for_each js body)"
  by (induction "is" arbitrary: s) (auto simp: rbind_assoc intro: rbind_cong)

text \<open>
  The rule for a counting loop: an invariant indexed by the counter, kept by a body that
  does not fault on it.
\<close>

lemma for_range_invariant:
  assumes "a \<le> n" and "I a s"
    and "\<And>i s. a \<le> i \<Longrightarrow> i < n \<Longrightarrow> I i s \<Longrightarrow> \<exists>s'. body i s = Inr s' \<and> I (i + 1) s'"
  shows "\<exists>s'. for_each [a..n - 1] body s = Inr s' \<and> I n s'"
  using assms
proof (induction "nat (n - a)" arbitrary: a s)
  case 0
  then show ?case by simp
next
  case (Suc k)
  then have lt: "a < n" by linarith
  obtain s1 where s1: "body a s = Inr s1" "I (a + 1) s1"
    using Suc.prems(2) Suc.prems(3) [of a s] lt by auto
  have "\<exists>s'. for_each [a + 1..n - 1] body s1 = Inr s' \<and> I n s'"
    by (rule Suc.hyps(1)) (use Suc.hyps(2) Suc.prems(3) lt s1 in auto)
  with s1 lt show ?case by (simp add: upto_rec1)
qed

lemma set_range: "set [a..n - 1] = {a..<n}" for a n :: int
  by (simp add: atLeastLessThanPlusOne_atLeastAtMost_int [symmetric])

lemmas for_loop_invariant = for_range_invariant [where a = 0]

subsection \<open>C division and the rounding macros\<close>

lemma sdiv_nonneg: "0 \<le> a \<Longrightarrow> 0 < b \<Longrightarrow> a sdiv b = a div b" for a b :: int
  by (cases "a = 0") (auto simp: signed_divide_int_def)

lemma smod_nonneg: "0 \<le> a \<Longrightarrow> 0 < b \<Longrightarrow> a smod b = a mod b" for a b :: int
  by (cases "a = 0") (auto simp: signed_modulo_int_def)

definition divRoundDown :: "int \<Rightarrow> int \<Rightarrow> int" where
  "divRoundDown n s = n sdiv s"

definition divRoundUp :: "int \<Rightarrow> int \<Rightarrow> int" where
  "divRoundUp n s = n sdiv s + (if n smod s > 0 then 1 else 0)"

lemma divRoundUp_nonneg: "0 \<le> n \<Longrightarrow> 0 < s \<Longrightarrow> 0 \<le> divRoundUp n s"
  by (simp add: divRoundUp_def sdiv_nonneg smod_nonneg pos_imp_zdiv_nonneg_iff)

lemma divRoundUp_mult:
  "0 \<le> n \<Longrightarrow> 0 < s \<Longrightarrow> divRoundUp n s * s = n - n mod s + (if 0 < n mod s then s else 0)"
  by (simp add: divRoundUp_def sdiv_nonneg smod_nonneg distrib_right minus_mod_eq_div_mult)

lemma divRoundUp_covers: "0 \<le> n \<Longrightarrow> 0 < s \<Longrightarrow> n \<le> divRoundUp n s * s"
  using divRoundUp_mult [of n s] pos_mod_bound [of s n] pos_mod_sign [of s n]
  by (cases "0 < n mod s"; simp only: if_True if_False; linarith)

lemma divRoundUp_tight: "0 \<le> n \<Longrightarrow> 0 < s \<Longrightarrow> divRoundUp n s * s < n + s"
  using divRoundUp_mult [of n s] pos_mod_bound [of s n] pos_mod_sign [of s n]
  by (cases "0 < n mod s"; simp only: if_True if_False; linarith)

lemma div_less_divRoundUp:
  assumes "0 \<le> i" and "i < n" and "0 < s" shows "i div s < divRoundUp n s"
proof (rule ccontr)
  assume "\<not> i div s < divRoundUp n s"
  then have "divRoundUp n s * s \<le> i div s * s"
    using assms by (simp add: mult_right_mono)
  also have "\<dots> \<le> i"
    using minus_mod_eq_div_mult [of i s] pos_mod_sign [of s i] assms by linarith
  finally show False
    using divRoundUp_covers [of n s] assms by linarith
qed

subsection \<open>Splitting an index into a word and a position\<close>

lemma index_split_inj:
  "i div s = j div s \<Longrightarrow> i mod s = j mod s \<Longrightarrow> i = j" for i j s :: int
  by (metis div_mult_mod_eq)

lemma nat_index_split_inj:
  fixes i j s :: int
  assumes "0 \<le> i" "0 \<le> j" "0 < s"
    and "nat (i div s) = nat (j div s)" "nat (i mod s) = nat (j mod s)"
  shows "i = j"
proof -
  have "0 \<le> i div s" "0 \<le> j div s" "0 \<le> i mod s" "0 \<le> j mod s"
    using assms by (simp_all add: pos_imp_zdiv_nonneg_iff)
  with assms(4,5) have "i div s = j div s" "i mod s = j mod s"
    by (simp_all only: eq_nat_nat_iff)
  then show ?thesis by (rule index_split_inj)
qed

subsection \<open>Sequences of operations and their refinement\<close>

text \<open>
  \<open>run_ops\<close> performs a sequence of operations of a component and collects what they return;
  it is \<open>None\<close> when one of them does not return, and a fault when one faults. \<open>run_spec\<close>
  does the same for the total operations of a specification.
\<close>

fun run_ops ::
    "('op \<Rightarrow> 's \<Rightarrow> ('out \<times> 's) result option) \<Rightarrow> 'op list \<Rightarrow> 's \<Rightarrow> ('out list \<times> 's) result option"
  where
  "run_ops step [] s = Some (Inr ([], s))"
| "run_ops step (op # ops) s =
     (case step op s of
        None \<Rightarrow> None
      | Some (Inl e) \<Rightarrow> Some (Inl e)
      | Some (Inr (out, s')) \<Rightarrow>
          map_option (\<lambda>r. rbind r (\<lambda>(outs, s''). Inr (out # outs, s''))) (run_ops step ops s'))"

fun run_spec :: "('op \<Rightarrow> 'a \<Rightarrow> 'out \<times> 'a) \<Rightarrow> 'op list \<Rightarrow> 'a \<Rightarrow> 'out list \<times> 'a" where
  "run_spec step [] a = ([], a)"
| "run_spec step (op # ops) a =
     (let (out, a') = step op a; (outs, a'') = run_spec step ops a' in (out # outs, a''))"

lemma run_spec_append:
  "run_spec step (ops @ ops') a =
     (let (outs, a') = run_spec step ops a; (outs', a'') = run_spec step ops' a'
      in (outs @ outs', a''))"
  by (induction ops arbitrary: a) (auto split: prod.splits)

text \<open>
  The contract between an implementation and its specification: on related states every
  operation returns, without a fault, what the specification says, and ends in related states.
\<close>

locale implements =
  fixes rep :: "'s \<Rightarrow> 'a \<Rightarrow> bool"
    and step :: "'op \<Rightarrow> 's \<Rightarrow> ('out \<times> 's) result option"
    and spec :: "'op \<Rightarrow> 'a \<Rightarrow> 'out \<times> 'a"
  assumes simulates:
    "rep s a \<Longrightarrow> \<exists>s'. step op s = Some (Inr (fst (spec op a), s')) \<and> rep s' (snd (spec op a))"
begin

lemma run_simulates:
  "rep s a \<Longrightarrow> \<exists>s'. run_ops step ops s = Some (Inr (fst (run_spec spec ops a), s')) \<and>
     rep s' (snd (run_spec spec ops a))"
proof (induction ops arbitrary: s a)
  case Nil
  then show ?case by simp
next
  case (Cons op ops)
  obtain out a' where sp: "spec op a = (out, a')" by fastforce
  with simulates [OF Cons.prems, of op]
  obtain s1 where s1: "step op s = Some (Inr (out, s1))" "rep s1 a'" by auto
  from Cons.IH [OF s1(2)] s1(1) sp show ?case by (auto simp: Let_def split: prod.splits)
qed

end

end
