(* ===== verification/Bitmap.thy ===== *)
theory Bitmap
  imports Nachos_Prelude
begin

unbundle bit_operations_syntax

text \<open>
  The bitmap of \<^verbatim>\<open>userprog/bitmap.h\<close> and \<^verbatim>\<open>userprog/bitmap.cc\<close>: an array of 32-bit words,
  bit \<open>i\<close> of the bitmap being bit \<open>i mod 32\<close> of word \<open>i div 32\<close>.

  \<^item> \<open>bitmap\<close> is the class's state, \<open>BitMap\<close>, \<open>Mark\<close>, \<open>Clear\<close>, \<open>Test\<close>, \<open>Find\<close>,
    \<open>NumClear\<close>, \<open>Print\<close> its operations. The constructor allocates the words without
    clearing them; their first contents are the argument \<open>garbage\<close>.
  \<^item> \<open>marked\<close> is the abstract value, the set of bits that are on, and \<open>bm_wf\<close> the
    representation invariant. The lemmas show what every operation does to \<open>marked\<close>.
  \<^item> The locale \<open>slot_allocator\<close> is the contract that the users of a bitmap rely on
    (physical pages, swap pages, process ids, open-file slots, disk sectors); its
    lemmas treat sequences of allocations and releases.
\<close>

definition BitsInWord :: int where
  "BitsInWord = 32"

record bitmap =
  numBits :: int
  numWords :: int
  map_words :: "32 word list"

subsection \<open>Operations\<close>

definition bit_mask :: "int \<Rightarrow> 32 word" where
  "bit_mask which = push_bit (nat (which smod BitsInWord)) 1"

definition Mark :: "bitmap \<Rightarrow> int \<Rightarrow> bitmap result" where
  "Mark b which =
     rbind (ASSERT (which \<ge> 0 \<and> which < numBits b)) (\<lambda>_.
     rbind (aget (map_words b) (which sdiv BitsInWord)) (\<lambda>w.
     rbind (aset (map_words b) (which sdiv BitsInWord) (w OR bit_mask which)) (\<lambda>m.
     Inr (b\<lparr>map_words := m\<rparr>))))"

definition Clear :: "bitmap \<Rightarrow> int \<Rightarrow> bitmap result" where
  "Clear b which =
     rbind (ASSERT (which \<ge> 0 \<and> which < numBits b)) (\<lambda>_.
     rbind (aget (map_words b) (which sdiv BitsInWord)) (\<lambda>w.
     rbind (aset (map_words b) (which sdiv BitsInWord) (w AND NOT (bit_mask which))) (\<lambda>m.
     Inr (b\<lparr>map_words := m\<rparr>))))"

definition Test :: "bitmap \<Rightarrow> int \<Rightarrow> bool result" where
  "Test b which =
     rbind (ASSERT (which \<ge> 0 \<and> which < numBits b)) (\<lambda>_.
     rbind (aget (map_words b) (which sdiv BitsInWord)) (\<lambda>w.
     Inr (w AND bit_mask which \<noteq> 0)))"

definition BitMap :: "(nat \<Rightarrow> 32 word) \<Rightarrow> int \<Rightarrow> bitmap result" where
  "BitMap garbage nitems =
     (let nw = divRoundUp nitems BitsInWord
      in for_each [0..nitems - 1] (\<lambda>i b. Clear b i)
           \<lparr>numBits = nitems, numWords = nw, map_words = map garbage [0..<nat nw]\<rparr>)"

fun find_loop :: "bitmap \<Rightarrow> int list \<Rightarrow> (int \<times> bitmap) result" where
  "find_loop b [] = Inr (-1, b)"
| "find_loop b (i # is) =
     rbind (Test b i) (\<lambda>set.
       if \<not> set then rbind (Mark b i) (\<lambda>b'. Inr (i, b')) else find_loop b is)"

definition Find :: "bitmap \<Rightarrow> (int \<times> bitmap) result" where
  "Find b = find_loop b [0..numBits b - 1]"

definition NumClear :: "bitmap \<Rightarrow> int result" where
  "NumClear b =
     for_each [0..numBits b - 1]
       (\<lambda>i count. rbind (Test b i) (\<lambda>set. Inr (if \<not> set then count + 1 else count))) 0"

text \<open>\<open>Print\<close> returns the numbers it prints, in order.\<close>

definition Print :: "bitmap \<Rightarrow> int list result" where
  "Print b =
     for_each [0..numBits b - 1]
       (\<lambda>i out. rbind (Test b i) (\<lambda>set. Inr (if set then out @ [i] else out))) []"

subsection \<open>Representation invariant and abstract value\<close>

definition bm_wf :: "bitmap \<Rightarrow> bool" where
  "bm_wf b \<longleftrightarrow> 0 \<le> numBits b \<and> numWords b = divRoundUp (numBits b) BitsInWord
     \<and> int (length (map_words b)) = numWords b"

definition in_range :: "bitmap \<Rightarrow> int \<Rightarrow> bool" where
  "in_range b i \<longleftrightarrow> 0 \<le> i \<and> i < numBits b"

definition bit_at :: "bitmap \<Rightarrow> int \<Rightarrow> bool" where
  "bit_at b i \<longleftrightarrow> bit (map_words b ! nat (i div 32)) (nat (i mod 32))"

definition marked :: "bitmap \<Rightarrow> int set" where
  "marked b = {i. in_range b i \<and> bit_at b i}"

lemma in_rangeI [intro]: "0 \<le> i \<Longrightarrow> i < numBits b \<Longrightarrow> in_range b i"
  by (simp add: in_range_def)

lemma marked_subset: "marked b \<subseteq> {0..<numBits b}"
  by (auto simp: marked_def in_range_def)

lemma finite_marked [simp]: "finite (marked b)"
  using marked_subset by (rule finite_subset) simp

lemma word_index:
  assumes "bm_wf b" "in_range b i"
  shows "0 \<le> i div 32" and "i div 32 < int (length (map_words b))"
    and "nat (i div 32) < length (map_words b)" and "nat (i mod 32) < 32"
proof -
  have "0 \<le> i" "i < numBits b" using assms by (auto simp: in_range_def)
  then show "0 \<le> i div 32" and "i div 32 < int (length (map_words b))"
    using assms(1) div_less_divRoundUp [of i "numBits b" 32]
    by (auto simp: bm_wf_def BitsInWord_def)
  then show "nat (i div 32) < length (map_words b)" by linarith
  show "nat (i mod 32) < 32"
    using pos_mod_bound [of 32 i] pos_mod_sign [of 32 i] by linarith
qed

lemma bit_mask_iff: "0 \<le> i \<Longrightarrow> n < 32 \<Longrightarrow> bit (bit_mask i) n \<longleftrightarrow> n = nat (i mod 32)"
  by (auto simp: bit_mask_def BitsInWord_def smod_nonneg bit_simps)

lemma and_mask_nonzero:
  assumes "0 \<le> i" shows "w AND bit_mask i \<noteq> 0 \<longleftrightarrow> bit w (nat (i mod 32))"
proof -
  have lt: "nat (i mod 32) < 32"
    using pos_mod_bound [of 32 i] pos_mod_sign [of 32 i] by linarith
  have "w AND bit_mask i = 0 \<longleftrightarrow> (\<forall>n<32. \<not> bit (w AND bit_mask i) n)"
    by (auto simp: bit_eq_iff dest: bit_imp_le_length)
  also have "\<dots> \<longleftrightarrow> \<not> bit w (nat (i mod 32))"
    using assms lt by (auto simp: bit_and_iff bit_mask_iff)
  finally show ?thesis by blast
qed

subsection \<open>Single-bit operations on the abstract value\<close>

lemma bit_at_update:
  assumes "bm_wf b" "in_range b i" "in_range b j"
  shows "bit_at (b\<lparr>map_words := (map_words b)[nat (i div 32) := w]\<rparr>) j \<longleftrightarrow>
    (if nat (j div 32) = nat (i div 32) then bit w (nat (j mod 32)) else bit_at b j)"
  using assms word_index [of b] by (auto simp: bit_at_def nth_list_update)

lemma same_bit_iff:
  assumes "in_range b i" "in_range b j"
  shows "nat (j div 32) = nat (i div 32) \<and> nat (j mod 32) = nat (i mod 32) \<longleftrightarrow> j = i"
  using assms nat_index_split_inj [of j i 32] by (auto simp: in_range_def)

text \<open>Writing one word so that just the bit of \<open>i\<close> becomes \<open>v\<close>.\<close>

lemma marked_update:
  assumes wf: "bm_wf b" and i: "in_range b i"
    and w: "\<And>n. n < 32 \<Longrightarrow> bit w n \<longleftrightarrow>
      (if n = nat (i mod 32) then v else bit (map_words b ! nat (i div 32)) n)"
  shows "marked (b\<lparr>map_words := (map_words b)[nat (i div 32) := w]\<rparr>) =
    (if v then insert i (marked b) else marked b - {i})" (is "marked ?b' = _")
proof (rule set_eqI)
  fix j
  have range: "in_range ?b' j \<longleftrightarrow> in_range b j" by (simp add: in_range_def)
  have "bit_at ?b' j \<longleftrightarrow> (if j = i then v else bit_at b j)" if j: "in_range b j"
    using w [OF word_index(4) [OF wf j]] same_bit_iff [OF i j] bit_at_update [OF wf i j, of w]
    by (cases "nat (j div 32) = nat (i div 32)") (auto simp: bit_at_def)
  with i range show "j \<in> marked ?b' \<longleftrightarrow> j \<in> (if v then insert i (marked b) else marked b - {i})"
    by (auto simp: marked_def split: if_splits)
qed

lemma Test_ok: "bm_wf b \<Longrightarrow> in_range b i \<Longrightarrow> Test b i = Inr (i \<in> marked b)"
  using word_index [of b i]
  by (simp add: Test_def in_range_def BitsInWord_def sdiv_nonneg and_mask_nonzero
      marked_def bit_at_def)

lemma Mark_ok:
  assumes "bm_wf b" "in_range b i"
  obtains b' where "Mark b i = Inr b'" "bm_wf b'" "numBits b' = numBits b"
    "marked b' = insert i (marked b)"
proof
  let ?b' = "b\<lparr>map_words := (map_words b)[nat (i div 32) :=
    map_words b ! nat (i div 32) OR bit_mask i]\<rparr>"
  have i: "0 \<le> i" using assms by (simp add: in_range_def)
  show "Mark b i = Inr ?b'"
    using assms word_index [OF assms]
    by (simp add: Mark_def in_range_def BitsInWord_def sdiv_nonneg)
  show "bm_wf ?b'" "numBits ?b' = numBits b"
    using assms by (simp_all add: bm_wf_def)
  show "marked ?b' = insert i (marked b)"
    using marked_update [OF assms, of _ True] i by (simp add: bit_or_iff bit_mask_iff)
qed

lemma Clear_ok:
  assumes "bm_wf b" "in_range b i"
  obtains b' where "Clear b i = Inr b'" "bm_wf b'" "numBits b' = numBits b"
    "marked b' = marked b - {i}"
proof
  let ?b' = "b\<lparr>map_words := (map_words b)[nat (i div 32) :=
    map_words b ! nat (i div 32) AND NOT (bit_mask i)]\<rparr>"
  have i: "0 \<le> i" using assms by (simp add: in_range_def)
  show "Clear b i = Inr ?b'"
    using assms word_index [OF assms]
    by (simp add: Clear_def in_range_def BitsInWord_def sdiv_nonneg)
  show "bm_wf ?b'" "numBits ?b' = numBits b"
    using assms by (simp_all add: bm_wf_def)
  show "marked ?b' = marked b - {i}"
    using marked_update [OF assms, of _ False] i
    by (simp add: bit_and_iff bit_not_iff bit_mask_iff)
qed

lemma out_of_range_faults:
  assumes "\<not> in_range b i"
  shows "Mark b i = Inl AssertFailed" "Clear b i = Inl AssertFailed" "Test b i = Inl AssertFailed"
  using assms by (auto simp: Mark_def Clear_def Test_def in_range_def)

subsection \<open>The loops\<close>

lemma BitMap_ok:
  assumes "0 \<le> n"
  shows "\<exists>b. BitMap garbage n = Inr b \<and> bm_wf b \<and> numBits b = n \<and> marked b = {}"
proof -
  let ?nw = "divRoundUp n BitsInWord"
  let ?b0 = "\<lparr>numBits = n, numWords = ?nw, map_words = map garbage [0..<nat ?nw]\<rparr>"
  let ?I = "\<lambda>i b. bm_wf b \<and> numBits b = n \<and> marked b \<inter> {0..<i} = {}"
  have nw: "0 \<le> ?nw" using assms by (simp add: divRoundUp_nonneg BitsInWord_def)
  have "\<exists>b. for_each [0..n - 1] (\<lambda>i b. Clear b i) ?b0 = Inr b \<and> ?I n b"
  proof (rule for_loop_invariant [where I = ?I, OF assms])
    show "?I 0 ?b0" using assms nw by (simp add: bm_wf_def)
  next
    fix i b
    assume i: "0 \<le> i" "i < n" and inv: "?I i b"
    then obtain b' where "Clear b i = Inr b'" "bm_wf b'" "numBits b' = numBits b"
      "marked b' = marked b - {i}"
      by (blast intro: Clear_ok)
    moreover have "{0..<i + 1} = insert i {0..<i}" using i by auto
    ultimately show "\<exists>b'. Clear b i = Inr b' \<and> ?I (i + 1) b'" using inv by auto
  qed
  then obtain b where b: "for_each [0..n - 1] (\<lambda>i b. Clear b i) ?b0 = Inr b"
    "bm_wf b" "numBits b = n" "marked b \<inter> {0..<n} = {}"
    by blast
  moreover have "marked b = {}" using b marked_subset [of b] by blast
  ultimately show ?thesis by (simp add: BitMap_def Let_def)
qed

lemma find_loop_none:
  "bm_wf b \<Longrightarrow> set is \<subseteq> marked b \<Longrightarrow> find_loop b is = Inr (-1, b)"
  by (induction "is") (auto simp: Test_ok marked_def)

lemma find_loop_some:
  assumes "bm_wf b" "set done \<subseteq> marked b" "in_range b i" "i \<notin> marked b"
  obtains b' where "find_loop b (done @ i # rest) = Inr (i, b')" "bm_wf b'"
    "numBits b' = numBits b" "marked b' = insert i (marked b)"
proof -
  obtain b' where "Mark b i = Inr b'" "bm_wf b'" "numBits b' = numBits b"
    "marked b' = insert i (marked b)"
    using Mark_ok [OF assms(1,3)] by blast
  moreover have "find_loop b (done @ i # rest) = find_loop b (i # rest)"
    using assms(1,2) by (induction "done") (auto simp: Test_ok marked_def)
  moreover have "find_loop b (i # rest) = rbind (Mark b i) (\<lambda>b'. Inr (i, b'))"
    using assms by (simp add: Test_ok)
  ultimately show ?thesis by (intro that) simp_all
qed

lemma Find_full: "bm_wf b \<Longrightarrow> marked b = {0..<numBits b} \<Longrightarrow> Find b = Inr (-1, b)"
  by (simp only: Find_def find_loop_none set_range order_refl)

lemma Find_first_clear:
  assumes wf: "bm_wf b" and "marked b \<noteq> {0..<numBits b}"
  obtains i b' where "Find b = Inr (i, b')" "in_range b i" "i \<notin> marked b" "{0..<i} \<subseteq> marked b"
    "bm_wf b'" "numBits b' = numBits b" "marked b' = insert i (marked b)"
proof -
  let ?P = "\<lambda>k. in_range b (int k) \<and> int k \<notin> marked b"
  from assms(2) marked_subset [of b] obtain j where "j \<in> {0..<numBits b}" "j \<notin> marked b"
    by blast
  then have ex: "?P (nat j)" by (simp add: in_range_def)
  define i where "i = int (LEAST k. ?P k)"
  have i: "in_range b i" "i \<notin> marked b"
    using LeastI [of ?P, OF ex] by (simp_all add: i_def)
  have below: "{0..<i} \<subseteq> marked b"
  proof
    fix k assume k: "k \<in> {0..<i}"
    then have "nat k < (LEAST k. ?P k)" by (simp add: i_def nat_less_iff)
    then have "\<not> ?P (nat k)" by (rule not_less_Least)
    with k i(1) show "k \<in> marked b" by (simp add: in_range_def)
  qed
  have "[0..numBits b - 1] = [0..i - 1] @ i # [i + 1..numBits b - 1]"
    using i(1) by (intro upto_split3) (simp_all add: in_range_def)
  moreover have "set [0..i - 1] \<subseteq> marked b"
    using below by (simp only: set_range)
  moreover note find_loop_some [OF wf _ i, of "[0..i - 1]" "[i + 1..numBits b - 1]"]
  ultimately obtain b' where "Find b = Inr (i, b')"
    "bm_wf b'" "numBits b' = numBits b" "marked b' = insert i (marked b)"
    unfolding Find_def by metis
  with i below show ?thesis by (intro that)
qed

lemma NumClear_ok:
  assumes "bm_wf b"
  shows "NumClear b = Inr (numBits b - int (card (marked b)))"
proof -
  let ?body = "\<lambda>i count. rbind (Test b i) (\<lambda>set. Inr (if \<not> set then count + 1 else count))"
  let ?I = "\<lambda>i count. count = int (card ({0..<i} - marked b))"
  have n: "0 \<le> numBits b" using assms by (simp add: bm_wf_def)
  have "\<exists>c. for_each [0..numBits b - 1] ?body 0 = Inr c \<and> ?I (numBits b) c"
  proof (rule for_loop_invariant [where I = ?I, OF n])
    show "?I 0 0" by simp
  next
    fix i count
    assume i: "0 \<le> i" "i < numBits b" and inv: "?I i count"
    have "{0..<i + 1} = insert i {0..<i}" using i by auto
    then show "\<exists>c. ?body i count = Inr c \<and> ?I (i + 1) c"
      using assms i inv by (simp add: Test_ok insert_Diff_if in_range_def)
  qed
  then have "NumClear b = Inr (int (card ({0..<numBits b} - marked b)))"
    by (simp add: NumClear_def)
  also have "int (card ({0..<numBits b} - marked b)) = numBits b - int (card (marked b))"
    using n marked_subset [of b] card_mono [OF _ marked_subset, of b]
    by (simp add: card_Diff_subset)
  finally show ?thesis .
qed

lemma Print_ok:
  assumes "bm_wf b"
  shows "Print b = Inr (filter (\<lambda>i. i \<in> marked b) [0..numBits b - 1])"
proof -
  let ?body = "\<lambda>i out. rbind (Test b i) (\<lambda>set. Inr (if set then out @ [i] else out))"
  let ?I = "\<lambda>i out. out = filter (\<lambda>i. i \<in> marked b) [0..i - 1]"
  have n: "0 \<le> numBits b" using assms by (simp add: bm_wf_def)
  have "\<exists>c. for_each [0..numBits b - 1] ?body [] = Inr c \<and> ?I (numBits b) c"
    by (rule for_loop_invariant [where I = ?I, OF n])
      (use assms in \<open>auto simp: Test_ok in_range_def upto_rec2\<close>)
  then show ?thesis by (simp add: Print_def)
qed

subsection \<open>The contract of an allocator of numbered slots\<close>

text \<open>
  \<open>alloc_n alloc n\<close> is a loop that allocates \<open>n\<close> slots one after the other and collects
  their numbers, as the loops that build a page table or a file header do;
  \<open>free_all free\<close> releases a list of slots.
\<close>

fun alloc_n :: "('s \<Rightarrow> (int \<times> 's) result) \<Rightarrow> nat \<Rightarrow> 's \<Rightarrow> (int list \<times> 's) result" where
  "alloc_n alloc 0 s = Inr ([], s)"
| "alloc_n alloc (Suc n) s =
     rbind (alloc s) (\<lambda>(i, s1). rbind (alloc_n alloc n s1) (\<lambda>(is, s2). Inr (i # is, s2)))"

definition free_all :: "('s \<Rightarrow> int \<Rightarrow> 's result) \<Rightarrow> int list \<Rightarrow> 's \<Rightarrow> 's result" where
  "free_all free is s = for_each is (\<lambda>i s. free s i) s"

locale slot_allocator =
  fixes invar :: "'s \<Rightarrow> bool"
    and cap :: "'s \<Rightarrow> int"
    and used :: "'s \<Rightarrow> int set"
    and alloc :: "'s \<Rightarrow> (int \<times> 's) result"
    and free :: "'s \<Rightarrow> int \<Rightarrow> 's result"
    and nfree :: "'s \<Rightarrow> int result"
  assumes cap_nonneg: "invar s \<Longrightarrow> 0 \<le> cap s"
    and used_range: "invar s \<Longrightarrow> used s \<subseteq> {0..<cap s}"
    and alloc_full: "invar s \<Longrightarrow> used s = {0..<cap s} \<Longrightarrow> alloc s = Inr (-1, s)"
    and alloc_some: "invar s \<Longrightarrow> used s \<noteq> {0..<cap s} \<Longrightarrow>
      \<exists>i s'. alloc s = Inr (i, s') \<and> i \<in> {0..<cap s} - used s \<and> invar s' \<and> cap s' = cap s
        \<and> used s' = insert i (used s)"
    and free_ok: "invar s \<Longrightarrow> i \<in> {0..<cap s} \<Longrightarrow>
      \<exists>s'. free s i = Inr s' \<and> invar s' \<and> cap s' = cap s \<and> used s' = used s - {i}"
    and free_bad: "invar s \<Longrightarrow> i \<notin> {0..<cap s} \<Longrightarrow> free s i = Inl AssertFailed"
    and nfree_ok: "invar s \<Longrightarrow> nfree s = Inr (cap s - int (card (used s)))"
begin

lemma finite_used: "invar s \<Longrightarrow> finite (used s)"
  using used_range by (meson finite_atLeastLessThan_int finite_subset)

lemma used_full_iff: "invar s \<Longrightarrow> used s = {0..<cap s} \<longleftrightarrow> int (card (used s)) = cap s"
  using used_range [of s] cap_nonneg [of s]
  by (metis card_atLeastLessThan_int card_subset_eq diff_zero finite_atLeastLessThan_int nat_0_le
      nat_int)

lemma alloc_result_iff_full:
  "invar s \<Longrightarrow> alloc s = Inr (i, s') \<Longrightarrow> i = -1 \<longleftrightarrow> used s = {0..<cap s}"
  using alloc_full [of s] alloc_some [of s] by force

lemma nfree_nonneg: "invar s \<Longrightarrow> nfree s = Inr k \<Longrightarrow> 0 \<le> k"
  using nfree_ok [of s] used_range [of s] cap_nonneg [of s] card_mono [of "{0..<cap s}" "used s"]
  by auto

text \<open>As long as slots are left, a run of allocations yields distinct slots that were free.\<close>

lemma alloc_n_ok:
  assumes "invar s" and "int n \<le> cap s - int (card (used s))"
  shows "\<exists>is s'. alloc_n alloc n s = Inr (is, s') \<and> length is = n \<and> distinct is
    \<and> set is \<subseteq> {0..<cap s} - used s \<and> invar s' \<and> cap s' = cap s \<and> used s' = used s \<union> set is"
  using assms
proof (induction n arbitrary: s)
  case 0
  then show ?case by simp
next
  case (Suc n)
  then have "used s \<noteq> {0..<cap s}" using used_full_iff [of s] by auto
  then obtain i s1 where 1: "alloc s = Inr (i, s1)" "i \<in> {0..<cap s} - used s" "invar s1"
    "cap s1 = cap s" "used s1 = insert i (used s)"
    using alloc_some Suc.prems by blast
  have "int n \<le> cap s1 - int (card (used s1))"
    using Suc.prems 1 finite_used by simp
  then obtain "is" s2 where "alloc_n alloc n s1 = Inr (is, s2)" "length is = n" "distinct is"
    "set is \<subseteq> {0..<cap s1} - used s1" "invar s2" "cap s2 = cap s1" "used s2 = used s1 \<union> set is"
    using Suc.IH [OF 1(3)] by blast
  with 1 show ?case by auto
qed

lemma free_all_ok:
  assumes "invar s" and "set is \<subseteq> {0..<cap s}"
  shows "\<exists>s'. free_all free is s = Inr s' \<and> invar s' \<and> cap s' = cap s \<and> used s' = used s - set is"
  using assms
proof (induction "is" arbitrary: s)
  case Nil
  then show ?case by (simp add: free_all_def)
next
  case (Cons i "is")
  then obtain s1 where "free s i = Inr s1" "invar s1" "cap s1 = cap s" "used s1 = used s - {i}"
    using free_ok [of s i] by auto
  with Cons.IH [of s1] Cons.prems show ?case by (auto simp: free_all_def)
qed

text \<open>Releasing exactly what was allocated gives back the set of slots in use.\<close>

lemma alloc_free_restores:
  assumes "invar s" and "alloc_n alloc n s = Inr (is, s')"
    and "int n \<le> cap s - int (card (used s))"
  shows "\<exists>s''. free_all free is s' = Inr s'' \<and> invar s'' \<and> used s'' = used s"
proof -
  have *: "set is \<subseteq> {0..<cap s} - used s" "invar s'" "cap s' = cap s" "used s' = used s \<union> set is"
    using alloc_n_ok [OF assms(1,3)] assms(2) by auto
  then have "set is \<subseteq> {0..<cap s'}" by auto
  from free_all_ok [OF *(2) this] * show ?thesis by auto
qed

end

interpretation bitmap_slots: slot_allocator bm_wf numBits marked Find Clear NumClear
proof (unfold_locales, goal_cases)
  case (1 s)
  then show ?case by (simp add: bm_wf_def)
next
  case (2 s)
  show ?case by (rule marked_subset)
next
  case (3 s)
  then show ?case by (rule Find_full)
next
  case (4 s)
  then obtain i s' where "Find s = Inr (i, s')" "in_range s i" "i \<notin> marked s"
    "bm_wf s'" "numBits s' = numBits s" "marked s' = insert i (marked s)"
    by (blast elim: Find_first_clear)
  then show ?case by (auto simp: in_range_def)
next
  case (5 s i)
  then show ?case by (auto intro: Clear_ok [of s i])
next
  case (6 s i)
  then show ?case by (auto intro: out_of_range_faults simp: in_range_def)
next
  case (7 s)
  then show ?case by (rule NumClear_ok)
qed

subsection \<open>Properties\<close>

text \<open>
  C1: \<^verbatim>\<open>BitMap::Find\<close> returns the number of the lowest bit that is off and turns exactly
  that bit on; when every bit is on it returns -1 and changes nothing.
\<close>

theorem Find_lowest_clear:
  assumes "bm_wf b"
  shows "if marked b = {0..<numBits b} then Find b = Inr (-1, b)
    else let i = Min ({0..<numBits b} - marked b)
         in \<exists>b'. Find b = Inr (i, b') \<and> bm_wf b' \<and> numBits b' = numBits b
              \<and> marked b' = insert i (marked b)"
proof (cases "marked b = {0..<numBits b}")
  case True
  then show ?thesis using Find_full [OF assms] by simp
next
  case False
  from Find_first_clear [OF assms this] obtain i b' where
    i: "Find b = Inr (i, b')" "in_range b i" "i \<notin> marked b" "{0..<i} \<subseteq> marked b"
    "bm_wf b'" "numBits b' = numBits b" "marked b' = insert i (marked b)" .
  have "Min ({0..<numBits b} - marked b) = i"
  proof (rule Min_eqI)
    fix k assume k: "k \<in> {0..<numBits b} - marked b"
    then have "k \<notin> {0..<i}" using i(4) by blast
    with k show "i \<le> k" by simp
  qed (use i(2,3) in \<open>simp_all add: in_range_def\<close>)
  with i False show ?thesis by (simp add: Let_def)
qed

theorem Find_lowest_clear_witness:
  "bm_wf \<lparr>numBits = 5, numWords = 1, map_words = [23]\<rparr> \<and>
   Find \<lparr>numBits = 5, numWords = 1, map_words = [23]\<rparr> =
     Inr (3, \<lparr>numBits = 5, numWords = 1, map_words = [31]\<rparr>) \<and>
   3 \<in> {0..<5} - marked \<lparr>numBits = 5, numWords = 1, map_words = [23]\<rparr>"
proof -
  let ?b = "\<lparr>numBits = 5, numWords = 1, map_words = [23]\<rparr>"
  have wf: "bm_wf ?b" by code_simp
  have find: "Find ?b = Inr (3, \<lparr>numBits = 5, numWords = 1, map_words = [31]\<rparr>)" by code_simp
  have "marked ?b \<noteq> {0..<5} \<and> 3 = Min ({0..<5} - marked ?b)"
    using Find_lowest_clear [OF wf] find by (auto simp: Let_def split: if_splits)
  moreover have "3 \<notin> marked ?b" by (simp add: marked_def bit_at_def)
  ultimately show ?thesis using wf find by simp
qed

text \<open>
  Whatever the freshly allocated words contain, the constructor yields a bitmap of
  \<open>n\<close> clear bits, and \<open>k \<le> n\<close> calls of \<^verbatim>\<open>Find\<close> in a row return \<open>k\<close> different numbers below
  \<open>n\<close>, after which \<^verbatim>\<open>NumClear\<close> counts \<open>n - k\<close> clear bits.
\<close>

lemma fresh_bitmap_allocates_distinct:
  assumes "0 \<le> n" and "int k \<le> n"
  shows "\<exists>b is b'. BitMap garbage n = Inr b \<and> alloc_n Find k b = Inr (is, b')
    \<and> length is = k \<and> distinct is \<and> set is \<subseteq> {0..<n} \<and> marked b' = set is
    \<and> NumClear b' = Inr (n - int k)"
proof -
  obtain b where b: "BitMap garbage n = Inr b" "bm_wf b" "numBits b = n" "marked b = {}"
    using BitMap_ok [OF assms(1)] by blast
  then obtain "is" b' where "alloc_n Find k b = Inr (is, b')" "length is = k" "distinct is"
    "set is \<subseteq> {0..<n}" "bm_wf b'" "numBits b' = n" "marked b' = set is"
    using bitmap_slots.alloc_n_ok [of b k] assms(2) by auto
  with b show ?thesis by (simp add: NumClear_ok distinct_card)
qed

end
