(* ===== verification/Memory_Manager.thy ===== *)
theory Memory_Manager
  imports Bitmap
begin

text \<open>
  The memory manager of \<^verbatim>\<open>userprog/memoryManager.cc\<close>: one bitmap over the physical pages.
  It is an instance of the allocator contract of theory \<open>Bitmap\<close>.
\<close>

definition SectorSize :: int where
  "SectorSize = 128"

definition PageSize :: int where
  "PageSize = SectorSize"

definition NumPhysPages :: int where
  "NumPhysPages = 32"

definition MemorySize :: int where
  "MemorySize = NumPhysPages * PageSize"

lemmas page_constants [simp] = SectorSize_def PageSize_def NumPhysPages_def MemorySize_def

record memoryManager =
  mm_bitmap :: bitmap

definition MemoryManager :: "(nat \<Rightarrow> 32 word) \<Rightarrow> memoryManager result" where
  "MemoryManager garbage = rbind (BitMap garbage NumPhysPages) (\<lambda>b. Inr \<lparr>mm_bitmap = b\<rparr>)"

definition getPage :: "memoryManager \<Rightarrow> (int \<times> memoryManager) result" where
  "getPage m = rbind (Find (mm_bitmap m)) (\<lambda>(i, b). Inr (i, m\<lparr>mm_bitmap := b\<rparr>))"

definition mm_clearPage :: "memoryManager \<Rightarrow> int \<Rightarrow> memoryManager result" where
  "mm_clearPage m i = rbind (Clear (mm_bitmap m) i) (\<lambda>b. Inr (m\<lparr>mm_bitmap := b\<rparr>))"

definition getFreePageCount :: "memoryManager \<Rightarrow> int result" where
  "getFreePageCount m = NumClear (mm_bitmap m)"

definition mm_wf :: "memoryManager \<Rightarrow> bool" where
  "mm_wf m \<longleftrightarrow> bm_wf (mm_bitmap m) \<and> numBits (mm_bitmap m) = NumPhysPages"

abbreviation frames_used :: "memoryManager \<Rightarrow> int set" where
  "frames_used m \<equiv> marked (mm_bitmap m)"

lemma MemoryManager_ok:
  "\<exists>m. MemoryManager garbage = Inr m \<and> mm_wf m \<and> frames_used m = {}"
  using BitMap_ok [of NumPhysPages garbage] by (auto simp: MemoryManager_def mm_wf_def)

interpretation frame_slots:
  slot_allocator mm_wf "\<lambda>_. NumPhysPages" frames_used getPage mm_clearPage getFreePageCount
proof (unfold_locales, goal_cases)
  case (1 s)
  show ?case by simp
next
  case (2 s)
  then show ?case using marked_subset [of "mm_bitmap s"] by (simp add: mm_wf_def)
next
  case (3 s)
  then show ?case by (simp add: getPage_def mm_wf_def Find_full)
next
  case (4 s)
  then show ?case
    using bitmap_slots.alloc_some [of "mm_bitmap s"] by (fastforce simp: getPage_def mm_wf_def)
next
  case (5 s i)
  then show ?case
    using bitmap_slots.free_ok [of "mm_bitmap s" i] by (fastforce simp: mm_clearPage_def mm_wf_def)
next
  case (6 s i)
  then show ?case
    using bitmap_slots.free_bad [of "mm_bitmap s" i] by (simp add: mm_clearPage_def mm_wf_def)
next
  case (7 s)
  then show ?case by (simp add: getFreePageCount_def mm_wf_def NumClear_ok)
qed

end
