(* ===== verification/NList.thy ===== *)
theory NList
  imports Nachos_Prelude "HOL-Library.Multiset"
begin

text \<open>
  The singly linked lists of \<^verbatim>\<open>threads/list.cc\<close>, at the level of pointers.

  The heap holds the live \<^verbatim>\<open>ListElement\<close>s by address; \<^verbatim>\<open>new\<close> takes the next address that was
  never used and \<^verbatim>\<open>delete\<close> removes the cell. A pointer is \<open>None\<close> (\<^verbatim>\<open>NULL\<close>) or an address, and
  following it faults when it is null or points to no live cell. Items are \<^verbatim>\<open>void *\<close>, so an
  item may be \<open>None\<close> too. The walks along \<^verbatim>\<open>next\<close> are \<open>partial_function\<close>s: on a cyclic list they
  do not return, and the theorems below say that they do on the lists this class builds.

  \<open>list_rep\<close> relates a list object to the sequence of keys and items it stores;
  every operation is shown to implement an operation on sequences, to leave the rest of the
  heap alone and to free exactly the cell it removes. The other components of the
  development use the sequences.
\<close>

subsection \<open>List elements, the heap and the list object\<close>

record 'a ListElement =
  le_next :: "nat option"
  le_key :: int
  le_item :: "'a option"

record 'a lheap =
  cells :: "nat \<Rightarrow> 'a ListElement option"
  fresh :: nat

record nlist =
  lfirst :: "nat option"
  llast :: "nat option"

definition deref :: "'a lheap \<Rightarrow> nat option \<Rightarrow> 'a ListElement result" where
  "deref h p =
     (case p of None \<Rightarrow> Inl NullPointer
      | Some a \<Rightarrow> (case cells h a of None \<Rightarrow> Inl DanglingPointer | Some e \<Rightarrow> Inr e))"

definition set_next :: "'a lheap \<Rightarrow> nat option \<Rightarrow> nat option \<Rightarrow> 'a lheap result" where
  "set_next h p q =
     rbind (deref h p) (\<lambda>e. Inr (h\<lparr>cells := (cells h)(the p \<mapsto> e\<lparr>le_next := q\<rparr>)\<rparr>))"

definition new_ListElement :: "'a lheap \<Rightarrow> 'a option \<Rightarrow> int \<Rightarrow> nat \<times> 'a lheap" where
  "new_ListElement h itemPtr sortKey =
     (fresh h,
      h\<lparr>cells := (cells h)(fresh h \<mapsto> \<lparr>le_next = None, le_key = sortKey, le_item = itemPtr\<rparr>),
        fresh := fresh h + 1\<rparr>)"

definition delete_element :: "'a lheap \<Rightarrow> nat option \<Rightarrow> 'a lheap" where
  "delete_element h p = (case p of None \<Rightarrow> h | Some a \<Rightarrow> h\<lparr>cells := (cells h)(a := None)\<rparr>)"

subsection \<open>The operations\<close>

definition new_List :: nlist where
  "new_List = \<lparr>lfirst = None, llast = None\<rparr>"

definition IsEmpty :: "nlist \<Rightarrow> bool" where
  "IsEmpty l = (if lfirst l = None then True else False)"

definition Append :: "'a lheap \<Rightarrow> nlist \<Rightarrow> 'a option \<Rightarrow> ('a lheap \<times> nlist) result" where
  "Append h l item =
     (let (element, h) = new_ListElement h item 0 in
      if IsEmpty l then Inr (h, l\<lparr>lfirst := Some element, llast := Some element\<rparr>)
      else rbind (set_next h (llast l) (Some element)) (\<lambda>h.
           Inr (h, l\<lparr>llast := Some element\<rparr>)))"

definition Prepend :: "'a lheap \<Rightarrow> nlist \<Rightarrow> 'a option \<Rightarrow> ('a lheap \<times> nlist) result" where
  "Prepend h l item =
     (let (element, h) = new_ListElement h item 0 in
      if IsEmpty l then Inr (h, l\<lparr>lfirst := Some element, llast := Some element\<rparr>)
      else rbind (set_next h (Some element) (lfirst l)) (\<lambda>h.
           Inr (h, l\<lparr>lfirst := Some element\<rparr>)))"

text \<open>
  The search loop of \<^verbatim>\<open>SortedInsert\<close>: the element after which the new one goes, or \<open>None\<close>
  when the loop ends without finding a bigger key.
\<close>

partial_function (option) sorted_walk ::
    "'a lheap \<Rightarrow> int \<Rightarrow> nat option \<Rightarrow> nat option result option" where
  [code]: "sorted_walk h sortKey ptr =
     (case deref h ptr of
        Inl e \<Rightarrow> Some (Inl e)
      | Inr p \<Rightarrow>
          (if le_next p = None then Some (Inr None)
           else case deref h (le_next p) of
                  Inl e \<Rightarrow> Some (Inl e)
                | Inr q \<Rightarrow>
                    if sortKey < le_key q then Some (Inr ptr)
                    else sorted_walk h sortKey (le_next p)))"

definition SortedInsert ::
    "'a lheap \<Rightarrow> nlist \<Rightarrow> 'a option \<Rightarrow> int \<Rightarrow> ('a lheap \<times> nlist) result option" where
  "SortedInsert h l item sortKey =
     (let (element, h) = new_ListElement h item sortKey in
      if IsEmpty l then Some (Inr (h, l\<lparr>lfirst := Some element, llast := Some element\<rparr>))
      else case deref h (lfirst l) of
        Inl e \<Rightarrow> Some (Inl e)
      | Inr f \<Rightarrow>
          if sortKey < le_key f
          then Some (rbind (set_next h (Some element) (lfirst l)) (\<lambda>h.
                 Inr (h, l\<lparr>lfirst := Some element\<rparr>)))
          else map_option (\<lambda>w. rbind w (\<lambda>found. case found of
                 Some ptr \<Rightarrow>
                   rbind (deref h (Some ptr)) (\<lambda>p.
                   rbind (set_next h (Some element) (le_next p)) (\<lambda>h.
                   rbind (set_next h (Some ptr) (Some element)) (\<lambda>h. Inr (h, l))))
               | None \<Rightarrow>
                   rbind (set_next h (llast l) (Some element)) (\<lambda>h.
                   Inr (h, l\<lparr>llast := Some element\<rparr>))))
               (sorted_walk h sortKey (lfirst l)))"

text \<open>
  \<^verbatim>\<open>SortedRemove\<close> returns the item, \<open>None\<close> for \<^verbatim>\<open>NULL\<close>, and the key it stores through \<^verbatim>\<open>keyPtr\<close>
  when that pointer is not null.
\<close>

definition SortedRemove ::
    "'a lheap \<Rightarrow> nlist \<Rightarrow> bool \<Rightarrow> ('a option \<times> int option \<times> 'a lheap \<times> nlist) result" where
  "SortedRemove h l wants_key =
     (let element = lfirst l in
      if IsEmpty l then Inr (None, None, h, l)
      else rbind (deref h (lfirst l)) (\<lambda>e.
        let thing = le_item e;
            l' = (if lfirst l = llast l then l\<lparr>lfirst := None, llast := None\<rparr>
                  else l\<lparr>lfirst := le_next e\<rparr>);
            key = (if wants_key then Some (le_key e) else None)
        in Inr (thing, key, delete_element h element, l')))"

definition Remove :: "'a lheap \<Rightarrow> nlist \<Rightarrow> ('a option \<times> 'a lheap \<times> nlist) result" where
  "Remove h l = rbind (SortedRemove h l False) (\<lambda>(thing, _, h, l). Inr (thing, h, l))"

text \<open>\<^verbatim>\<open>Mapcar\<close>, with the effect of the function on some other state \<open>s\<close>.\<close>

partial_function (option) mapcar_walk ::
    "'a lheap \<Rightarrow> ('a option \<Rightarrow> 's \<Rightarrow> 's) \<Rightarrow> nat option \<Rightarrow> 's \<Rightarrow> 's result option" where
  [code]: "mapcar_walk h func ptr s =
     (if ptr = None then Some (Inr s)
      else case deref h ptr of
             Inl e \<Rightarrow> Some (Inl e)
           | Inr p \<Rightarrow> mapcar_walk h func (le_next p) (func (le_item p) s))"

definition Mapcar ::
    "'a lheap \<Rightarrow> nlist \<Rightarrow> ('a option \<Rightarrow> 's \<Rightarrow> 's) \<Rightarrow> 's \<Rightarrow> 's result option" where
  "Mapcar h l func s = mapcar_walk h func (lfirst l) s"

text \<open>The destructor removes items until it gets a null one.\<close>

partial_function (option) delete_List ::
    "'a lheap \<Rightarrow> nlist \<Rightarrow> ('a lheap \<times> nlist) result option" where
  [code]: "delete_List h l =
     (case Remove h l of
        Inl e \<Rightarrow> Some (Inl e)
      | Inr (thing, h', l') \<Rightarrow> if thing = None then Some (Inr (h', l')) else delete_List h' l')"

subsection \<open>The sequence a list object stands for\<close>

fun seg :: "(nat \<Rightarrow> 'a ListElement option) \<Rightarrow> nat option \<Rightarrow> nat list \<Rightarrow> nat option \<Rightarrow> bool" where
  "seg c p [] q \<longleftrightarrow> p = q"
| "seg c p (a # as) q \<longleftrightarrow> p = Some a \<and> (\<exists>e. c a = Some e \<and> seg c (le_next e) as q)"

definition entry :: "'a lheap \<Rightarrow> nat \<Rightarrow> int \<times> 'a option" where
  "entry h a = (le_key (the (cells h a)), le_item (the (cells h a)))"

definition list_rep :: "'a lheap \<Rightarrow> nlist \<Rightarrow> nat list \<Rightarrow> (int \<times> 'a option) list \<Rightarrow> bool" where
  "list_rep h l as xs \<longleftrightarrow>
     seg (cells h) (lfirst l) as None \<and> llast l = (if as = [] then None else Some (last as)) \<and>
     distinct as \<and> set as \<subseteq> {..<fresh h} \<and> xs = map (entry h) as"

text \<open>
  What an operation that turns the cells \<open>as\<close> of a list into \<open>as'\<close> may do to the heap: it
  changes no other old cell and takes new cells from unused addresses only.
\<close>

definition heap_frame :: "'a lheap \<Rightarrow> nat list \<Rightarrow> 'a lheap \<Rightarrow> nat list \<Rightarrow> bool" where
  "heap_frame h as h' as' \<longleftrightarrow>
     fresh h \<le> fresh h' \<and> set as' \<subseteq> set as \<union> {fresh h..<fresh h'} \<and>
     (\<forall>b. b < fresh h \<longrightarrow> b \<notin> set as \<longrightarrow> cells h' b = cells h b) \<and>
     (\<forall>b \<in> set as - set as'. cells h' b = None)"

lemma seg_append: "seg c p (as @ bs) q \<longleftrightarrow> (\<exists>r. seg c p as r \<and> seg c r bs q)"
  by (induction "as" arbitrary: p) auto

lemma seg_upd_other [simp]: "a \<notin> set as \<Longrightarrow> seg (c(a := v)) p as q = seg c p as q"
  by (induction "as" arbitrary: p) auto

lemma seg_cell: "seg c p as q \<Longrightarrow> a \<in> set as \<Longrightarrow> \<exists>e. c a = Some e"
  by (induction "as" arbitrary: p) auto

lemma seg_insert_after:
  assumes "seg c p (bs @ b # cs) q" and "c b = Some e" and "distinct (bs @ b # cs)"
    and "n \<notin> set (bs @ b # cs)"
  shows "seg (c(n \<mapsto> en\<lparr>le_next := le_next e\<rparr>, b \<mapsto> e\<lparr>le_next := Some n\<rparr>)) p (bs @ b # n # cs) q"
  using assms by (auto simp: seg_append)

lemma list_rep_IsEmpty: "list_rep h l as xs \<Longrightarrow> IsEmpty l \<longleftrightarrow> as = []"
  by (cases "as") (auto simp: list_rep_def IsEmpty_def)

lemma list_rep_new: "list_rep h new_List [] []"
  by (simp add: list_rep_def new_List_def)

lemma list_rep_fresh: "list_rep h l as xs \<Longrightarrow> fresh h \<notin> set as"
  by (auto simp: list_rep_def)

lemma list_rep_frame:
  "list_rep h l as xs \<Longrightarrow> heap_frame h bs h' bs' \<Longrightarrow> set as \<inter> set bs = {} \<Longrightarrow> list_rep h' l as xs"
proof -
  assume rep: "list_rep h l as xs" and fr: "heap_frame h bs h' bs'" and dj: "set as \<inter> set bs = {}"
  have same: "cells h' a = cells h a" if "a \<in> set as" for a
    using that rep fr dj by (auto simp: list_rep_def heap_frame_def)
  have "seg (cells h') p cs q = seg (cells h) p cs q" if "set cs \<subseteq> set as" for p cs q
    using that by (induction cs arbitrary: p) (auto simp: same)
  then show "list_rep h' l as xs"
    using rep fr same by (auto simp: list_rep_def heap_frame_def entry_def)
qed

subsection \<open>Every operation implements one on sequences\<close>

definition sorted_ins :: "int \<Rightarrow> 'a \<Rightarrow> (int \<times> 'a) list \<Rightarrow> (int \<times> 'a) list" where
  "sorted_ins k x xs = takeWhile (\<lambda>e. fst e \<le> k) xs @ (k, x) # dropWhile (\<lambda>e. fst e \<le> k) xs"

lemma insert_after_rep:
  assumes rep: "list_rep h l (bs @ b # cs) xs" and e: "cells h b = Some e"
    and h': "cells h' = (cells h)(fresh h \<mapsto> \<lparr>le_next = le_next e, le_key = k, le_item = x\<rparr>,
                 b \<mapsto> e\<lparr>le_next := Some (fresh h)\<rparr>)" "fresh h' = fresh h + 1"
    and l': "lfirst l' = lfirst l" "llast l' = (if cs = [] then Some (fresh h) else llast l)"
  shows "list_rep h' l' (bs @ b # fresh h # cs)
      (map (entry h) (bs @ [b]) @ (k, x) # map (entry h) cs) \<and>
    heap_frame h (bs @ b # cs) h' (bs @ b # fresh h # cs)"
proof -
  let ?n = "fresh h"
  have n: "?n \<notin> set (bs @ b # cs)" by (rule list_rep_fresh [OF rep])
  have d: "distinct (bs @ b # cs)" using rep by (simp add: list_rep_def)
  have "seg (cells h') (lfirst l') (bs @ b # ?n # cs) None"
    using seg_insert_after [of "cells h" "lfirst l" bs b cs None e ?n
        "\<lparr>le_next = None, le_key = k, le_item = x\<rparr>"] rep e d n
    by (simp add: list_rep_def h' l')
  moreover have "entry h' a = entry h a" if "a \<in> set (bs @ b # cs)" for a
    using that n e by (auto simp: entry_def h')
  moreover have "entry h' ?n = (k, x)" using n by (auto simp: entry_def h')
  ultimately show ?thesis
    using rep n d by (auto simp: list_rep_def heap_frame_def h' l' split: if_splits)
qed

lemma insert_front_rep:
  assumes rep: "list_rep h l as xs"
    and h': "cells h' = (cells h)(fresh h \<mapsto> \<lparr>le_next = lfirst l, le_key = k, le_item = x\<rparr>)"
      "fresh h' = fresh h + 1"
    and l': "lfirst l' = Some (fresh h)" "llast l' = (if as = [] then Some (fresh h) else llast l)"
  shows "list_rep h' l' (fresh h # as) ((k, x) # xs) \<and> heap_frame h as h' (fresh h # as)"
proof -
  have n: "fresh h \<notin> set as" by (rule list_rep_fresh [OF rep])
  then have "entry h' a = entry h a" if "a \<in> set as" for a
    using that by (auto simp: entry_def h')
  then show ?thesis
    using rep n by (auto simp: list_rep_def heap_frame_def entry_def h' l')
qed

lemma list_rep_nonempty:
  assumes "list_rep h l as xs" and "as \<noteq> []"
  obtains bs b e where "as = bs @ [b]" "llast l = Some b" "cells h b = Some e" "le_next e = None"
proof -
  obtain bs b where "as = bs @ [b]" using assms(2) by (cases "as" rule: rev_cases) auto
  with assms show thesis by (auto simp: list_rep_def seg_append intro: that)
qed

lemma first_element_rep:
  assumes "list_rep h l [] xs"
  shows "case new_ListElement h x k of (n, h') \<Rightarrow>
      list_rep h' (l\<lparr>lfirst := Some n, llast := Some n\<rparr>) [n] (xs @ [(k, x)]) \<and> heap_frame h [] h' [n]"
  using assms by (simp add: new_ListElement_def list_rep_def heap_frame_def entry_def)

lemma list_rep_Cons:
  assumes "list_rep h l (a # as) xs" obtains k x ys where "xs = (k, x) # ys"
  using assms by (cases "entry h a") (simp add: list_rep_def)

lemma Append_ok:
  assumes rep: "list_rep h l as xs"
  shows "\<exists>h' l' as'. Append h l x = Inr (h', l') \<and> list_rep h' l' as' (xs @ [(0, x)]) \<and>
    heap_frame h as h' as'"
proof (cases "as = []")
  case True
  then show ?thesis
    using first_element_rep [OF rep [unfolded True], where x = x and k = 0]
    by (auto simp: Append_def list_rep_IsEmpty [OF rep] split: prod.splits)
next
  case False
  then obtain bs b e where b: "as = bs @ [b]" "llast l = Some b" "cells h b = Some e" "le_next e = None"
    using list_rep_nonempty [OF rep] by blast
  have n: "fresh h \<noteq> b" using list_rep_fresh [OF rep] b by auto
  have xs: "xs = map (entry h) (bs @ [b])" using rep b by (simp add: list_rep_def)
  let ?h = "h\<lparr>cells := (cells h)(fresh h \<mapsto> \<lparr>le_next = None, le_key = 0, le_item = x\<rparr>,
      b \<mapsto> e\<lparr>le_next := Some (fresh h)\<rparr>), fresh := fresh h + 1\<rparr>"
  have "Append h l x = Inr (?h, l\<lparr>llast := Some (fresh h)\<rparr>)"
    using n b False
    by (simp add: Append_def new_ListElement_def list_rep_IsEmpty [OF rep] set_next_def deref_def)
  with insert_after_rep [OF rep [unfolded b] b(3), of ?h 0 x "l\<lparr>llast := Some (fresh h)\<rparr>"] b xs
  show ?thesis by auto
qed

lemma Prepend_ok:
  assumes rep: "list_rep h l as xs"
  shows "\<exists>h' l' as'. Prepend h l x = Inr (h', l') \<and> list_rep h' l' as' ((0, x) # xs) \<and>
    heap_frame h as h' as'"
proof (cases "as = []")
  case True
  then have "xs = []" using rep by (simp add: list_rep_def)
  with True show ?thesis
    using first_element_rep [OF rep [unfolded True], where x = x and k = 0]
    by (auto simp: Prepend_def list_rep_IsEmpty [OF rep] split: prod.splits)
next
  case False
  let ?h = "h\<lparr>cells := (cells h)(fresh h \<mapsto> \<lparr>le_next = lfirst l, le_key = 0, le_item = x\<rparr>),
      fresh := fresh h + 1\<rparr>"
  have "Prepend h l x = Inr (?h, l\<lparr>lfirst := Some (fresh h)\<rparr>)"
    using False
    by (simp add: Prepend_def new_ListElement_def list_rep_IsEmpty [OF rep] set_next_def deref_def)
  with insert_front_rep [OF rep, of ?h 0 x "l\<lparr>lfirst := Some (fresh h)\<rparr>"] False
  show ?thesis by auto
qed

text \<open>The search loop returns: it stops at the last element whose key is not bigger.\<close>

lemma sorted_walk_ok:
  "seg (cells h) (Some a) (a # as) None \<Longrightarrow>
   sorted_walk h k (Some a) =
     Some (Inr (if \<forall>b \<in> set as. fst (entry h b) \<le> k then None
       else Some (last (a # takeWhile (\<lambda>b. fst (entry h b) \<le> k) as))))"
proof (induction "as" arbitrary: a)
  case Nil
  then show ?case by (subst sorted_walk.simps) (auto simp: deref_def)
next
  case (Cons b bs)
  then obtain e e' where e: "cells h a = Some e" "le_next e = Some b" "cells h b = Some e'"
    by auto
  have "seg (cells h) (Some b) (b # bs) None" using Cons.prems by auto
  note IH = Cons.IH [OF this]
  show ?case
    by (subst sorted_walk.simps) (use e IH in \<open>auto simp: deref_def entry_def\<close>)
qed

lemma SortedInsert_later:
  assumes rep: "list_rep h l (a # rest) xs" and ea: "cells h a = Some ea" "\<not> k < le_key ea"
  shows "\<exists>h' l' as'. SortedInsert h l x k = Some (Inr (h', l')) \<and>
    list_rep h' l' as' (sorted_ins k x xs) \<and> heap_frame h (a # rest) h' as'"
proof -
  let ?small = "\<lambda>b. fst (entry h b) \<le> k"
  define cs where "cs = dropWhile ?small rest"
  obtain bs b where bs: "a # takeWhile ?small rest = bs @ [b]"
    by (cases "a # takeWhile ?small rest" rule: rev_cases) auto
  have split: "a # rest = bs @ b # cs"
  proof -
    have "a # rest = (a # takeWhile ?small rest) @ cs" by (simp add: cs_def)
    then show ?thesis unfolding bs by simp
  qed
  note rep' = rep [unfolded split]
  obtain e where e: "cells h b = Some e"
    using rep' seg_cell [of _ _ _ None b] by (fastforce simp: list_rep_def)
  have n: "fresh h \<notin> set (a # rest)" by (rule list_rep_fresh [OF rep])
  then have nb: "fresh h \<noteq> a" by simp
  have nb': "fresh h \<noteq> b" using n unfolding split by simp
  let ?h0 = "snd (new_ListElement h x k)"
  have "entry ?h0 c = entry h c" if "c \<in> set rest" for c
    using that n by (auto simp: entry_def new_ListElement_def)
  then have same: "takeWhile (\<lambda>b. fst (entry ?h0 b) \<le> k) rest = takeWhile ?small rest"
    "(\<forall>c \<in> set rest. fst (entry ?h0 c) \<le> k) \<longleftrightarrow> cs = []"
    by (auto simp: cs_def cong: takeWhile_cong)
  have "seg (cells ?h0) (Some a) (a # rest) None"
    using rep n by (auto simp: list_rep_def new_ListElement_def)
  from sorted_walk_ok [OF this, of k]
  have walk: "sorted_walk ?h0 k (Some a) = Some (Inr (if cs = [] then None else Some b))"
    unfolding same bs by simp
  have at_end: "llast l = Some b \<and> le_next e = None" if "cs = []"
    using that rep' e by (auto simp: list_rep_def seg_append)
  let ?h = "h\<lparr>cells := (cells h)(fresh h \<mapsto> \<lparr>le_next = le_next e, le_key = k, le_item = x\<rparr>,
      b \<mapsto> e\<lparr>le_next := Some (fresh h)\<rparr>), fresh := fresh h + 1\<rparr>"
  let ?l = "l\<lparr>llast := if cs = [] then Some (fresh h) else llast l\<rparr>"
  have "lfirst l = Some a" using rep by (simp add: list_rep_def)
  then have "SortedInsert h l x k = Some (Inr (?h, ?l))"
    using walk ea nb nb' e at_end
    by (cases "cs = []")
      (simp_all add: SortedInsert_def new_ListElement_def list_rep_IsEmpty [OF rep] set_next_def
        deref_def)
  moreover have "sorted_ins k x xs = map (entry h) (bs @ [b]) @ (k, x) # map (entry h) cs"
  proof -
    have "xs = map (entry h) (a # rest)" using rep by (simp add: list_rep_def)
    moreover have "fst (entry h a) \<le> k" using ea by (simp add: entry_def)
    ultimately show ?thesis
      unfolding bs [symmetric] by (simp add: sorted_ins_def cs_def takeWhile_map dropWhile_map o_def)
  qed
  ultimately show ?thesis
    using insert_after_rep [OF rep' e, of ?h k x ?l] split by auto
qed

lemma SortedInsert_ok:
  assumes rep: "list_rep h l as xs"
  shows "\<exists>h' l' as'. SortedInsert h l x k = Some (Inr (h', l')) \<and>
    list_rep h' l' as' (sorted_ins k x xs) \<and> heap_frame h as h' as'"
proof (cases "as")
  case Nil
  then have "xs = []" using rep by (simp add: list_rep_def)
  with Nil show ?thesis
    using first_element_rep [OF rep [unfolded Nil], where x = x and k = k]
    by (auto simp: SortedInsert_def list_rep_IsEmpty [OF rep] sorted_ins_def split: prod.splits)
next
  case (Cons a rest)
  obtain ea where ea: "cells h a = Some ea" "lfirst l = Some a" "a \<noteq> fresh h"
    using rep list_rep_fresh [OF rep] by (auto simp: list_rep_def Cons)
  have xs: "xs = map (entry h) (a # rest)" using rep by (simp add: list_rep_def Cons)
  show ?thesis
  proof (cases "k < le_key ea")
    case True
    let ?h = "h\<lparr>cells := (cells h)(fresh h \<mapsto> \<lparr>le_next = lfirst l, le_key = k, le_item = x\<rparr>),
      fresh := fresh h + 1\<rparr>"
    have "SortedInsert h l x k = Some (Inr (?h, l\<lparr>lfirst := Some (fresh h)\<rparr>))"
      using True ea Cons
      by (simp add: SortedInsert_def new_ListElement_def list_rep_IsEmpty [OF rep] set_next_def deref_def)
    moreover have "sorted_ins k x xs = (k, x) # xs"
      using True ea by (simp add: sorted_ins_def xs entry_def)
    ultimately show ?thesis
      using insert_front_rep [OF rep, of ?h k x "l\<lparr>lfirst := Some (fresh h)\<rparr>"] Cons by auto
  next
    case False
    then show ?thesis using SortedInsert_later [OF rep [unfolded Cons] ea(1)] Cons by simp
  qed
qed

lemma SortedRemove_empty: "list_rep h l [] xs \<Longrightarrow> SortedRemove h l w = Inr (None, None, h, l)"
  by (simp add: SortedRemove_def list_rep_IsEmpty)

lemma SortedRemove_ok:
  assumes rep: "list_rep h l (a # as) ((k, x) # xs)"
  shows "\<exists>h' l'. SortedRemove h l w = Inr (x, if w then Some k else None, h', l') \<and>
    list_rep h' l' as xs \<and> heap_frame h (a # as) h' as"
proof -
  obtain e where e: "cells h a = Some e" "lfirst l = Some a" "k = le_key e" "x = le_item e"
    "seg (cells h) (le_next e) as None" "a \<notin> set as"
    using rep by (auto simp: list_rep_def entry_def)
  have "as = [] \<longleftrightarrow> llast l = Some a"
    using rep e(6) by (auto simp: list_rep_def)
  then show ?thesis
    using rep e
    by (auto simp: SortedRemove_def list_rep_IsEmpty [OF rep] deref_def delete_element_def Let_def
        list_rep_def heap_frame_def entry_def)
qed

lemma Mapcar_ok:
  "list_rep h l as xs \<Longrightarrow> Mapcar h l func s = Some (Inr (fold func (map snd xs) s))"
proof -
  have "seg (cells h) p as None \<Longrightarrow>
      mapcar_walk h func p s = Some (Inr (fold func (map (snd \<circ> entry h) as) s))" for p s
    by (induction "as" arbitrary: p s)
      (auto simp: mapcar_walk.simps [of _ _ None] mapcar_walk.simps [of _ _ "Some _"] deref_def entry_def)
  then show "list_rep h l as xs \<Longrightarrow> ?thesis"
    by (simp add: list_rep_def Mapcar_def)
qed

text \<open>The destructor frees every cell of a list without null items.\<close>

lemma delete_List_ok:
  assumes "list_rep h l as xs" and "None \<notin> snd ` set xs"
  shows "\<exists>h'. delete_List h l = Some (Inr (h', new_List)) \<and> heap_frame h as h' []"
  using assms
proof (induction "as" arbitrary: h l xs)
  case Nil
  then have "l = new_List" by (cases l) (simp add: list_rep_def new_List_def)
  with Nil show ?case
    by (subst delete_List.simps) (simp add: Remove_def SortedRemove_empty heap_frame_def)
next
  case (Cons a "as")
  then obtain k x xs' where xs: "xs = (k, x) # xs'"
    by (blast elim: list_rep_Cons)
  from SortedRemove_ok [OF Cons.prems(1) [unfolded xs], of False]
  obtain h1 l1 where 1: "Remove h l = Inr (x, h1, l1)" "list_rep h1 l1 as xs'" "heap_frame h (a # as) h1 as"
    by (auto simp: Remove_def)
  from Cons.IH [OF 1(2)] Cons.prems(2) xs obtain h2 where
    2: "delete_List h1 l1 = Some (Inr (h2, new_List))" "heap_frame h1 as h2 []" by auto
  have "x \<noteq> None" using Cons.prems(2) xs by auto
  with 1 2 have "delete_List h l = Some (Inr (h2, new_List))"
    by (subst delete_List.simps) auto
  moreover have "heap_frame h (a # as) h2 []"
    using 1(3) 2(2) Cons.prems(1) by (auto simp: heap_frame_def list_rep_def)
  ultimately show ?case by blast
qed

subsection \<open>Any sequence of operations\<close>

datatype 'a list_op =
    OpAppend "'a option"
  | OpPrepend "'a option"
  | OpSortedInsert "'a option" int
  | OpRemove
  | OpSortedRemove

fun list_step ::
    "'a list_op \<Rightarrow> 'a lheap \<times> nlist \<Rightarrow>
       (('a option \<times> int option) \<times> ('a lheap \<times> nlist)) result option" where
  "list_step (OpAppend x) (h, l) = Some (rbind (Append h l x) (\<lambda>s. Inr ((None, None), s)))"
| "list_step (OpPrepend x) (h, l) = Some (rbind (Prepend h l x) (\<lambda>s. Inr ((None, None), s)))"
| "list_step (OpSortedInsert x k) (h, l) =
     map_option (\<lambda>r. rbind r (\<lambda>s. Inr ((None, None), s))) (SortedInsert h l x k)"
| "list_step OpRemove (h, l) = Some (rbind (Remove h l) (\<lambda>(x, s). Inr ((x, None), s)))"
| "list_step OpSortedRemove (h, l) =
     Some (rbind (SortedRemove h l True) (\<lambda>(x, k, s). Inr ((x, k), s)))"

fun seq_step ::
    "'a list_op \<Rightarrow> (int \<times> 'a option) list \<Rightarrow> ('a option \<times> int option) \<times> (int \<times> 'a option) list"
  where
  "seq_step (OpAppend x) xs = ((None, None), xs @ [(0, x)])"
| "seq_step (OpPrepend x) xs = ((None, None), (0, x) # xs)"
| "seq_step (OpSortedInsert x k) xs = ((None, None), sorted_ins k x xs)"
| "seq_step OpRemove xs =
     (case xs of [] \<Rightarrow> ((None, None), []) | (k, x) # ys \<Rightarrow> ((x, None), ys))"
| "seq_step OpSortedRemove xs =
     (case xs of [] \<Rightarrow> ((None, None), []) | (k, x) # ys \<Rightarrow> ((x, Some k), ys))"

definition stores :: "'a lheap \<times> nlist \<Rightarrow> (int \<times> 'a option) list \<Rightarrow> bool" where
  "stores s xs \<longleftrightarrow> (\<exists>as. list_rep (fst s) (snd s) as xs)"

lemma SortedRemove_stores:
  assumes "list_rep h l as xs"
  shows "\<exists>s'. SortedRemove h l w =
      Inr (case xs of [] \<Rightarrow> (None, None, s') | (k, x) # ys \<Rightarrow> (x, if w then Some k else None, s')) \<and>
    stores s' (tl xs)"
proof (cases "as")
  case Nil
  with assms show ?thesis
    by (auto simp: SortedRemove_empty list_rep_def stores_def intro!: exI [of _ "(h, l)"])
next
  case (Cons a as')
  then obtain k x ys where "xs = (k, x) # ys" using assms by (blast elim: list_rep_Cons)
  with SortedRemove_ok [OF assms [unfolded Cons this], of w] show ?thesis
    by (fastforce simp: stores_def)
qed

interpretation list_sequence: implements stores list_step seq_step
proof
  fix s :: "'a lheap \<times> nlist" and xs op
  assume "stores s xs"
  then obtain h l "as" where s: "s = (h, l)" "list_rep h l as xs"
    by (cases s) (auto simp: stores_def)
  show "\<exists>s'. list_step op s = Some (Inr (fst (seq_step op xs), s')) \<and> stores s' (snd (seq_step op xs))"
  proof (cases op)
    case (OpAppend x)
    with Append_ok [OF s(2), of x] s(1) show ?thesis by (auto simp: stores_def)
  next
    case (OpPrepend x)
    with Prepend_ok [OF s(2), of x] s(1) show ?thesis by (auto simp: stores_def)
  next
    case (OpSortedInsert x k)
    with SortedInsert_ok [OF s(2), of x k] s(1) show ?thesis by (auto simp: stores_def)
  next
    case OpRemove
    with SortedRemove_stores [OF s(2), of False] s(1) show ?thesis
      by (auto simp: Remove_def split: list.splits)
  next
    case OpSortedRemove
    with SortedRemove_stores [OF s(2), of True] s(1) show ?thesis
      by (auto split: list.splits)
  qed
qed

subsection \<open>Sorted insertion is a stable sort\<close>

lemma sorted_ins_mset: "mset (sorted_ins k x xs) = add_mset (k, x) (mset xs)"
  by (metis (no_types, lifting) mset.simps(2) mset_append sorted_ins_def takeWhile_dropWhile_id
      union_mset_add_mset_right)

lemma sorted_ins_sorted: "sorted (map fst xs) \<Longrightarrow> sorted (map fst (sorted_ins k x xs))"
proof (induction xs)
  case Nil
  then show ?case by (simp add: sorted_ins_def)
next
  case (Cons e xs)
  then show ?case
    by (cases "fst e \<le> k")
      (auto simp: sorted_ins_def dest: set_takeWhileD set_dropWhileD)
qed

lemma sorted_ins_filter:
  assumes "sorted (map fst xs)"
  shows "filter (\<lambda>e. j = fst e) (sorted_ins k x xs) =
    filter (\<lambda>e. j = fst e) xs @ (if j = k then [(k, x)] else [])"
  using assms
proof (induction xs)
  case Nil
  then show ?case by (simp add: sorted_ins_def)
next
  case (Cons e xs)
  have "filter (\<lambda>e. k = fst e) (e # xs) = []" if "\<not> fst e \<le> k"
    using that Cons.prems by (fastforce simp: filter_empty_conv)
  with Cons show ?case by (cases "fst e \<le> k") (auto simp: sorted_ins_def)
qed

lemma foldl_sorted_ins:
  "foldl (\<lambda>ys (k, x). sorted_ins k x ys) [] xs = sort_key fst xs"
proof -
  let ?s = "foldl (\<lambda>ys (k, x). sorted_ins k x ys) []"
  have "sorted (map fst (?s xs)) \<and> mset (?s xs) = mset xs \<and>
    (\<forall>j. filter (\<lambda>e. j = fst e) (?s xs) = filter (\<lambda>e. j = fst e) xs)"
    by (induction xs rule: rev_induct)
      (auto simp: sorted_ins_sorted sorted_ins_mset sorted_ins_filter)
  then show ?thesis
    by (intro properties_for_sort_key [symmetric]) simp_all
qed

lemma run_sorted_inserts:
  "run_spec seq_step (map (\<lambda>(k, x). OpSortedInsert x k) kxs) ys =
     (replicate (length kxs) (None, None), foldl (\<lambda>ys (k, x). sorted_ins k x ys) ys kxs)"
  by (induction kxs arbitrary: ys) auto

lemma run_sorted_removes:
  "run_spec seq_step (replicate (length ys) OpSortedRemove) ys = (map (\<lambda>(k, x). (x, Some k)) ys, [])"
  by (induction ys) auto

subsection \<open>Properties\<close>

text \<open>
  C2: on a new list, every sequence of \<^verbatim>\<open>Append\<close>, \<^verbatim>\<open>Prepend\<close>, \<^verbatim>\<open>SortedInsert\<close>, \<^verbatim>\<open>Remove\<close> and
  \<^verbatim>\<open>SortedRemove\<close> calls returns (no call loops, follows a null or dangling pointer), gives
  the results of the same operations on a mathematical sequence, and leaves a well-formed list
  that stores that sequence.
\<close>

theorem list_implements_sequence:
  "\<exists>s'. run_ops list_step ops (h, new_List) = Some (Inr (fst (run_spec seq_step ops []), s')) \<and>
     stores s' (snd (run_spec seq_step ops []))"
proof (rule list_sequence.run_simulates)
  show "stores (h, new_List) []" using list_rep_new [of h] by (auto simp: stores_def)
qed

text \<open>
  Inserting any items with \<^verbatim>\<open>SortedInsert\<close> and then removing them all with
  \<^verbatim>\<open>SortedRemove\<close> returns them with their keys in ascending order of the keys, those with equal keys in the
  order they were inserted.
\<close>

lemma sorted_list_sorts_stably:
  "map_option (map_sum id fst) (run_ops list_step
      (map (\<lambda>(k, x). OpSortedInsert x k) kxs @ replicate (length kxs) OpSortedRemove) (h, new_List)) =
   Some (Inr (replicate (length kxs) (None, None) @ map (\<lambda>(k, x). (x, Some k)) (sort_key fst kxs)))"
proof -
  have "stores (h, new_List) []" using list_rep_new [of h] by (auto simp: stores_def)
  then obtain s' where "run_ops list_step
      (map (\<lambda>(k, x). OpSortedInsert x k) kxs @ replicate (length kxs) OpSortedRemove) (h, new_List) =
    Some (Inr (fst (run_spec seq_step
      (map (\<lambda>(k, x). OpSortedInsert x k) kxs @ replicate (length kxs) OpSortedRemove) []), s'))"
    using list_sequence.run_simulates by blast
  then show ?thesis
    using run_sorted_removes [of "sort_key fst kxs"]
    by (simp add: run_spec_append run_sorted_inserts foldl_sorted_ins)
qed

text \<open>
  the destructor \<^verbatim>\<open>List::~List\<close> returns on every well-formed list without null items; it
  frees every cell of the list and touches no other cell.
\<close>

lemma destructor_frees_list:
  assumes "list_rep h l as xs" and "None \<notin> snd ` set xs"
  shows "\<exists>h'. delete_List h l = Some (Inr (h', new_List)) \<and>
    (\<forall>a \<in> set as. cells h' a = None) \<and> (\<forall>b < fresh h. b \<notin> set as \<longrightarrow> cells h' b = cells h b)"
  using delete_List_ok [OF assms] by (auto simp: heap_frame_def)

end
