(* ===== verification/Mips_Mult.thy ===== *)
theory Mips_Mult
  imports Nachos_Prelude
begin

text \<open>
  The 32 by 32 bit multiplication of the CPU simulator, \<^verbatim>\<open>Mult\<close> in \<^verbatim>\<open>machine/mipssim.cc\<close>: a
  shift-and-add loop over two words for each of the operand and the result, with an early
  exit, on the magnitudes of the operands in the signed case. The pair of result words is shown to be the exact
  64-bit product. \<^verbatim>\<open>a >>= 1\<close> shifts an \<^verbatim>\<open>int\<close>, so it is the arithmetic shift
  (\<open>signed_drop_bit\<close>), and \<^verbatim>\<open>-a\<close> wraps.
\<close>

unbundle bit_operations_syntax

subsection \<open>The code\<close>

fun mult_loop :: "nat \<Rightarrow> 32 word \<Rightarrow> 32 word \<Rightarrow> 32 word \<Rightarrow> 32 word \<Rightarrow> 32 word \<Rightarrow> 32 word \<times> 32 word"
  where
  "mult_loop 0 a bLo bHi lo hi = (hi, lo)"
| "mult_loop (Suc n) a bLo bHi lo hi =
     (let odd = a AND 1 \<noteq> 0;
          lo' = (if odd then lo + bLo else lo);
          hi1 = (if odd \<and> lo' < bLo then hi + 1 else hi);
          hi' = (if odd then hi1 + bHi else hi1)
      in if odd \<and> a AND 0xfffffffe = 0 then (hi', lo')
         else let bHi' = push_bit 1 bHi;
                  bHi'' = (if bLo AND 0x80000000 \<noteq> 0 then bHi' OR 1 else bHi')
              in mult_loop n (signed_drop_bit 1 a) (push_bit 1 bLo) bHi'' lo' hi')"

definition Mult :: "32 word \<Rightarrow> 32 word \<Rightarrow> bool \<Rightarrow> 32 word \<times> 32 word" where
  "Mult a b signedArith =
     (if a = 0 \<or> b = 0 then (0, 0)
      else let nega = signedArith \<and> a <s 0; negb = signedArith \<and> b <s 0;
               a' = (if nega then - a else a);
               b' = (if negb then - b else b);
               negative = (nega \<noteq> negb);
               (hi, lo) = mult_loop 32 a' b' 0 0 0
           in if negative
              then let hi = NOT hi; lo = NOT lo + 1 in (if lo = 0 then hi + 1 else hi, lo)
              else (hi, lo))"

subsection \<open>Double words\<close>

text \<open>The 64-bit number held by a pair of registers.\<close>

definition dword :: "32 word \<Rightarrow> 32 word \<Rightarrow> 64 word" where
  "dword hi lo = word_of_int (uint hi * 2 ^ 32 + uint lo)"

lemma dword_wrap: "word_of_int (z + 2 ^ 64 * k) = (word_of_int z :: 64 word)"
  by transfer (simp add: take_bit_eq_mod)

lemma dword_hi_mod: "word_of_int (x mod 2 ^ 32 * 2 ^ 32 + y) = (word_of_int (x * 2 ^ 32 + y) :: 64 word)"
proof -
  have "x mod 2 ^ 32 * 2 ^ 32 + y = (x * 2 ^ 32 + y) + 2 ^ 64 * (- (x div 2 ^ 32))"
    unfolding minus_mult_div_eq_mod [symmetric] by (simp add: algebra_simps)
  then show ?thesis by (simp only: dword_wrap)
qed

lemma dword_add:
  "dword ((if lo + bLo < bLo then hi + 1 else hi) + bHi) (lo + bLo) = dword hi lo + dword bHi bLo"
proof -
  have carry: "lo + bLo < bLo \<longleftrightarrow> 2 ^ 32 \<le> uint lo + uint bLo"
    and lo: "uint (lo + bLo) = uint lo + uint bLo - (if lo + bLo < bLo then 2 ^ 32 else 0)"
    using uint_lt2p [of lo] uint_lt2p [of bLo]
    by (auto simp: word_less_def uint_plus_if_size word_size)
  have hi: "uint ((if lo + bLo < bLo then hi + 1 else hi) + bHi)
      = (uint hi + uint bHi + (if lo + bLo < bLo then 1 else 0)) mod 2 ^ 32"
    by (simp add: uint_word_ariths mod_simps algebra_simps)
  show ?thesis
    unfolding dword_def hi dword_hi_mod lo wi_hom_add
    by (rule arg_cong [where f = word_of_int]) (simp add: algebra_simps)
qed

lemma sign_bit_iff: "w AND 0x80000000 \<noteq> 0 \<longleftrightarrow> 2 ^ 31 \<le> uint w" for w :: "32 word"
proof -
  have "w AND 0x80000000 \<noteq> 0 \<longleftrightarrow> bit w 31"
    using and_exp_eq_0_iff_not_bit [of w 31] by simp
  also have "\<dots> \<longleftrightarrow> bit (uint w) 31" by (simp add: bit_uint_iff)
  also have "\<dots> \<longleftrightarrow> odd (uint w div 2 ^ 31)" by (rule bit_iff_odd)
  also have "\<dots> \<longleftrightarrow> 2 ^ 31 \<le> uint w"
  proof -
    have "uint w div 2 ^ 31 < 2" "0 \<le> uint w div 2 ^ 31"
      using uint_lt2p [of w] by (auto simp: div_less_iff_less_mult pos_imp_zdiv_nonneg_iff)
    then have "uint w div 2 ^ 31 = 0 \<or> uint w div 2 ^ 31 = 1" by linarith
    then show ?thesis using uint_lt2p [of w] by (auto simp: zdiv_eq_0_iff div_eq_dividend_iff)
  qed
  finally show ?thesis .
qed

lemma push_bit_1_uint:
  "uint (push_bit 1 w) = 2 * uint w - (if 2 ^ 31 \<le> uint w then 2 ^ 32 else 0)" for w :: "32 word"
proof -
  have w: "push_bit 1 w = w + w" by (simp add: push_bit_eq_mult)
  show ?thesis unfolding w uint_plus_if_size using uint_lt2p [of w] by (auto simp: word_size)
qed

lemma dword_double:
  "dword (if bLo AND 0x80000000 \<noteq> 0 then push_bit 1 bHi OR 1 else push_bit 1 bHi) (push_bit 1 bLo)
   = 2 * dword bHi bLo"
proof -
  have or: "push_bit 1 bHi OR 1 = push_bit 1 bHi + 1"
    by (rule disjunctive_add [symmetric]) (auto simp only: bit_push_bit_iff bit_1_iff)
  have hi: "uint (if 2 ^ 31 \<le> uint bLo then push_bit 1 bHi + 1 else push_bit 1 bHi)
     = (2 * uint bHi + (if 2 ^ 31 \<le> uint bLo then 1 else 0)) mod 2 ^ 32"
    by (simp add: uint_word_ariths mod_simps push_bit_eq_mult algebra_simps)
  have "dword (if bLo AND 0x80000000 \<noteq> 0 then push_bit 1 bHi OR 1 else push_bit 1 bHi) (push_bit 1 bLo)
    = word_of_int (2 * (uint bHi * 2 ^ 32 + uint bLo))"
    unfolding sign_bit_iff or dword_def hi dword_hi_mod push_bit_1_uint
    by (rule arg_cong [where f = word_of_int]) (simp add: algebra_simps)
  then show ?thesis by (simp add: dword_def)
qed

lemma signed_half_mod:
  fixes a :: "32 word"
  assumes "n < 32"
  shows "uint a mod 2 ^ Suc n = uint a mod 2 + 2 * (uint (signed_drop_bit 1 a) mod 2 ^ n)"
proof -
  have "take_bit (Suc n) (uint a) = uint a mod 2 + 2 * take_bit n (uint a div 2)"
    by (simp add: take_bit_Suc)
  moreover have "take_bit n (uint a div 2) = take_bit n (uint (signed_drop_bit 1 a))"
    using assms by (intro bit_eqI) (auto simp: bit_simps bit_uint_iff simp flip: bit_Suc)
  ultimately show ?thesis by (simp add: take_bit_eq_mod)
qed

lemma only_bit_0:
  fixes a :: "32 word" assumes "a AND 1 \<noteq> 0" and "a AND 0xfffffffe = 0" shows "a = 1"
proof -
  have "(0xfffffffe :: 32 word) = NOT 1" by simp
  then have "a = (a AND 1) OR (a AND 0xfffffffe)" by (auto simp: bit_eq_iff bit_simps)
  also have "\<dots> = of_bool (odd a)" using assms(2) by (simp add: and_one_eq mod_2_eq_odd)
  finally show ?thesis using assms(1) by (cases "odd a") (simp_all add: and_one_eq mod_2_eq_odd)
qed

lemma mult_loop_ok:
  assumes "n \<le> 32"
  shows "mult_loop n a bLo bHi lo hi = (hi', lo') \<Longrightarrow>
    dword hi' lo' = dword hi lo + dword bHi bLo * word_of_int (uint a mod 2 ^ n)"
  using assms
proof (induction n arbitrary: a bLo bHi lo hi)
  case 0
  then show ?case by simp
next
  case (Suc n)
  let ?lo = "if a AND 1 \<noteq> 0 then lo + bLo else lo"
  let ?hi = "if a AND 1 \<noteq> 0 then (if lo + bLo < bLo then hi + 1 else hi) + bHi else hi"
  have acc: "dword ?hi ?lo = dword hi lo + dword bHi bLo * word_of_int (uint a mod 2)"
  proof -
    have "a AND 1 \<noteq> 0 \<longleftrightarrow> uint a mod 2 = 1"
      by (simp add: and_one_eq bit_uint_iff flip: odd_iff_mod_2_eq_one bit_0)
    moreover have "uint a mod 2 = 0 \<or> uint a mod 2 = 1" by auto
    ultimately show ?thesis by (auto simp: dword_add)
  qed
  show ?case
  proof (cases "a AND 1 \<noteq> 0 \<and> a AND 0xfffffffe = 0")
    case True
    then have "a = 1" by (simp add: only_bit_0)
    moreover have "(1 :: int) mod 2 ^ Suc n = 1" 
      by (intro mod_pos_pos_trivial one_less_power) simp_all
    ultimately show ?thesis using Suc.prems True acc by (auto simp: Let_def)
  next
    case False
    with Suc.prems have "mult_loop n (signed_drop_bit 1 a) (push_bit 1 bLo)
       (if bLo AND 0x80000000 \<noteq> 0 then push_bit 1 bHi OR 1 else push_bit 1 bHi) ?lo ?hi = (hi', lo')"
      by (simp add: Let_def cong: if_cong)
    from Suc.IH [OF this] Suc.prems(2)
    show ?thesis
      by (simp only: dword_double acc signed_half_mod wi_hom_add [symmetric] wi_hom_mult [symmetric] Suc_le_eq)
        (simp add: algebra_simps)
  qed
qed

lemma uint_neg: "uint (- w) = (if w = 0 then 0 else 2 ^ 32 - uint w)" for w :: "32 word"
proof (cases "w = 0")
  case False
  then have "0 < uint w" by (metis uint_0_iff uint_ge_0 order_le_less)
  moreover have "uint w mod 2 ^ 32 = uint w" using uint_lt2p [of w] by simp
  ultimately show ?thesis using False by (simp add: uint_word_ariths zmod_zminus1_eq_if)
qed simp

lemma dword_neg:
  "dword (if NOT lo + 1 = 0 then NOT hi + 1 else NOT hi) (NOT lo + 1) = - dword hi lo"
proof -
  have neg: "NOT lo + 1 = - lo" "NOT hi = - hi - 1" by (simp_all add: not_eq_complement)
  have hi: "uint (if - lo = 0 then - hi - 1 + 1 else - hi - 1)
      = (- uint hi - (if lo = 0 then 0 else 1)) mod 2 ^ 32"
    by (simp add: uint_word_ariths mod_simps)
  have "dword (if NOT lo + 1 = 0 then NOT hi + 1 else NOT hi) (NOT lo + 1)
      = word_of_int (- (uint hi * 2 ^ 32 + uint lo))"
    unfolding neg dword_def hi dword_hi_mod uint_neg
    by (rule arg_cong [where f = word_of_int]) (simp add: algebra_simps)
  then show ?thesis by (simp add: dword_def)
qed

lemma sint32: "sint w = (if 2 ^ 31 \<le> uint w then uint w - 2 ^ 32 else uint w)" for w :: "32 word"
proof -
  have "sint w = signed_take_bit 31 (uint w)" by (simp add: sint_uint)
  also have "\<dots> = take_bit 32 (uint w) - 2 ^ 32 * of_bool (bit (uint w) 31)"
    using signed_take_bit_eq_take_bit_minus [of 31 "uint w"] by simp
  also have "bit (uint w) 31 \<longleftrightarrow> 2 ^ 31 \<le> uint w"
    using sign_bit_iff [of w] and_exp_eq_0_iff_not_bit [of w 31] by (simp add: bit_uint_iff)
  finally show ?thesis using uint_lt2p [of w] by (simp add: take_bit_eq_mod)
qed

lemma magnitude: "uint (if w <s 0 then - w else w) = \<bar>sint w\<bar>" for w :: "32 word"
  using uint_lt2p [of w] by (auto simp: word_sless_alt sint32 uint_neg)

lemma dword_mult_loop:
  "mult_loop 32 a b 0 0 0 = (hi, lo) \<Longrightarrow> dword hi lo = word_of_int (uint a * uint b)"
proof -
  assume "mult_loop 32 a b 0 0 0 = (hi, lo)"
  then have "dword hi lo = dword 0 0 + dword 0 b * word_of_int (uint a mod 2 ^ 32)"
    by (rule mult_loop_ok [rotated]) simp
  moreover have "uint a mod 2 ^ 32 = uint a" using uint_lt2p [of a] by simp
  moreover have "dword 0 0 = 0" "dword 0 b = word_of_int (uint b)" by (simp_all add: dword_def)
  ultimately show ?thesis by (simp only: wi_hom_mult add_0 mult.commute)
qed

lemma Mult_dword:
  assumes "Mult a b s = (hi, lo)"
  shows "dword hi lo = word_of_int (if s then sint a * sint b else uint a * uint b)"
proof (cases "a = 0 \<or> b = 0")
  case True
  with assms show ?thesis by (auto simp: Mult_def dword_def)
next
  case False
  define a' where "a' = (if s \<and> a <s 0 then - a else a)"
  define b' where "b' = (if s \<and> b <s 0 then - b else b)"
  obtain h l where hl: "mult_loop 32 a' b' 0 0 0 = (h, l)" by fastforce
  then have 1: "dword h l = word_of_int (uint a' * uint b')" by (rule dword_mult_loop)
  let ?neg = "(s \<and> a <s 0) \<noteq> (s \<and> b <s 0)"
  have "dword hi lo = (if ?neg then - dword h l else dword h l)"
    using assms False hl dword_neg [of l h] unfolding Mult_def a'_def b'_def
    by (auto simp: Let_def split: if_splits)
  also have "\<dots> = word_of_int (if ?neg then - (uint a' * uint b') else uint a' * uint b')"
    unfolding 1 by (simp only: wi_hom_neg if_distrib [where f = word_of_int])
  also have "(if ?neg then - (uint a' * uint b') else uint a' * uint b')
      = (if s then sint a * sint b else uint a * uint b)"
    using magnitude [of a] magnitude [of b] by (auto simp: a'_def b'_def word_sless_alt)
  finally show ?thesis .
qed

lemma sint_word_of_int_64:
  "- (2 ^ 63) \<le> x \<Longrightarrow> x < 2 ^ 63 \<Longrightarrow> sint (word_of_int x :: 64 word) = x"
  by transfer (simp add: signed_take_bit_int_eq_self)

lemma uint_word_of_int_64: "0 \<le> x \<Longrightarrow> x < 2 ^ 64 \<Longrightarrow> uint (word_of_int x :: 64 word) = x"
  by transfer (simp add: take_bit_int_eq_self)

subsection \<open>Properties\<close>

text \<open>
  C3: \<^verbatim>\<open>Mult\<close> computes the exact double-length product of its operands, read as signed numbers
  when \<^verbatim>\<open>signedArith\<close> is set and as unsigned ones otherwise, for all operands (the most
  negative number included): the pair of words it stores is that product in two's complement.
\<close>

theorem Mult_product:
  "case Mult a b s of (hi, lo) \<Rightarrow>
     if s then sint (dword hi lo) = sint a * sint b else uint (dword hi lo) = uint a * uint b"
proof -
  have "\<bar>sint a\<bar> \<le> 2 ^ 31" "\<bar>sint b\<bar> \<le> 2 ^ 31"
    using uint_lt2p [of a] uint_lt2p [of b] by (auto simp: sint32)
  then have "\<bar>sint a * sint b\<bar> \<le> 2 ^ 31 * 2 ^ 31" unfolding abs_mult by (intro mult_mono) auto
  moreover have "uint a * uint b < 2 ^ 32 * 2 ^ 32"
    using uint_lt2p [of a] uint_lt2p [of b] by (intro mult_strict_mono') auto
  ultimately show ?thesis
    using Mult_dword [of a b s] sint_word_of_int_64 [of "sint a * sint b"]
      uint_word_of_int_64 [of "uint a * uint b"]
    by (auto split: prod.splits)
qed

end
