(* ===== verification/Hardware.thy ===== *)
theory Hardware
  imports Memory_Manager NList
begin

text \<open>
  The state of the simulated workstation, shared by the theories on the CPU, the address
  translation, the interrupts and the devices: the public data of \<^verbatim>\<open>class Machine\<close>
  (\<^verbatim>\<open>machine/machine.h\<close>), \<^verbatim>\<open>class Interrupt\<close> (\<^verbatim>\<open>machine/interrupt.h\<close>) and
  \<^verbatim>\<open>class Statistics\<close> (\<^verbatim>\<open>machine/stats.h\<close>), the page tables that \<^verbatim>\<open>machine->pageTable\<close> points
  into, and a component \<open>kern\<close> of any type for the state of the devices and the kernel.

  Registers and main memory are functions from indices to words. The code indexes the
  registers by constants below 40 and by the 5-bit fields of an instruction; the one index that
  comes from a register, and every index into memory, is checked where it is used.
\<close>

subsection \<open>Enumerations and constants\<close>

datatype IntStatus = IntOff | IntOn

datatype MachineStatus = IdleMode | SystemMode | UserMode

datatype IntType =
    TimerInt | DiskInt | ConsoleWriteInt | ConsoleReadInt | NetworkSendInt | NetworkRecvInt

datatype ExceptionType =
    NoException
  | SyscallException
  | PageFaultException
  | ReadOnlyException
  | BusErrorException
  | AddressErrorException
  | OverflowException
  | IllegalInstrException

text \<open>The functions the devices pass to \<^verbatim>\<open>Interrupt::Schedule\<close>.\<close>

datatype VoidFunctionPtr =
    TimerHandler | DiskDone | ConsoleReadPoll | ConsoleWriteDone | NetworkReadPoll | NetworkSendDone

definition StackReg :: nat where "StackReg = 29"
definition RetAddrReg :: nat where "RetAddrReg = 31"
definition NumGPRegs :: nat where "NumGPRegs = 32"
definition HiReg :: nat where "HiReg = 32"
definition LoReg :: nat where "LoReg = 33"
definition PCReg :: nat where "PCReg = 34"
definition NextPCReg :: nat where "NextPCReg = 35"
definition PrevPCReg :: nat where "PrevPCReg = 36"
definition LoadReg :: nat where "LoadReg = 37"
definition LoadValueReg :: nat where "LoadValueReg = 38"
definition BadVAddrReg :: nat where "BadVAddrReg = 39"
definition NumTotalRegs :: nat where "NumTotalRegs = 40"
definition TLBSize :: int where "TLBSize = 4"

lemmas reg_defs =
  StackReg_def RetAddrReg_def NumGPRegs_def HiReg_def LoReg_def PCReg_def NextPCReg_def
  PrevPCReg_def LoadReg_def LoadValueReg_def BadVAddrReg_def NumTotalRegs_def

subsection \<open>Records\<close>

record PendingInterrupt =
  pi_handler :: VoidFunctionPtr
  pi_arg :: int
  pi_when :: int
  pi_type :: IntType

record Statistics =
  totalTicks :: int
  idleTicks :: int
  systemTicks :: int
  userTicks :: int
  numDiskReads :: int
  numDiskWrites :: int
  numConsoleCharsRead :: int
  numConsoleCharsWritten :: int
  numPageFaults :: int
  numPacketsSent :: int
  numPacketsRecvd :: int

record TranslationEntry =
  virtualPage :: int
  physicalPage :: int
  valid :: bool
  readOnly :: bool
  use :: bool
  dirty :: bool

text \<open>
  \<open>pageTables\<close> holds the page tables in memory by number; \<open>pageTable\<close> is the pointer to the
  current one, \<open>tlb\<close> the pointer to the TLB together with its contents.
\<close>

record 'k hw =
  registers :: "nat \<Rightarrow> 32 word"
  mainMemory :: "nat \<Rightarrow> 8 word"
  tlb :: "TranslationEntry list option"
  pageTable :: "nat option"
  pageTables :: "nat \<Rightarrow> TranslationEntry list"
  pageTableSize :: "32 word"
  singleStep :: bool
  level :: IntStatus
  pending :: "(int \<times> PendingInterrupt) list"
  inHandler :: bool
  yieldOnReturn :: bool
  status :: MachineStatus
  stats :: Statistics
  kern :: 'k

subsection \<open>Constructors\<close>

definition new_Statistics :: Statistics where
  "new_Statistics =
     \<lparr>totalTicks = 0, idleTicks = 0, systemTicks = 0, userTicks = 0, numDiskReads = 0,
      numDiskWrites = 0, numConsoleCharsRead = 0, numConsoleCharsWritten = 0, numPageFaults = 0,
      numPacketsSent = 0, numPacketsRecvd = 0\<rparr>"

definition new_PendingInterrupt ::
    "VoidFunctionPtr \<Rightarrow> int \<Rightarrow> int \<Rightarrow> IntType \<Rightarrow> PendingInterrupt" where
  "new_PendingInterrupt func param time kind =
     \<lparr>pi_handler = func, pi_arg = param, pi_when = time, pi_type = kind\<rparr>"

text \<open>
  The constructor of the machine: \<open>use_tlb\<close> is the build option \<^verbatim>\<open>USE_TLB\<close>, \<open>garbage\<close> the
  contents of the newly allocated TLB entries, of which only the valid bit is set.
\<close>

definition new_Machine :: "bool \<Rightarrow> TranslationEntry list \<Rightarrow> bool \<Rightarrow> 'k hw \<Rightarrow> 'k hw" where
  "new_Machine use_tlb garbage debug s =
     s\<lparr>registers := (\<lambda>i. if i < NumTotalRegs then 0 else registers s i),
       mainMemory := (\<lambda>i. if int i < MemorySize then 0 else mainMemory s i),
       tlb := (if use_tlb
               then Some (map (\<lambda>e. e\<lparr>valid := False\<rparr>) (take (nat TLBSize) garbage)) else None),
       pageTable := None,
       singleStep := debug\<rparr>"

definition new_Interrupt :: "'k hw \<Rightarrow> 'k hw" where
  "new_Interrupt s =
     s\<lparr>level := IntOff, pending := [], inHandler := False, yieldOnReturn := False,
       status := SystemMode\<rparr>"

subsection \<open>Registers\<close>

definition ReadRegister :: "int \<Rightarrow> 'k hw \<Rightarrow> (32 word) result" where
  "ReadRegister num s =
     rbind (ASSERT (num \<ge> 0 \<and> num < int NumTotalRegs)) (\<lambda>_. Inr (registers s (nat num)))"

definition WriteRegister :: "int \<Rightarrow> 32 word \<Rightarrow> 'k hw \<Rightarrow> 'k hw result" where
  "WriteRegister num val s =
     rbind (ASSERT (num \<ge> 0 \<and> num < int NumTotalRegs)) (\<lambda>_.
     Inr (s\<lparr>registers := (registers s)(nat num := val)\<rparr>))"

text \<open>
  \<^verbatim>\<open>Machine::DelayedLoad\<close>. The register that receives the pending load is named by a register,
  so its number is checked.
\<close>

definition DelayedLoad :: "32 word \<Rightarrow> 32 word \<Rightarrow> 'k hw \<Rightarrow> 'k hw result" where
  "DelayedLoad nextReg nextValue s =
     (let r = unat (registers s LoadReg) in
      if r < NumTotalRegs
      then Inr (s\<lparr>registers := (registers s)
             (r := registers s LoadValueReg, LoadReg := nextReg, LoadValueReg := nextValue, 0 := 0)\<rparr>)
      else Inl OutOfBounds)"

end
