(* ===== verification/Byte_Order.thy ===== *)
theory Byte_Order
  imports Nachos_Prelude
begin

text \<open>
  Words in the memory of the simulated machine: the conversions at the start of
  \<^verbatim>\<open>machine/translate.cc\<close> between the byte order of the host and the little-endian order of the
  machine, and host loads and stores of two and four bytes. The lemmas show that on both kinds
  of hosts the memory holds the little-endian bytes of a word.
\<close>

unbundle bit_operations_syntax

subsection \<open>Byte order of the host\<close>

text \<open>
  \<open>be\<close> is the build option \<^verbatim>\<open>HOST_IS_BIG_ENDIAN\<close>. A host load or store of a multi-byte object
  takes its bytes in the order of the host.
\<close>

definition WordToHost :: "bool \<Rightarrow> 32 word \<Rightarrow> 32 word" where
  "WordToHost be word =
     (if be
      then (drop_bit 24 word AND 0x000000ff) OR (drop_bit 8 word AND 0x0000ff00) OR
           (push_bit 8 word AND 0x00ff0000) OR (push_bit 24 word AND 0xff000000)
      else word)"

definition ShortToHost :: "bool \<Rightarrow> 16 word \<Rightarrow> 16 word" where
  "ShortToHost be shortword =
     (if be then (push_bit 8 shortword AND 0xff00) OR (drop_bit 8 shortword AND 0x00ff)
      else shortword)"

definition WordToMachine :: "bool \<Rightarrow> 32 word \<Rightarrow> 32 word" where
  "WordToMachine be word = WordToHost be word"

definition ShortToMachine :: "bool \<Rightarrow> 16 word \<Rightarrow> 16 word" where
  "ShortToMachine be shortword = ShortToHost be shortword"

definition bytes_le :: "nat \<Rightarrow> 'a :: len word \<Rightarrow> 8 word list" where
  "bytes_le n w = map (\<lambda>i. ucast (drop_bit (8 * i) w)) [0..<n]"

definition host_bytes :: "bool \<Rightarrow> nat \<Rightarrow> 'a :: len word \<Rightarrow> 8 word list" where
  "host_bytes be n w = (if be then rev (bytes_le n w) else bytes_le n w)"

fun word_le :: "8 word list \<Rightarrow> 'a :: len word" where
  "word_le [] = 0"
| "word_le (b # bs) = ucast b OR push_bit 8 (word_le bs)"

definition host_word :: "bool \<Rightarrow> 8 word list \<Rightarrow> 'a :: len word" where
  "host_word be bs = (if be then word_le (rev bs) else word_le bs)"

definition mem_bytes :: "(nat \<Rightarrow> 8 word) \<Rightarrow> nat \<Rightarrow> nat \<Rightarrow> 8 word list" where
  "mem_bytes mem a n = map (\<lambda>i. mem (a + i)) [0..<n]"

fun mem_put :: "(nat \<Rightarrow> 8 word) \<Rightarrow> nat \<Rightarrow> 8 word list \<Rightarrow> (nat \<Rightarrow> 8 word)" where
  "mem_put mem a [] = mem"
| "mem_put mem a (b # bs) = mem_put (mem(a := b)) (Suc a) bs"

text \<open>The option of the configured host, \<^verbatim>\<open>HOST = -DHOST_i386\<close>.\<close>

definition HOST_IS_BIG_ENDIAN :: bool where
  "HOST_IS_BIG_ENDIAN = False"

subsection \<open>Bytes and words\<close>

lemma swap_masks:
  "(0xff :: 32 word) = mask 8" "(0xff00 :: 32 word) = push_bit 8 (mask 8)"
  "(0xff0000 :: 32 word) = push_bit 16 (mask 8)" "(0xff000000 :: 32 word) = push_bit 24 (mask 8)"
  "(0xff :: 16 word) = mask 8" "(0xff00 :: 16 word) = push_bit 8 (mask 8)"
  by (simp_all add: mask_eq_exp_minus_1 push_bit_eq_mult)

lemma upt_2_4: "[0..<2] = [0, 1]" "[0..<4] = [0, 1, 2, 3 :: nat]"
  by (simp_all add: upt_rec)

text \<open>A store on either kind of host leaves the bytes in little-endian order.\<close>

lemma host_bytes_WordToMachine: "host_bytes be 4 (WordToMachine be w) = bytes_le 4 w"
  unfolding host_bytes_def WordToMachine_def WordToHost_def bytes_le_def upt_2_4 swap_masks
  by (auto simp: bit_eq_iff bit_simps)

lemma host_bytes_ShortToMachine: "host_bytes be 2 (ShortToMachine be w) = bytes_le 2 w"
  unfolding host_bytes_def ShortToMachine_def ShortToHost_def bytes_le_def upt_2_4 swap_masks
  by (auto simp: bit_eq_iff bit_simps)

lemma byte_high: "8 \<le> n \<Longrightarrow> \<not> bit b n" for b :: "8 word"
  by (auto dest: bit_imp_le_length)

lemma bytes_le_word_le: "length bs = 4 \<Longrightarrow> bytes_le 4 (word_le bs :: 32 word) = bs"
proof -
  assume "length bs = 4"
  then obtain b0 b1 b2 b3 where bs: "bs = [b0, b1, b2, b3]"
    by (auto simp: eval_nat_numeral length_Suc_conv)
  define w :: "32 word" where "w = word_le bs"
  have "ucast (drop_bit (8 * i) w) = bs ! i" if "i \<in> {0, 1, 2, 3}" for i
    by (rule bit_word_eqI) (use that in \<open>auto simp: w_def bs bit_simps byte_high\<close>)
  from this [of 0] this [of 1] this [of 2] this [of 3] have "bytes_le 4 w = bs"
    by (simp add: bytes_le_def upt_2_4 bs)
  then show ?thesis by (simp only: w_def)
qed

lemma bytes_le_short_le: "length bs = 2 \<Longrightarrow> bytes_le 2 (word_le bs :: 16 word) = bs"
proof -
  assume "length bs = 2"
  then obtain b0 b1 where bs: "bs = [b0, b1]"
    by (auto simp: eval_nat_numeral length_Suc_conv)
  define w :: "16 word" where "w = word_le bs"
  have "ucast (drop_bit (8 * i) w) = bs ! i" if "i \<in> {0, 1}" for i
    by (rule bit_word_eqI) (use that in \<open>auto simp: w_def bs bit_simps byte_high\<close>)
  from this [of 0] this [of 1] have "bytes_le 2 w = bs"
    by (simp add: bytes_le_def upt_2_4 bs)
  then show ?thesis by (simp only: w_def)
qed

lemma word_le_bytes_le: "word_le (bytes_le 4 w) = w" for w :: "32 word"
proof (rule bit_word_eqI)
  fix n :: nat assume "n < LENGTH(32)"
  then consider "n < 8" | "8 \<le> n" "n < 16" | "16 \<le> n" "n < 24" | "24 \<le> n" "n < 32" by fastforce
  then show "bit (word_le (bytes_le 4 w) :: 32 word) n = bit w n"
    unfolding bytes_le_def upt_2_4 by cases (auto simp: bit_simps)
qed

lemma short_le_bytes_le: "word_le (bytes_le 2 w) = w" for w :: "16 word"
proof (rule bit_word_eqI)
  fix n :: nat assume "n < LENGTH(16)"
  then show "bit (word_le (bytes_le 2 w) :: 16 word) n = bit w n"
    unfolding bytes_le_def upt_2_4 by (cases "8 \<le> n") (auto simp: bit_simps)
qed

text \<open>A load on either kind of host reads them in that order.\<close>

lemma WordToHost_host_word:
  assumes "length bs = 4" shows "WordToHost be (host_word be bs) = (word_le bs :: 32 word)"
proof (cases be)
  case True
  have "rev (bytes_le 4 (WordToHost True (word_le (rev bs) :: 32 word))) = rev bs"
    using host_bytes_WordToMachine [of True "word_le (rev bs)"] bytes_le_word_le [of "rev bs"] assms
    by (simp add: host_bytes_def WordToMachine_def)
  then have "bytes_le 4 (WordToHost True (word_le (rev bs) :: 32 word)) = bs" by simp
  then show ?thesis
    using True word_le_bytes_le [of "WordToHost True (word_le (rev bs))"] by (simp add: host_word_def)
qed (simp add: WordToHost_def host_word_def)

lemma ShortToHost_host_word:
  assumes "length bs = 2" shows "ShortToHost be (host_word be bs) = (word_le bs :: 16 word)"
proof (cases be)
  case True
  have "rev (bytes_le 2 (ShortToHost True (word_le (rev bs) :: 16 word))) = rev bs"
    using host_bytes_ShortToMachine [of True "word_le (rev bs)"] bytes_le_short_le [of "rev bs"] assms
    by (simp add: host_bytes_def ShortToMachine_def)
  then have "bytes_le 2 (ShortToHost True (word_le (rev bs) :: 16 word)) = bs" by simp
  then show ?thesis
    using True short_le_bytes_le [of "ShortToHost True (word_le (rev bs))"] by (simp add: host_word_def)
qed (simp add: ShortToHost_def host_word_def)

lemma mem_put_other: "b < a \<or> a + length bs \<le> b \<Longrightarrow> mem_put mem a bs b = mem b"
  by (induction bs arbitrary: mem a) auto

lemma mem_put_at: "i < length bs \<Longrightarrow> mem_put mem a bs (a + i) = bs ! i"
proof (induction bs arbitrary: mem a i)
  case Nil
  then show ?case by simp
next
  case (Cons b bs)
  show ?case
  proof (cases i)
    case 0
    then show ?thesis using mem_put_other [of a "Suc a" bs "mem(a := b)"] by simp
  next
    case (Suc j)
    have "mem_put (mem(a := b)) (Suc a) bs (Suc a + j) = bs ! j"
      by (rule Cons.IH) (use Cons.prems Suc in simp)
    then show ?thesis using Suc by simp
  qed
qed

lemma mem_bytes_put: "mem_bytes (mem_put mem a bs) a (length bs) = bs"
  by (rule nth_equalityI) (simp_all add: mem_bytes_def mem_put_at)

lemma length_bytes_le [simp]: "length (bytes_le n w) = n"
  by (simp add: bytes_le_def)

lemma length_mem_bytes [simp]: "length (mem_bytes mem a n) = n"
  by (simp add: mem_bytes_def)

end
