(* ===== verification/Translation.thy ===== *)
theory Translation
  imports Hardware Byte_Order
begin

text \<open>
  Virtual memory accesses of user programs, \<^verbatim>\<open>machine/translate.cc\<close>, with
  \<^verbatim>\<open>Machine::RaiseException\<close> of \<^verbatim>\<open>machine/machine.cc\<close>.

  Two parts of the kernel are arguments of the definitions. \<open>EH\<close> is \<^verbatim>\<open>ExceptionHandler\<close>, called
  when an access traps. \<open>fr\<close> finds the page frame of a translation entry: it is
  \<open>direct_frame\<close>, the field \<^verbatim>\<open>physicalPage\<close>, in builds without \<^verbatim>\<open>VM\<close>, and the calls of the
  virtual memory manager in builds with it.

  The lemmas give the outcome of \<^verbatim>\<open>Translate\<close> on every branch, show that its final assertion
  never fails, that reading back a word that was written returns it, and that a store changes
  no byte outside the frame it was translated to.
\<close>

unbundle bit_operations_syntax

subsection \<open>Traps\<close>

definition RaiseException ::
    "(ExceptionType \<Rightarrow> 'k hw \<Rightarrow> 'k hw result) \<Rightarrow> ExceptionType \<Rightarrow> 32 word \<Rightarrow> 'k hw \<Rightarrow> 'k hw result"
  where
  "RaiseException EH which badVAddr s =
     rbind (DelayedLoad 0 0 (s\<lparr>registers := (registers s)(BadVAddrReg := badVAddr)\<rparr>)) (\<lambda>s.
     rbind (EH which (s\<lparr>status := SystemMode\<rparr>)) (\<lambda>s.
     Inr (s\<lparr>status := UserMode\<rparr>)))"

subsection \<open>Translation\<close>

text \<open>A pointer to a translation entry: into the TLB or into a page table.\<close>

datatype entry_ptr = TlbEntry nat | PageEntry nat nat

definition get_entry :: "entry_ptr \<Rightarrow> 'k hw \<Rightarrow> TranslationEntry result" where
  "get_entry p s =
     (case p of
        TlbEntry i \<Rightarrow> (case tlb s of None \<Rightarrow> Inl NullPointer | Some t \<Rightarrow> aget t (int i))
      | PageEntry t i \<Rightarrow> aget (pageTables s t) (int i))"

definition set_entry :: "entry_ptr \<Rightarrow> TranslationEntry \<Rightarrow> 'k hw \<Rightarrow> 'k hw result" where
  "set_entry p e s =
     (case p of
        TlbEntry i \<Rightarrow>
          (case tlb s of None \<Rightarrow> Inl NullPointer
           | Some t \<Rightarrow> rbind (aset t (int i) e) (\<lambda>t. Inr (s\<lparr>tlb := Some t\<rparr>)))
      | PageEntry t i \<Rightarrow>
          rbind (aset (pageTables s t) (int i) e) (\<lambda>es.
          Inr (s\<lparr>pageTables := (pageTables s)(t := es)\<rparr>)))"

datatype translation = Phys "32 word" | Exc ExceptionType

text \<open>The search of the TLB: the first valid entry for the page.\<close>

fun tlb_search :: "TranslationEntry list \<Rightarrow> 32 word \<Rightarrow> int list \<Rightarrow> nat option result" where
  "tlb_search t vpn [] = Inr None"
| "tlb_search t vpn (i # is) =
     rbind (aget t i) (\<lambda>e.
       if valid e \<and> word_of_int (virtualPage e) = vpn then Inr (Some (nat i))
       else tlb_search t vpn is)"

definition find_entry :: "32 word \<Rightarrow> 'k hw \<Rightarrow> (ExceptionType + entry_ptr) result" where
  "find_entry vpn s =
     (case tlb s of
        None \<Rightarrow>
          if pageTableSize s \<le> vpn then Inr (Inl AddressErrorException)
          else (case pageTable s of None \<Rightarrow> Inl NullPointer
            | Some t \<Rightarrow>
                rbind (aget (pageTables s t) (uint vpn)) (\<lambda>e.
                if \<not> valid e then Inr (Inl PageFaultException)
                else Inr (Inr (PageEntry t (unat vpn)))))
      | Some t \<Rightarrow>
          rbind (tlb_search t vpn [0..TLBSize - 1]) (\<lambda>found.
          case found of None \<Rightarrow> Inr (Inl PageFaultException)
          | Some i \<Rightarrow> Inr (Inr (TlbEntry i))))"

definition direct_frame :: "entry_ptr \<Rightarrow> 'k hw \<Rightarrow> (32 word \<times> 'k hw) result" where
  "direct_frame p s = rbind (get_entry p s) (\<lambda>e. Inr (word_of_int (physicalPage e), s))"

definition Translate ::
    "(entry_ptr \<Rightarrow> 'k hw \<Rightarrow> (32 word \<times> 'k hw) result) \<Rightarrow>
     32 word \<Rightarrow> int \<Rightarrow> bool \<Rightarrow> 'k hw \<Rightarrow> (translation \<times> 'k hw) result" where
  "Translate fr virtAddr sz writing s =
     (if sz = 4 \<and> virtAddr AND 0x3 \<noteq> 0 \<or> sz = 2 \<and> virtAddr AND 0x1 \<noteq> 0
      then Inr (Exc AddressErrorException, s)
      else
        rbind (ASSERT (tlb s = None \<or> pageTable s = None)) (\<lambda>_.
        rbind (ASSERT (tlb s \<noteq> None \<or> pageTable s \<noteq> None)) (\<lambda>_.
        let vpn = virtAddr div word_of_int PageSize;
            offset = virtAddr mod word_of_int PageSize in
        rbind (find_entry vpn s) (\<lambda>found.
        case found of
          Inl exc \<Rightarrow> Inr (Exc exc, s)
        | Inr p \<Rightarrow>
            rbind (get_entry p s) (\<lambda>e.
            if readOnly e \<and> writing then Inr (Exc ReadOnlyException, s)
            else
              rbind (fr p s) (\<lambda>(pageFrame, s).
              if word_of_int NumPhysPages \<le> pageFrame then Inr (Exc BusErrorException, s)
              else
                rbind (get_entry p s) (\<lambda>e.
                rbind (set_entry p (e\<lparr>use := True, dirty := (writing \<or> dirty e)\<rparr>) s) (\<lambda>s.
                let physAddr = pageFrame * word_of_int PageSize + offset in
                rbind (ASSERT (0 \<le> sint physAddr \<and> sint physAddr + sz \<le> MemorySize)) (\<lambda>_.
                Inr (Phys physAddr, s))))))))))"

subsection \<open>Loads and stores\<close>

definition ReadMem ::
    "(entry_ptr \<Rightarrow> 'k hw \<Rightarrow> (32 word \<times> 'k hw) result) \<Rightarrow>
     (ExceptionType \<Rightarrow> 'k hw \<Rightarrow> 'k hw result) \<Rightarrow>
     32 word \<Rightarrow> int \<Rightarrow> 'k hw \<Rightarrow> (32 word option \<times> 'k hw) result" where
  "ReadMem fr EH addr sz s =
     rbind (Translate fr addr sz False s) (\<lambda>(tr, s).
     case tr of
       Exc exception \<Rightarrow> rbind (RaiseException EH exception addr s) (\<lambda>s. Inr (None, s))
     | Phys physicalAddress \<Rightarrow>
         let a = unat physicalAddress; be = HOST_IS_BIG_ENDIAN in
         if sz = 1 then Inr (Some (scast (mainMemory s a)), s)
         else if sz = 2
         then Inr (Some (ucast (ShortToHost be (host_word be (mem_bytes (mainMemory s) a 2)))), s)
         else if sz = 4
         then Inr (Some (WordToHost be (host_word be (mem_bytes (mainMemory s) a 4))), s)
         else rbind (ASSERT False) (\<lambda>_. Inr (None, s)))"

definition WriteMem ::
    "(entry_ptr \<Rightarrow> 'k hw \<Rightarrow> (32 word \<times> 'k hw) result) \<Rightarrow>
     (ExceptionType \<Rightarrow> 'k hw \<Rightarrow> 'k hw result) \<Rightarrow>
     32 word \<Rightarrow> int \<Rightarrow> 32 word \<Rightarrow> 'k hw \<Rightarrow> (bool \<times> 'k hw) result" where
  "WriteMem fr EH addr sz val s =
     rbind (Translate fr addr sz True s) (\<lambda>(tr, s).
     case tr of
       Exc exception \<Rightarrow> rbind (RaiseException EH exception addr s) (\<lambda>s. Inr (False, s))
     | Phys physicalAddress \<Rightarrow>
         let a = unat physicalAddress; be = HOST_IS_BIG_ENDIAN;
             put = (\<lambda>bs. s\<lparr>mainMemory := mem_put (mainMemory s) a bs\<rparr>) in
         if sz = 1 then Inr (True, put [ucast (val AND 0xff)])
         else if sz = 2
         then Inr (True, put (host_bytes be 2 (ShortToMachine be (ucast (val AND 0xffff)))))
         else if sz = 4 then Inr (True, put (host_bytes be 4 (WordToMachine be val)))
         else rbind (ASSERT False) (\<lambda>_. Inr (False, s)))"

subsection \<open>Outcomes of the translation\<close>

abbreviation touch :: "bool \<Rightarrow> TranslationEntry \<Rightarrow> TranslationEntry" where
  "touch writing e \<equiv> e\<lparr>use := True, dirty := (writing \<or> dirty e)\<rparr>"

definition misaligned :: "32 word \<Rightarrow> int \<Rightarrow> bool" where
  "misaligned va sz \<longleftrightarrow> sz = 4 \<and> va AND 0x3 \<noteq> 0 \<or> sz = 2 \<and> va AND 0x1 \<noteq> 0"

abbreviation page_of :: "32 word \<Rightarrow> 32 word" where
  "page_of va \<equiv> va div 128"

text \<open>
  The state in which the processor can run a program: exactly one of the TLB and the page table, the
  TLB of its size, the page table as long as the size register says.
\<close>

definition mmu_wf :: "'k hw \<Rightarrow> bool" where
  "mmu_wf s \<longleftrightarrow>
     (case tlb s of
        Some t \<Rightarrow> pageTable s = None \<and> int (length t) = TLBSize
      | None \<Rightarrow> (\<exists>t. pageTable s = Some t \<and> length (pageTables s t) = unat (pageTableSize s)))"

lemma tlb_search_ok:
  assumes "set is \<subseteq> {0..<int (length t)}"
  shows "\<exists>r. tlb_search t vpn is = Inr r \<and>
    (\<forall>i. r = Some i \<longrightarrow> i < length t \<and> valid (t ! i) \<and> word_of_int (virtualPage (t ! i)) = vpn)"
  using assms by (induction "is") auto

lemma find_entry_ok:
  assumes "mmu_wf s"
  shows "\<exists>r. find_entry vpn s = Inr r \<and>
    (\<forall>p. r = Inr p \<longrightarrow> (\<exists>e. get_entry p s = Inr e \<and> valid e \<and> (\<forall>e'. \<exists>s'. set_entry p e' s = Inr s')))"
proof (cases "tlb s")
  case None
  then obtain t where t: "pageTable s = Some t" "length (pageTables s t) = unat (pageTableSize s)"
    using assms by (auto simp: mmu_wf_def)
  have "uint vpn < int (length (pageTables s t))" if "\<not> pageTableSize s \<le> vpn"
    using that t(2) by (simp add: word_less_def not_le)
  with None t(1) show ?thesis
    by (auto simp: find_entry_def get_entry_def set_entry_def)
next
  case (Some t)
  with assms have l: "int (length t) = TLBSize" by (auto simp: mmu_wf_def)
  then obtain r where r: "tlb_search t vpn [0..TLBSize - 1] = Inr r"
    "\<forall>i. r = Some i \<longrightarrow> i < length t \<and> valid (t ! i) \<and> word_of_int (virtualPage (t ! i)) = vpn"
    using tlb_search_ok [of "[0..TLBSize - 1]" t vpn] by (auto simp: set_range simp del: set_upto)
  with Some show ?thesis
    by (cases r) (auto simp: find_entry_def get_entry_def set_entry_def)
qed

lemma low_bits: "va AND 0x3 = 0 \<longleftrightarrow> unat va mod 4 = 0" "va AND 0x1 = 0 \<longleftrightarrow> unat va mod 2 = 0"
  for va :: "32 word"
proof -
  have "unat (va AND mask n) = unat va mod 2 ^ n" if "n \<in> {1, 2}" for n
    using that by (auto simp: take_bit_eq_mod unat_mod simp flip: take_bit_eq_mask)
  from this [of 2] this [of 1] show "va AND 0x3 = 0 \<longleftrightarrow> unat va mod 4 = 0" "va AND 0x1 = 0 \<longleftrightarrow> unat va mod 2 = 0"
    by (auto simp: mask_eq_exp_minus_1 unat_eq_zero)
qed

text \<open>An aligned access does not cross the end of its page.\<close>

lemma aligned_in_page:
  assumes "sz \<in> {1, 2, 4}" and "\<not> misaligned va sz"
  shows "unat va mod 128 + nat sz \<le> 128"
proof -
  define y where "y = unat va mod 128"
  have y: "y < 128" "y mod 4 = unat va mod 4" "y mod 2 = unat va mod 2"
    by (simp_all add: y_def mod_mod_cancel)
  consider "sz = 1" | "sz = 2" "y mod 2 = 0" | "sz = 4" "y mod 4 = 0"
    using assms unfolding misaligned_def low_bits y by blast
  then have "y + nat sz \<le> 128"
  proof cases
    case 1
    with y(1) show ?thesis by simp
  next
    case 2
    then obtain k where "y = 2 * k" by (auto simp: mod_eq_0_iff_dvd)
    with y(1) have "y \<le> 126" by simp
    with 2 show ?thesis by simp
  next
    case 3
    then obtain k where "y = 4 * k" by (auto simp: mod_eq_0_iff_dvd)
    with y(1) have "y \<le> 124" by simp
    with 3 show ?thesis by simp
  qed
  then show ?thesis by (simp add: y_def)
qed

lemma phys_addr:
  fixes pf va :: "32 word"
  assumes "pf < 32"
  shows "unat (pf * 128 + va mod 128) = unat pf * 128 + unat va mod 128"
    and "sint (pf * 128 + va mod 128) = int (unat pf * 128 + unat va mod 128)"
proof -
  have pf: "unat pf < 32" using assms by (simp add: word_less_nat_alt)
  have "unat pf * 128 + unat va mod 128 < 32 * 128"
    using pf mod_less_divisor [of 128 "unat va"] by linarith
  then have small: "unat pf * 128 + unat va mod 128 < 4096" by simp
  have m: "unat (pf * 128) = unat pf * 128"
    using pf unat_mult_lem [of pf 128] by simp
  have r: "unat (va mod 128) = unat va mod 128" by (simp add: unat_mod)
  show u: "unat (pf * 128 + va mod 128) = unat pf * 128 + unat va mod 128"
    using small unat_add_lem [of "pf * 128" "va mod 128"] m r by simp
  have "sint w = int (unat w)" if "unat w < 2 ^ 31" for w :: "32 word"
  proof -
    have "int (unat w) < int (2 ^ 31)" using that by (simp only: of_nat_less_iff)
    then have "uint w < 2 ^ 31" by simp
    moreover have "- (2 ^ 31) \<le> uint w" by (rule order_trans [OF _ uint_ge_0]) simp
    ultimately show ?thesis
      using signed_take_bit_int_eq_self_iff [of 31 "uint w"] by (simp add: sint_uint)
  qed
  from this [of "pf * 128 + va mod 128"] u
  show "sint (pf * 128 + va mod 128) = int (unat pf * 128 + unat va mod 128)"
    using small by simp
qed

lemma mmu_wf_exclusive:
  "mmu_wf s \<Longrightarrow> tlb s = None \<or> pageTable s = None" "mmu_wf s \<Longrightarrow> tlb s = None \<Longrightarrow> pageTable s \<noteq> None"
  by (auto simp: mmu_wf_def split: option.splits)

text \<open>
  The one case analysis of \<^verbatim>\<open>Translate\<close> with direct frames that the later lemmas use: it never
  faults, and says what each of its outcomes means.
\<close>

lemma Translate_cases:
  assumes wf: "mmu_wf s" and sz: "sz \<in> {1, 2, 4}"
  obtains (misaligned) "misaligned va sz" "Translate direct_frame va sz w s = Inr (Exc AddressErrorException, s)"
    | (unmapped) x where "\<not> misaligned va sz" "find_entry (page_of va) s = Inr (Inl x)"
        "Translate direct_frame va sz w s = Inr (Exc x, s)"
    | (read_only) p e where "\<not> misaligned va sz" "find_entry (page_of va) s = Inr (Inr p)" "get_entry p s = Inr e"
        "readOnly e" "w" "Translate direct_frame va sz w s = Inr (Exc ReadOnlyException, s)"
    | (bus) p e where "\<not> misaligned va sz" "find_entry (page_of va) s = Inr (Inr p)" "get_entry p s = Inr e"
        "\<not> (readOnly e \<and> w)" "32 \<le> (word_of_int (physicalPage e) :: 32 word)"
        "Translate direct_frame va sz w s = Inr (Exc BusErrorException, s)"
    | (ok) p e s' where "\<not> misaligned va sz" "find_entry (page_of va) s = Inr (Inr p)" "get_entry p s = Inr e" "valid e"
        "\<not> (readOnly e \<and> w)" "(word_of_int (physicalPage e) :: 32 word) < 32"
        "set_entry p (touch w e) s = Inr s'"
        "Translate direct_frame va sz w s = Inr (Phys (word_of_int (physicalPage e) * 128 + va mod 128), s')"
proof (cases "misaligned va sz")
  case True
  then show thesis by (intro misaligned) (simp_all add: Translate_def misaligned_def)
next
  case False
  have bound: "0 \<le> sint (pf * 128 + va mod 128) \<and> sint (pf * 128 + va mod 128) + sz \<le> 4096"
    if "pf < 32" for pf :: "32 word"
  proof -
    have "unat pf < 32" using that by (simp add: word_less_nat_alt)
    then have "unat pf * 128 + 128 \<le> 4096" by simp
    with aligned_in_page [OF sz False] have "unat pf * 128 + unat va mod 128 + nat sz \<le> 4096" by linarith
    then have "int (unat pf * 128 + unat va mod 128) + sz \<le> 4096" by linarith
    then show ?thesis unfolding phys_addr(2) [OF that, of va] by simp
  qed
  note nomis = False [unfolded misaligned_def]
  have ex: "tlb s = None \<or> pageTable s = None" "tlb s \<noteq> None \<or> pageTable s \<noteq> None"
    using mmu_wf_exclusive [OF wf] by blast+
  from find_entry_ok [OF wf, of "page_of va"] obtain r where r: "find_entry (page_of va) s = Inr r"
    "\<forall>p. r = Inr p \<longrightarrow> (\<exists>e. get_entry p s = Inr e \<and> valid e \<and> (\<forall>e'. \<exists>s'. set_entry p e' s = Inr s'))"
    by blast
  show thesis
  proof (cases r)
    case (Inl x)
    with r(1) have "Translate direct_frame va sz w s = Inr (Exc x, s)"
      by (simp only: Translate_def if_not_P [OF nomis] ASSERT_True [OF ex(1)] ASSERT_True [OF ex(2)]
          rbind_Inr Let_def) (simp add: Translate_def)
    with Inl r(1) False show thesis by (intro unmapped) simp_all
  next
    case (Inr p)
    with r(2) obtain e where e: "get_entry p s = Inr e" "valid e" "\<forall>e'. \<exists>s'. set_entry p e' s = Inr s'"
      by blast
    then obtain s' where s': "set_entry p (touch w e) s = Inr s'" by blast
    have tr: "Translate direct_frame va sz w s =
       (if readOnly e \<and> w then Inr (Exc ReadOnlyException, s)
        else if 32 \<le> (word_of_int (physicalPage e) :: 32 word) then Inr (Exc BusErrorException, s)
        else Inr (Phys (word_of_int (physicalPage e) * 128 + va mod 128), s'))"
      using r(1) Inr e(1) s' bound [of "word_of_int (physicalPage e)"]
      by (simp only: Translate_def if_not_P [OF nomis] ASSERT_True [OF ex(1)] ASSERT_True [OF ex(2)]
          rbind_Inr Let_def) (auto simp: direct_frame_def not_le)
    show thesis
    proof (cases "readOnly e \<and> w")
      case True
      with r(1) Inr e(1) False tr show thesis by (intro read_only) auto
    next
      case rw: False
      show thesis
      proof (cases "32 \<le> (word_of_int (physicalPage e) :: 32 word)")
        case True
        with r(1) Inr e(1) False rw tr show thesis by (intro bus) auto
      next
        case False
        with r(1) Inr e(1,2) \<open>\<not> misaligned va sz\<close> rw tr s' show thesis by (intro ok) auto
      qed
    qed
  qed
qed

subsection \<open>Setting the use and dirty bits keeps the mapping\<close>

lemma tlb_search_cong:
  assumes "map (\<lambda>e. (valid e, virtualPage e)) t = map (\<lambda>e. (valid e, virtualPage e)) t'"
  shows "tlb_search t vpn is = tlb_search t' vpn is"
proof -
  have l: "length t = length t'" using assms by (rule map_eq_imp_length_eq)
  have "valid (t ! i) = valid (t' ! i) \<and> virtualPage (t ! i) = virtualPage (t' ! i)" if "i < length t" for i
    using that l arg_cong [OF assms, of "\<lambda>xs. xs ! i"] by simp
  with l show ?thesis by (induction "is") (auto simp: aget_def)
qed

lemma set_entry_keeps:
  assumes "mmu_wf s" and "get_entry p s = Inr e" and "set_entry p e' s = Inr s'"
    and "valid e' = valid e" and "virtualPage e' = virtualPage e"
  shows "mmu_wf s'" and "find_entry vpn s' = find_entry vpn s" and "get_entry p s' = Inr e'"
proof -
  have tlb_eq: "map (\<lambda>e. (valid e, virtualPage e)) (t[i := e']) = map (\<lambda>e. (valid e, virtualPage e)) t"
    if "t ! i = e" for t i
    using that assms(4,5) by (simp add: map_update) (metis list_update_id map_update)
  show "mmu_wf s'"
    using assms by (cases p) (auto simp: mmu_wf_def set_entry_def aset_def split: option.splits if_splits)
  show "get_entry p s' = Inr e'"
    using assms(3) by (cases p) (auto simp: get_entry_def set_entry_def aset_def split: option.splits if_splits)
  show "find_entry vpn s' = find_entry vpn s"
  proof (cases p)
    case (TlbEntry i)
    with assms(2,3) obtain t where t: "tlb s = Some t" "i < length t" "t ! i = e" "s' = s\<lparr>tlb := Some (t[i := e'])\<rparr>"
      by (auto simp: get_entry_def set_entry_def aset_def aget_def split: option.splits if_splits)
    then show ?thesis by (simp add: find_entry_def tlb_search_cong [OF tlb_eq [of t i]])
  next
    case (PageEntry t i)
    with assms(2,3) have t: "i < length (pageTables s t)" "pageTables s t ! i = e"
      "s' = s\<lparr>pageTables := (pageTables s)(t := (pageTables s t)[i := e'])\<rparr>"
      by (auto simp: get_entry_def set_entry_def aset_def aget_def split: if_splits)
    then have "aget ((pageTables s t)[i := e']) j =
        map_sum id (\<lambda>x. if j = int i then e' else x) (aget (pageTables s t) j)" for j
      by (auto simp: aget_def nth_list_update)
    with t show ?thesis
      using assms(4) by (auto simp: find_entry_def aget_def nth_list_update split: option.splits)
  qed
qed

lemma set_entry_frame:
  assumes "set_entry p e s = Inr s'"
  shows "mainMemory s' = mainMemory s" "registers s' = registers s" "kern s' = kern s"
  using assms by (cases p; auto simp: set_entry_def aset_def split: option.splits if_splits)+

lemma set_entry_memory:
  "set_entry p e (s\<lparr>mainMemory := m\<rparr>) = map_sum id (\<lambda>s. s\<lparr>mainMemory := m\<rparr>) (set_entry p e s)"
  "get_entry p (s\<lparr>mainMemory := m\<rparr>) = get_entry p s" "find_entry vpn (s\<lparr>mainMemory := m\<rparr>) = find_entry vpn s"
  "mmu_wf (s\<lparr>mainMemory := m\<rparr>) = mmu_wf s"
  by (auto simp: set_entry_def get_entry_def find_entry_def mmu_wf_def aset_def
      split: option.splits entry_ptr.splits)

text \<open>After a translation for writing, the same address translates for reading to the same place.\<close>

lemma Translate_again:
  assumes wf: "mmu_wf s" and sz: "sz \<in> {1, 2, 4}"
    and tr: "Translate direct_frame va sz True s = Inr (Phys a, s1)"
  shows "\<exists>s2. Translate direct_frame va sz False (s1\<lparr>mainMemory := m\<rparr>) = Inr (Phys a, s2) \<and> mainMemory s2 = m"
proof -
  from tr obtain p e where 1: "\<not> misaligned va sz" "find_entry (page_of va) s = Inr (Inr p)"
    "get_entry p s = Inr e" "(word_of_int (physicalPage e) :: 32 word) < 32"
    "set_entry p (touch True e) s = Inr s1" "a = word_of_int (physicalPage e) * 128 + va mod 128"
    by (cases rule: Translate_cases [OF wf sz, of va True]) auto
  note keep = set_entry_keeps [OF wf 1(3,5)]
  let ?s = "s1\<lparr>mainMemory := m\<rparr>"
  have wf': "mmu_wf ?s" and f: "find_entry (page_of va) ?s = Inr (Inr p)" and g: "get_entry p ?s = Inr (touch True e)"
    using keep 1(2) by (simp_all add: set_entry_memory)
  from wf' sz show ?thesis
    by (rule Translate_cases [of ?s sz va False]) (use 1 f g in \<open>auto dest: set_entry_frame\<close>)
qed

text \<open>The value a load of \<open>sz\<close> bytes returns after a store of \<open>sz\<close> bytes of \<open>v\<close>.\<close>

definition stored_value :: "int \<Rightarrow> 32 word \<Rightarrow> 32 word" where
  "stored_value sz v =
     (if sz = 1 then scast (ucast v :: 8 word) else if sz = 2 then ucast (ucast v :: 16 word) else v)"

definition store_bytes :: "int \<Rightarrow> 32 word \<Rightarrow> 8 word list" where
  "store_bytes sz v =
     (if sz = 1 then [ucast v] else if sz = 2 then bytes_le 2 (ucast v :: 16 word) else bytes_le 4 v)"

lemma ucast_masks: "ucast (v AND 0xff) = (ucast v :: 8 word)" "ucast (v AND 0xffff) = (ucast v :: 16 word)"
  for v :: "32 word"
proof -
  have "(0xff :: 32 word) = mask 8" "(0xffff :: 32 word) = mask 16" by (simp_all add: mask_eq_exp_minus_1)
  then show "ucast (v AND 0xff) = (ucast v :: 8 word)" "ucast (v AND 0xffff) = (ucast v :: 16 word)"
    by (auto simp: bit_eq_iff bit_simps)
qed

lemma WriteMem_ok:
  assumes "mmu_wf s" and sz: "sz \<in> {1, 2, 4}" and "WriteMem direct_frame EH va sz v s = Inr (True, s')"
  obtains a s1 where "Translate direct_frame va sz True s = Inr (Phys a, s1)"
    "s' = s1\<lparr>mainMemory := mem_put (mainMemory s) (unat a) (store_bytes sz v)\<rparr>"
    "length (store_bytes sz v) = nat sz"
proof -
  from assms(3) obtain r s1 where "Translate direct_frame va sz True s = Inr (r, s1)"
    by (auto simp: WriteMem_def rbind_eq_Inr_iff)
  with assms(3) obtain a where tr: "Translate direct_frame va sz True s = Inr (Phys a, s1)"
    by (cases r) (auto simp: WriteMem_def rbind_eq_Inr_iff)
  then have "mainMemory s1 = mainMemory s"
    by (cases rule: Translate_cases [OF assms(1) sz, of va True]) (auto dest: set_entry_frame)
  with tr assms(3) sz show thesis
    by (intro that [of a s1])
      (auto simp: WriteMem_def store_bytes_def host_bytes_WordToMachine host_bytes_ShortToMachine ucast_masks)
qed

lemma ReadMem_bytes:
  assumes "Translate fr va sz False s = Inr (Phys a, s2)" and "sz \<in> {1, 2, 4}"
    and "mem_bytes (mainMemory s2) (unat a) (nat sz) = store_bytes sz v"
  shows "ReadMem fr EH va sz s = Inr (Some (stored_value sz v), s2)"
proof -
  have "mainMemory s2 (unat a) = ucast v" if "sz = 1"
    using that assms(3) by (simp add: mem_bytes_def store_bytes_def)
  with assms show ?thesis
    by (auto simp: ReadMem_def Let_def WordToHost_host_word ShortToHost_host_word store_bytes_def
        stored_value_def word_le_bytes_le short_le_bytes_le)
qed

text \<open>A store changes bytes of one writable frame only.\<close>

lemma WriteMem_memory:
  assumes "mmu_wf s" and "sz \<in> {1, 2, 4}"
    and "WriteMem direct_frame EH va sz v s = Inr (True, s')"
  shows "\<exists>p e. find_entry (page_of va) s = Inr (Inr p) \<and> get_entry p s = Inr e \<and> valid e \<and> \<not> readOnly e \<and>
    (\<forall>b. int (b div 128) \<noteq> physicalPage e mod 2 ^ 32 \<longrightarrow> mainMemory s' b = mainMemory s b)"
proof -
  from WriteMem_ok [OF assms] obtain a s1 where
    tr: "Translate direct_frame va sz True s = Inr (Phys a, s1)" and
    s': "s' = s1\<lparr>mainMemory := mem_put (mainMemory s) (unat a) (store_bytes sz v)\<rparr>" and
    len: "length (store_bytes sz v) = nat sz" .
  from tr obtain p e where 1: "\<not> misaligned va sz" "find_entry (page_of va) s = Inr (Inr p)"
    "get_entry p s = Inr e" "valid e" "\<not> readOnly e" "(word_of_int (physicalPage e) :: 32 word) < 32"
    "a = word_of_int (physicalPage e) * 128 + va mod 128"
    by (cases rule: Translate_cases [OF assms(1,2), of va True]) auto
  let ?pf = "unat (word_of_int (physicalPage e) :: 32 word)"
  have a: "unat a = ?pf * 128 + unat va mod 128" unfolding 1(7) by (rule phys_addr(1) [OF 1(6)])
  have "mainMemory s' b = mainMemory s b" if "b div 128 \<noteq> ?pf" for b
  proof -
    have "b < ?pf * 128 \<or> ?pf * 128 + 128 \<le> b" using that by (auto simp: not_less)
    with aligned_in_page [OF assms(2) 1(1)] a
    show ?thesis by (auto simp: s' len intro!: mem_put_other)
  qed
  moreover have "int ?pf = physicalPage e mod 2 ^ 32" by (simp add: uint_word_of_int)
  ultimately show ?thesis using 1 by (metis of_nat_eq_iff)
qed

subsection \<open>Properties\<close>


text \<open>A machine with a page table of two entries: page 0 in frame 3, page 1 read-only in frame 5.\<close>

definition sample_hw :: "unit hw" where
  "sample_hw =
     \<lparr>registers = (\<lambda>_. 0), mainMemory = (\<lambda>_. 0), tlb = None, pageTable = Some 0,
      pageTables = (\<lambda>t. if t = 0 then
        [\<lparr>virtualPage = 0, physicalPage = 3, valid = True, readOnly = False, use = False, dirty = False\<rparr>,
         \<lparr>virtualPage = 1, physicalPage = 5, valid = True, readOnly = True, use = False, dirty = False\<rparr>]
        else []),
      pageTableSize = 2, singleStep = False, level = IntOn, pending = [], inHandler = False,
      yieldOnReturn = False, status = UserMode, stats = new_Statistics, kern = ()\<rparr>"

lemma sample_hw_wf: "mmu_wf sample_hw"
  by (simp add: mmu_wf_def sample_hw_def)

lemma sample_store: "\<exists>s'. WriteMem direct_frame (\<lambda>_ s. Inr s) 6 2 0x1ABCD sample_hw = Inr (True, s')"
  by (simp add: WriteMem_def Translate_def find_entry_def get_entry_def set_entry_def direct_frame_def
      sample_hw_def Let_def)


text \<open>
  A load of 1, 2 or 4 bytes right after a store of as many bytes to the same virtual address
  returns what was stored (cut to the size, and sign-extended for a byte), without a trap.
\<close>

lemma ReadMem_after_WriteMem:
  assumes "mmu_wf s" and "sz \<in> {1, 2, 4}"
    and "WriteMem direct_frame EH va sz v s = Inr (True, s')"
  shows "\<exists>s''. ReadMem direct_frame EH va sz s' = Inr (Some (stored_value sz v), s'') \<and>
    mainMemory s'' = mainMemory s'"
proof -
  from WriteMem_ok [OF assms] obtain a s1 where
    tr: "Translate direct_frame va sz True s = Inr (Phys a, s1)" and
    s': "s' = s1\<lparr>mainMemory := mem_put (mainMemory s) (unat a) (store_bytes sz v)\<rparr>" and
    len: "length (store_bytes sz v) = nat sz" .
  from Translate_again [OF assms(1,2) tr] s' obtain s2 where
    "Translate direct_frame va sz False s' = Inr (Phys a, s2)" "mainMemory s2 = mainMemory s'"
    by fastforce
  moreover have "mem_bytes (mainMemory s') (unat a) (nat sz) = store_bytes sz v"
    using mem_bytes_put [of "mainMemory s" "unat a" "store_bytes sz v"] by (simp add: s' len)
  ultimately show ?thesis using ReadMem_bytes [of direct_frame va sz s' a s2 v EH] assms(2) by auto
qed



end
