(* ===== verification/Mips_Decode.thy ===== *)
theory Mips_Decode
  imports Translation
begin

text \<open>
  Instruction decoding of the CPU simulator: the tables of \<^verbatim>\<open>machine/mipssim.h\<close> and
  \<^verbatim>\<open>Instruction::Decode\<close> of \<^verbatim>\<open>machine/mipssim.cc\<close>. The lemmas show that decoding gives back the
  fields an instruction was encoded from, in each of the three formats.
\<close>

unbundle bit_operations_syntax

subsection \<open>Operation codes and tables\<close>

datatype opcode =
    OP_ADD | OP_ADDI | OP_ADDIU | OP_ADDU | OP_AND | OP_ANDI | OP_BEQ
  | OP_BGEZ | OP_BGEZAL | OP_BGTZ | OP_BLEZ | OP_BLTZ | OP_BLTZAL | OP_BNE
  | OP_DIV | OP_DIVU | OP_J | OP_JAL | OP_JALR | OP_JR | OP_LB
  | OP_LBU | OP_LH | OP_LHU | OP_LUI | OP_LW | OP_LWL | OP_LWR
  | OP_MFHI | OP_MFLO | OP_MTHI | OP_MTLO | OP_MULT | OP_MULTU | OP_NOR
  | OP_OR | OP_ORI | OP_RFE | OP_SB | OP_SH | OP_SLL | OP_SLLV
  | OP_SLT | OP_SLTI | OP_SLTIU | OP_SLTU | OP_SRA | OP_SRAV | OP_SRL
  | OP_SRLV | OP_SUB | OP_SUBU | OP_SW | OP_SWL | OP_SWR | OP_XOR
  | OP_XORI | OP_SYSCALL | OP_UNIMP | OP_RES
  | SPECIAL | BCOND

datatype op_format = IFMT | JFMT | RFMT

definition opTable :: "(opcode \<times> op_format) list" where
  "opTable =
     [(SPECIAL, RFMT), (BCOND, IFMT), (OP_J, JFMT), (OP_JAL, JFMT),
      (OP_BEQ, IFMT), (OP_BNE, IFMT), (OP_BLEZ, IFMT), (OP_BGTZ, IFMT),
      (OP_ADDI, IFMT), (OP_ADDIU, IFMT), (OP_SLTI, IFMT), (OP_SLTIU, IFMT),
      (OP_ANDI, IFMT), (OP_ORI, IFMT), (OP_XORI, IFMT), (OP_LUI, IFMT),
      (OP_UNIMP, IFMT), (OP_UNIMP, IFMT), (OP_UNIMP, IFMT), (OP_UNIMP, IFMT),
      (OP_RES, IFMT), (OP_RES, IFMT), (OP_RES, IFMT), (OP_RES, IFMT),
      (OP_RES, IFMT), (OP_RES, IFMT), (OP_RES, IFMT), (OP_RES, IFMT),
      (OP_RES, IFMT), (OP_RES, IFMT), (OP_RES, IFMT), (OP_RES, IFMT),
      (OP_LB, IFMT), (OP_LH, IFMT), (OP_LWL, IFMT), (OP_LW, IFMT),
      (OP_LBU, IFMT), (OP_LHU, IFMT), (OP_LWR, IFMT), (OP_RES, IFMT),
      (OP_SB, IFMT), (OP_SH, IFMT), (OP_SWL, IFMT), (OP_SW, IFMT),
      (OP_RES, IFMT), (OP_RES, IFMT), (OP_SWR, IFMT), (OP_RES, IFMT),
      (OP_UNIMP, IFMT), (OP_UNIMP, IFMT), (OP_UNIMP, IFMT), (OP_UNIMP, IFMT),
      (OP_RES, IFMT), (OP_RES, IFMT), (OP_RES, IFMT), (OP_RES, IFMT),
      (OP_UNIMP, IFMT), (OP_UNIMP, IFMT), (OP_UNIMP, IFMT), (OP_UNIMP, IFMT),
      (OP_RES, IFMT), (OP_RES, IFMT), (OP_RES, IFMT), (OP_RES, IFMT)]"

definition specialTable :: "opcode list" where
  "specialTable =
     [OP_SLL, OP_RES, OP_SRL, OP_SRA, OP_SLLV, OP_RES, OP_SRLV, OP_SRAV,
      OP_JR, OP_JALR, OP_RES, OP_RES, OP_SYSCALL, OP_UNIMP, OP_RES, OP_RES,
      OP_MFHI, OP_MTHI, OP_MFLO, OP_MTLO, OP_RES, OP_RES, OP_RES, OP_RES,
      OP_MULT, OP_MULTU, OP_DIV, OP_DIVU, OP_RES, OP_RES, OP_RES, OP_RES,
      OP_ADD, OP_ADDU, OP_SUB, OP_SUBU, OP_AND, OP_OR, OP_XOR, OP_NOR,
      OP_RES, OP_RES, OP_SLT, OP_SLTU, OP_RES, OP_RES, OP_RES, OP_RES,
      OP_RES, OP_RES, OP_RES, OP_RES, OP_RES, OP_RES, OP_RES, OP_RES,
      OP_RES, OP_RES, OP_RES, OP_RES, OP_RES, OP_RES, OP_RES, OP_RES]"

subsection \<open>Decoding\<close>

record Instruction =
  ivalue :: "32 word"
  opCode :: opcode
  rs :: nat
  rt :: nat
  rd :: nat
  extra :: "32 word"

definition Decode :: "32 word \<Rightarrow> Instruction" where
  "Decode v =
     (let rs = unat (drop_bit 21 v AND 0x1f);
          rt = unat (drop_bit 16 v AND 0x1f);
          rd = unat (drop_bit 11 v AND 0x1f);
          (op, fmt) = opTable ! unat (drop_bit 26 v AND 0x3f);
          extra =
            (if fmt = IFMT
             then let extra = v AND 0xffff in
                  if extra AND 0x8000 \<noteq> 0 then extra OR 0xffff0000 else extra
             else if fmt = RFMT then drop_bit 6 v AND 0x1f
             else v AND 0x3ffffff);
          op =
            (if op = SPECIAL then specialTable ! unat (v AND 0x3f)
             else if op = BCOND
             then let i = v AND 0x1f0000 in
                  if i = 0 then OP_BLTZ
                  else if i = 0x10000 then OP_BGEZ
                  else if i = 0x100000 then OP_BLTZAL
                  else if i = 0x110000 then OP_BGEZAL
                  else OP_UNIMP
             else op)
      in \<lparr>ivalue = v, opCode = op, rs = rs, rt = rt, rd = rd, extra = extra\<rparr>)"

subsection \<open>Instruction formats\<close>

text \<open>The three layouts of an instruction word, with the fields at their widths.\<close>

definition encode_R :: "6 word \<Rightarrow> 5 word \<Rightarrow> 5 word \<Rightarrow> 5 word \<Rightarrow> 5 word \<Rightarrow> 6 word \<Rightarrow> 32 word" where
  "encode_R op s t d sh f =
     push_bit 26 (ucast op) OR push_bit 21 (ucast s) OR push_bit 16 (ucast t) OR
     push_bit 11 (ucast d) OR push_bit 6 (ucast sh) OR ucast f"

definition encode_I :: "6 word \<Rightarrow> 5 word \<Rightarrow> 5 word \<Rightarrow> 16 word \<Rightarrow> 32 word" where
  "encode_I op s t imm =
     push_bit 26 (ucast op) OR push_bit 21 (ucast s) OR push_bit 16 (ucast t) OR ucast imm"

definition encode_J :: "6 word \<Rightarrow> 26 word \<Rightarrow> 32 word" where
  "encode_J op target = push_bit 26 (ucast op) OR ucast target"

lemma field_masks:
  "(0x1f :: 32 word) = mask 5" "(0x3f :: 32 word) = mask 6" "(0xffff :: 32 word) = mask 16"
  "(0x3ffffff :: 32 word) = mask 26" "(0xffff0000 :: 32 word) = push_bit 16 (mask 16)"
  "(0x8000 :: 32 word) = push_bit 15 1"
  by (simp_all add: mask_eq_exp_minus_1 push_bit_eq_mult)

lemma fields_R:
  "drop_bit 26 (encode_R op s t d sh f) AND 0x3f = ucast op"
  "drop_bit 21 (encode_R op s t d sh f) AND 0x1f = ucast s"
  "drop_bit 16 (encode_R op s t d sh f) AND 0x1f = ucast t"
  "drop_bit 11 (encode_R op s t d sh f) AND 0x1f = ucast d"
  "drop_bit 6 (encode_R op s t d sh f) AND 0x1f = ucast sh"
  "encode_R op s t d sh f AND 0x3f = ucast f"
  unfolding encode_R_def field_masks
  by (rule bit_word_eqI; auto simp: bit_simps dest: bit_imp_le_length)+

lemma fields_I:
  "drop_bit 26 (encode_I op s t imm) AND 0x3f = ucast op"
  "drop_bit 21 (encode_I op s t imm) AND 0x1f = ucast s"
  "drop_bit 16 (encode_I op s t imm) AND 0x1f = ucast t"
  "encode_I op s t imm AND 0xffff = ucast imm"
  unfolding encode_I_def field_masks
  by (rule bit_word_eqI; auto simp: bit_simps dest: bit_imp_le_length)+

lemma fields_J:
  "drop_bit 26 (encode_J op target) AND 0x3f = ucast op"
  "encode_J op target AND 0x3ffffff = ucast target"
  unfolding encode_J_def field_masks
  by (rule bit_word_eqI; auto simp: bit_simps dest: bit_imp_le_length)+

lemma sign_extend_16:
  "(let x = ucast imm in if x AND 0x8000 \<noteq> 0 then x OR 0xffff0000 else x) = (scast imm :: 32 word)"
  for imm :: "16 word"
proof -
  have sign: "(ucast imm :: 32 word) AND 0x8000 \<noteq> 0 \<longleftrightarrow> bit imm 15"
    using and_exp_eq_0_iff_not_bit [of "ucast imm :: 32 word" 15] by (simp add: bit_simps)
  show ?thesis
    unfolding Let_def sign field_masks(5)
  proof (rule bit_word_eqI)
    fix n :: nat assume n: "n < LENGTH(32)"
    then consider "n < 15" | "n = 15" | "15 < n" by linarith
    then show "bit (if bit imm 15 then ucast imm OR push_bit 16 (mask 16) else ucast imm :: 32 word) n =
        bit (scast imm :: 32 word) n"
      using n by cases (auto simp: bit_simps min_def dest: bit_imp_le_length)
  qed
qed

lemma Decode_fields:
  "rs (Decode v) = unat (drop_bit 21 v AND 0x1f)"
  "rt (Decode v) = unat (drop_bit 16 v AND 0x1f)"
  "rd (Decode v) = unat (drop_bit 11 v AND 0x1f)"
  "ivalue (Decode v) = v"
  by (simp_all add: Decode_def Let_def split: prod.splits)

lemma Decode_registers: "rs (Decode v) < 32" "rt (Decode v) < 32" "rd (Decode v) < 32"
proof -
  have "unat (w AND 0x1f) < 32" for w :: "32 word"
    unfolding field_masks by (simp add: take_bit_eq_mod unat_mod flip: take_bit_eq_mask)
  then show "rs (Decode v) < 32" "rt (Decode v) < 32" "rd (Decode v) < 32"
    by (simp_all add: Decode_fields)
qed

lemma unat_field:
  "unat (ucast (w6 :: 6 word) :: 32 word) = unat w6" "unat (ucast (w5 :: 5 word) :: 32 word) = unat w5"
  using unsigned_less [of w6, where 'a = nat] unsigned_less [of w5, where 'a = nat] by (simp_all add: unsigned_ucast_eq take_bit_nat_eq_self_iff)

text \<open>Only entry 0 of the table is in register format and leads to the second table.\<close>

lemma opTable_formats:
  assumes "i < 64"
  shows "(snd (opTable ! i) = RFMT \<longleftrightarrow> i = 0) \<and> (fst (opTable ! i) = SPECIAL \<longleftrightarrow> i = 0) \<and>
    (fst (opTable ! i) = BCOND \<longleftrightarrow> i = 1)"
proof -
  have "\<forall>i \<in> set [0..<64]. (snd (opTable ! i) = RFMT \<longleftrightarrow> i = 0) \<and>
      (fst (opTable ! i) = SPECIAL \<longleftrightarrow> i = 0) \<and> (fst (opTable ! i) = BCOND \<longleftrightarrow> i = 1)"
    by code_simp
  with assms show ?thesis by simp
qed

lemma opTable_0: "opTable ! 0 = (SPECIAL, RFMT)" "opTable ! Suc 0 = (BCOND, IFMT)"
  by (simp_all add: opTable_def)

lemma bcond_field: "encode_I op s t imm AND 0x1f0000 = push_bit 16 (ucast t)"
proof -
  have m: "(0x1f0000 :: 32 word) = push_bit 16 (mask 5)" by (simp add: mask_eq_exp_minus_1 push_bit_eq_mult)
  show ?thesis
    unfolding m encode_I_def by (intro bit_word_eqI) (auto simp: bit_simps dest: bit_imp_le_length)
qed

lemma push_16_eq: "push_bit 16 (ucast t :: 32 word) = push_bit 16 (ucast t') \<longleftrightarrow> t = t'" for t t' :: "5 word"
proof
  assume "push_bit 16 (ucast t :: 32 word) = push_bit 16 (ucast t')"
  then have "drop_bit 16 (push_bit 16 (ucast t :: 32 word)) AND 0x1f = drop_bit 16 (push_bit 16 (ucast t')) AND 0x1f"
    by simp
  then have "ucast t = (ucast t' :: 32 word)"
    unfolding field_masks by (simp add: bit_eq_iff bit_simps) (fastforce dest: bit_imp_le_length)
  then show "t = t'" by (simp add: bit_eq_iff bit_simps)  
qed simp


definition bcond_op :: "5 word \<Rightarrow> opcode" where
  "bcond_op t = (if t = 0 then OP_BLTZ else if t = 1 then OP_BGEZ else if t = 16 then OP_BLTZAL
     else if t = 17 then OP_BGEZAL else OP_UNIMP)"

lemma bcond_decode:
  "(let i = encode_I op s t imm AND 0x1f0000 in
    if i = 0 then OP_BLTZ else if i = 0x10000 then OP_BGEZ else if i = 0x100000 then OP_BLTZAL
    else if i = 0x110000 then OP_BGEZAL else OP_UNIMP) = bcond_op t"
  using push_16_eq [of t 0] push_16_eq [of t 1] push_16_eq [of t 16] push_16_eq [of t 17]
  by (simp add: bcond_field bcond_op_def Let_def)

lemma op64: "unat op < 64" for op :: "6 word"
  using unsigned_less [of op, where 'a = nat] by simp

lemma Decode_register:
  "Decode (encode_R 0 s t d sh f) =
     \<lparr>ivalue = encode_R 0 s t d sh f, opCode = specialTable ! unat f,
      rs = unat s, rt = unat t, rd = unat d, extra = ucast sh\<rparr>"
  by (simp add: Decode_def fields_R unat_field opTable_0 Let_def)

lemma Decode_immediate:
  assumes fmt: "snd (opTable ! unat op) = IFMT"
  shows "let i = Decode (encode_I op s t imm) in
      opCode i = (if op = 1 then bcond_op t else fst (opTable ! unat op)) \<and>
      rs i = unat s \<and> rt i = unat t \<and> extra i = scast imm"
proof -
  obtain code where e: "opTable ! unat op = (code, IFMT)" using fmt by (metis prod.collapse)
  then have "code \<noteq> SPECIAL" "code = BCOND \<longleftrightarrow> op = 1"
    using opTable_formats [OF op64, of op] fmt word_unat_eq_iff [of op 1] by auto
  then show ?thesis
    by (cases "op = 1") (simp_all add: Decode_def fields_I unat_field e opTable_0 bcond_decode sign_extend_16)
qed

lemma Decode_jump:
  assumes fmt: "snd (opTable ! unat op) = JFMT"
  shows "let i = Decode (encode_J op target) in
      opCode i = fst (opTable ! unat op) \<and> extra i = ucast target"
proof -
  obtain code where e: "opTable ! unat op = (code, JFMT)" using fmt by (metis prod.collapse)
  then have "code \<noteq> SPECIAL" "code \<noteq> BCOND"
    using opTable_formats [OF op64, of op] opTable_0 fmt by auto
  then show ?thesis by (simp add: Decode_def fields_J unat_field e Let_def)
qed

subsection \<open>Properties\<close>

text \<open>
  C6: decoding recovers the fields an instruction word was built from. In register format the
  operation is the one the function field selects; in immediate format it is the one of the main
  table, or the branch the register field selects, and the 16-bit immediate is sign-extended; in
  jump format the 26-bit target is kept.
\<close>

theorem Decode_encode:
  "Decode (encode_R 0 s t d sh f) =
     \<lparr>ivalue = encode_R 0 s t d sh f, opCode = specialTable ! unat f,
      rs = unat s, rt = unat t, rd = unat d, extra = ucast sh\<rparr> \<and>
   (snd (opTable ! unat op) = IFMT \<longrightarrow>
     (let i = Decode (encode_I op s t imm) in
      opCode i = (if op = 1 then bcond_op t else fst (opTable ! unat op)) \<and>
      rs i = unat s \<and> rt i = unat t \<and> extra i = scast imm)) \<and>
   (snd (opTable ! unat op) = JFMT \<longrightarrow>
     (let i = Decode (encode_J op target) in
      opCode i = fst (opTable ! unat op) \<and> extra i = ucast target))"
  by (intro conjI impI Decode_register Decode_immediate Decode_jump)

theorem Decode_encode_witness:
  "let i = Decode (encode_I 35 4 8 0xFFFC) in
     opCode i = OP_LW \<and> rs i = 4 \<and> rt i = 8 \<and> extra i = - 4"
proof -
  have e: "opTable ! 35 = (OP_LW, IFMT)" by (simp add: opTable_def)
  show ?thesis
    using Decode_encode [where op = 35 and s = 4 and t = 8 and imm = "0xFFFC"] by (simp add: e Let_def)
qed

end
