(* ===== verification/Mips_Exec.thy ===== *)
theory Mips_Exec
  imports Mips_Decode Mips_Mult
begin

text \<open>
  Execution of one instruction, \<^verbatim>\<open>Machine::OneInstruction\<close> of \<^verbatim>\<open>machine/mipssim.cc\<close>. The \<^verbatim>\<open>switch\<close> is split
  in parts in the order of the source, each with the rest as its default case. A part ends by
  falling out of the switch with the next program counter and the delayed load (\<open>Fall\<close>), or by
  the \<^verbatim>\<open>return\<close> after an exception (\<open>Returned\<close>). As in theory \<open>Translation\<close>, \<open>fr\<close> finds the frame of
  an entry and \<open>EH\<close> is the kernel's exception handler.
\<close>

unbundle bit_operations_syntax

datatype flow = Fall "32 word" "32 word" "32 word" | Returned

type_synonym 'k exec = "'k hw \<Rightarrow> (flow \<times> 'k hw) result"
type_synonym 'k framefn = "entry_ptr \<Rightarrow> 'k hw \<Rightarrow> (32 word \<times> 'k hw) result"
type_synonym 'k handlerfn = "ExceptionType \<Rightarrow> 'k hw \<Rightarrow> 'k hw result"

definition SIGN_BIT :: "32 word" where
  "SIGN_BIT = 0x80000000"

definition IndexToAddr :: "32 word \<Rightarrow> 32 word" where
  "IndexToAddr x = push_bit 2 x"

definition setreg :: "nat \<Rightarrow> 32 word \<Rightarrow> 'k hw \<Rightarrow> 'k hw" where
  "setreg r v s = s\<lparr>registers := (registers s)(r := v)\<rparr>"

definition goto :: "32 word \<Rightarrow> 'k exec" where
  "goto pc s = Inr (Fall pc 0 0, s)"

definition trap :: "'k handlerfn \<Rightarrow> ExceptionType \<Rightarrow> 32 word \<Rightarrow> 'k exec" where
  "trap EH which badVAddr s = rbind (RaiseException EH which badVAddr s) (\<lambda>s. Inr (Returned, s))"

text \<open>A load or store that traps returns from the instruction.\<close>

definition load_or_return ::
    "'k framefn \<Rightarrow> 'k handlerfn \<Rightarrow> 32 word \<Rightarrow> int \<Rightarrow> (32 word \<Rightarrow> 'k exec) \<Rightarrow> 'k exec" where
  "load_or_return fr EH addr sz rest s =
     rbind (ReadMem fr EH addr sz s) (\<lambda>(v, s).
     case v of None \<Rightarrow> Inr (Returned, s) | Some x \<Rightarrow> rest x s)"

definition store_or_return ::
    "'k framefn \<Rightarrow> 'k handlerfn \<Rightarrow> 32 word \<Rightarrow> int \<Rightarrow> 32 word \<Rightarrow> 'k exec \<Rightarrow> 'k exec" where
  "store_or_return fr EH addr sz v rest s =
     rbind (WriteMem fr EH addr sz v s) (\<lambda>(ok, s). if ok then rest s else Inr (Returned, s))"

subsection \<open>The parts of the switch\<close>

definition exec_ADD_BNE :: "'k handlerfn \<Rightarrow> Instruction \<Rightarrow> 32 word \<Rightarrow> 'k exec \<Rightarrow> 'k exec" where
  "exec_ADD_BNE EH i pcAfter others s =
     (let R = registers s;
          branch = R NextPCReg + IndexToAddr (extra i) in
      case opCode i of
        OP_ADD \<Rightarrow>
          let sum = R (rs i) + R (rt i) in
          if (R (rs i) XOR R (rt i)) AND SIGN_BIT = 0 \<and> (R (rs i) XOR sum) AND SIGN_BIT \<noteq> 0
          then trap EH OverflowException 0 s
          else goto pcAfter (setreg (rd i) sum s)
      | OP_ADDI \<Rightarrow>
          let sum = R (rs i) + extra i in
          if (R (rs i) XOR extra i) AND SIGN_BIT = 0 \<and> (extra i XOR sum) AND SIGN_BIT \<noteq> 0
          then trap EH OverflowException 0 s
          else goto pcAfter (setreg (rt i) sum s)
      | OP_ADDIU \<Rightarrow> goto pcAfter (setreg (rt i) (R (rs i) + extra i) s)
      | OP_ADDU \<Rightarrow> goto pcAfter (setreg (rd i) (R (rs i) + R (rt i)) s)
      | OP_AND \<Rightarrow> goto pcAfter (setreg (rd i) (R (rs i) AND R (rt i)) s)
      | OP_ANDI \<Rightarrow> goto pcAfter (setreg (rt i) (R (rs i) AND (extra i AND 0xffff)) s)
      | OP_BEQ \<Rightarrow> goto (if R (rs i) = R (rt i) then branch else pcAfter) s
      | OP_BGEZAL \<Rightarrow>
          let s = setreg 31 (R NextPCReg + 4) s in
          goto (if registers s (rs i) AND SIGN_BIT = 0 then branch else pcAfter) s
      | OP_BGEZ \<Rightarrow> goto (if R (rs i) AND SIGN_BIT = 0 then branch else pcAfter) s
      | OP_BGTZ \<Rightarrow> goto (if 0 < sint (R (rs i)) then branch else pcAfter) s
      | OP_BLEZ \<Rightarrow> goto (if sint (R (rs i)) \<le> 0 then branch else pcAfter) s
      | OP_BLTZAL \<Rightarrow>
          let s = setreg 31 (R NextPCReg + 4) s in
          goto (if registers s (rs i) AND SIGN_BIT \<noteq> 0 then branch else pcAfter) s
      | OP_BLTZ \<Rightarrow> goto (if R (rs i) AND SIGN_BIT \<noteq> 0 then branch else pcAfter) s
      | OP_BNE \<Rightarrow> goto (if R (rs i) \<noteq> R (rt i) then branch else pcAfter) s
      | _ \<Rightarrow> others s)"

text \<open>
  The quotient of the most negative number by -1 does not fit an \<^verbatim>\<open>int\<close>: C leaves
  it undefined, and the division instruction of the host traps.
\<close>

definition exec_DIV_JR :: "Instruction \<Rightarrow> 32 word \<Rightarrow> 'k exec \<Rightarrow> 'k exec" where
  "exec_DIV_JR i pcAfter others s =
     (let R = registers s in
      case opCode i of
        OP_DIV \<Rightarrow>
          if R (rt i) = 0 then goto pcAfter (setreg HiReg 0 (setreg LoReg 0 s))
          else if sint (R (rs i)) = - (2 ^ 31) \<and> sint (R (rt i)) = - 1 then Inl DivideOverflow
          else
            let s = setreg LoReg (word_of_int (sint (R (rs i)) sdiv sint (R (rt i)))) s in
            goto pcAfter (setreg HiReg
              (word_of_int (sint (registers s (rs i)) smod sint (registers s (rt i)))) s)
      | OP_DIVU \<Rightarrow>
          if R (rt i) = 0 then goto pcAfter (setreg HiReg 0 (setreg LoReg 0 s))
          else goto pcAfter (setreg HiReg (R (rs i) mod R (rt i)) (setreg LoReg (R (rs i) div R (rt i)) s))
      | OP_JAL \<Rightarrow>
          goto ((pcAfter AND 0xf0000000) OR IndexToAddr (extra i)) (setreg 31 (R NextPCReg + 4) s)
      | OP_J \<Rightarrow> goto ((pcAfter AND 0xf0000000) OR IndexToAddr (extra i)) s
      | OP_JALR \<Rightarrow> let s = setreg (rd i) (R NextPCReg + 4) s in goto (registers s (rs i)) s
      | OP_JR \<Rightarrow> goto (R (rs i)) s
      | _ \<Rightarrow> others s)"

definition exec_LB_LW ::
    "'k framefn \<Rightarrow> 'k handlerfn \<Rightarrow> Instruction \<Rightarrow> 32 word \<Rightarrow> 'k exec \<Rightarrow> 'k exec" where
  "exec_LB_LW fr EH i pcAfter others s =
     (let tmp = registers s (rs i) + extra i in
      if opCode i = OP_LB \<or> opCode i = OP_LBU then
        load_or_return fr EH tmp 1 (\<lambda>v s.
          let v = (if v AND 0x80 \<noteq> 0 \<and> opCode i = OP_LB then v OR 0xffffff00 else v AND 0xff) in
          Inr (Fall pcAfter (of_nat (rt i)) v, s)) s
      else if opCode i = OP_LH \<or> opCode i = OP_LHU then
        if tmp AND 0x1 \<noteq> 0 then trap EH AddressErrorException tmp s
        else load_or_return fr EH tmp 2 (\<lambda>v s.
          let v = (if v AND 0x8000 \<noteq> 0 \<and> opCode i = OP_LH then v OR 0xffff0000 else v AND 0xffff) in
          Inr (Fall pcAfter (of_nat (rt i)) v, s)) s
      else if opCode i = OP_LUI then goto pcAfter (setreg (rt i) (push_bit 16 (extra i)) s)
      else if opCode i = OP_LW then
        if tmp AND 0x3 \<noteq> 0 then trap EH AddressErrorException tmp s
        else load_or_return fr EH tmp 4 (\<lambda>v s. Inr (Fall pcAfter (of_nat (rt i)) v, s)) s
      else others s)"

definition exec_LWL_LWR ::
    "'k framefn \<Rightarrow> 'k handlerfn \<Rightarrow> Instruction \<Rightarrow> 32 word \<Rightarrow> 'k exec \<Rightarrow> 'k exec" where
  "exec_LWL_LWR fr EH i pcAfter others s =
     (let tmp = registers s (rs i) + extra i in
      if opCode i = OP_LWL \<or> opCode i = OP_LWR then
        rbind (ASSERT (tmp AND 0x3 = 0)) (\<lambda>_.
        load_or_return fr EH tmp 4 (\<lambda>v s.
          let old = (if registers s LoadReg = of_nat (rt i) then registers s LoadValueReg
                     else registers s (rt i));
              k = tmp AND 0x3;
              new =
                (if opCode i = OP_LWL
                 then if k = 0 then v
                      else if k = 1 then (old AND 0xff) OR push_bit 8 v
                      else if k = 2 then (old AND 0xffff) OR push_bit 16 v
                      else (old AND 0xffffff) OR push_bit 24 v
                 else if k = 0 then (old AND 0xffffff00) OR (signed_drop_bit 24 v AND 0xff)
                      else if k = 1 then (old AND 0xffff0000) OR (signed_drop_bit 16 v AND 0xffff)
                      else if k = 2 then (old AND 0xff000000) OR (signed_drop_bit 8 v AND 0xffffff)
                      else v)
          in Inr (Fall pcAfter (of_nat (rt i)) new, s)) s)
      else others s)"

text \<open>The operation \<^verbatim>\<open>OP_OR\<close> reads \<^verbatim>\<open>rs\<close> twice in the source.\<close>

definition exec_MFHI_ORI :: "Instruction \<Rightarrow> 32 word \<Rightarrow> 'k exec \<Rightarrow> 'k exec" where
  "exec_MFHI_ORI i pcAfter others s =
     (let R = registers s in
      case opCode i of
        OP_MFHI \<Rightarrow> goto pcAfter (setreg (rd i) (R HiReg) s)
      | OP_MFLO \<Rightarrow> goto pcAfter (setreg (rd i) (R LoReg) s)
      | OP_MTHI \<Rightarrow> goto pcAfter (setreg HiReg (R (rs i)) s)
      | OP_MTLO \<Rightarrow> goto pcAfter (setreg LoReg (R (rs i)) s)
      | OP_MULT \<Rightarrow>
          (case Mult (R (rs i)) (R (rt i)) True of (hi, lo) \<Rightarrow>
           goto pcAfter (setreg LoReg lo (setreg HiReg hi s)))
      | OP_MULTU \<Rightarrow>
          (case Mult (R (rs i)) (R (rt i)) False of (hi, lo) \<Rightarrow>
           goto pcAfter (setreg LoReg lo (setreg HiReg hi s)))
      | OP_NOR \<Rightarrow> goto pcAfter (setreg (rd i) (NOT (R (rs i) OR R (rt i))) s)
      | OP_OR \<Rightarrow> goto pcAfter (setreg (rd i) (R (rs i) OR R (rs i)) s)
      | OP_ORI \<Rightarrow> goto pcAfter (setreg (rt i) (R (rs i) OR (extra i AND 0xffff)) s)
      | _ \<Rightarrow> others s)"

text \<open>
  Stores of a byte and a half word, shifts and comparisons. A left shift by the field
  \<^verbatim>\<open>extra\<close> is by at most 31; \<^verbatim>\<open>>>\<close> on an \<^verbatim>\<open>int\<close> is the arithmetic shift, also in \<^verbatim>\<open>OP_SRL\<close>
  and \<^verbatim>\<open>OP_SRLV\<close>, where the source copies the operand to the \<^verbatim>\<open>int\<close> variable \<^verbatim>\<open>tmp\<close>.
\<close>

definition exec_SB_SRLV ::
    "'k framefn \<Rightarrow> 'k handlerfn \<Rightarrow> Instruction \<Rightarrow> 32 word \<Rightarrow> 'k exec \<Rightarrow> 'k exec" where
  "exec_SB_SRLV fr EH i pcAfter others s =
     (let R = registers s;
          amount = unat (extra i);
          amountv = unat (R (rs i) AND 0x1f) in
      case opCode i of
        OP_SB \<Rightarrow> store_or_return fr EH (R (rs i) + extra i) 1 (R (rt i)) (goto pcAfter) s
      | OP_SH \<Rightarrow> store_or_return fr EH (R (rs i) + extra i) 2 (R (rt i)) (goto pcAfter) s
      | OP_SLL \<Rightarrow> goto pcAfter (setreg (rd i) (push_bit amount (R (rt i))) s)
      | OP_SLLV \<Rightarrow> goto pcAfter (setreg (rd i) (push_bit amountv (R (rt i))) s)
      | OP_SLT \<Rightarrow>
          goto pcAfter (setreg (rd i) (if sint (R (rs i)) < sint (R (rt i)) then 1 else 0) s)
      | OP_SLTI \<Rightarrow>
          goto pcAfter (setreg (rt i) (if sint (R (rs i)) < sint (extra i) then 1 else 0) s)
      | OP_SLTIU \<Rightarrow> goto pcAfter (setreg (rt i) (if R (rs i) < extra i then 1 else 0) s)
      | OP_SLTU \<Rightarrow> goto pcAfter (setreg (rd i) (if R (rs i) < R (rt i) then 1 else 0) s)
      | OP_SRA \<Rightarrow> goto pcAfter (setreg (rd i) (signed_drop_bit amount (R (rt i))) s)
      | OP_SRAV \<Rightarrow> goto pcAfter (setreg (rd i) (signed_drop_bit amountv (R (rt i))) s)
      | OP_SRL \<Rightarrow>
          let tmp = R (rt i) in goto pcAfter (setreg (rd i) (signed_drop_bit amount tmp) s)
      | OP_SRLV \<Rightarrow>
          let tmp = R (rt i) in goto pcAfter (setreg (rd i) (signed_drop_bit amountv tmp) s)
      | _ \<Rightarrow> others s)"

definition exec_SUB_SWR ::
    "'k framefn \<Rightarrow> 'k handlerfn \<Rightarrow> Instruction \<Rightarrow> 32 word \<Rightarrow> 'k exec \<Rightarrow> 'k exec" where
  "exec_SUB_SWR fr EH i pcAfter others s =
     (let R = registers s;
          tmp = R (rs i) + extra i;
          k = tmp AND 0x3 in
      case opCode i of
        OP_SUB \<Rightarrow>
          let diff = R (rs i) - R (rt i) in
          if (R (rs i) XOR R (rt i)) AND SIGN_BIT \<noteq> 0 \<and> (R (rs i) XOR diff) AND SIGN_BIT \<noteq> 0
          then trap EH OverflowException 0 s
          else goto pcAfter (setreg (rd i) diff s)
      | OP_SUBU \<Rightarrow> goto pcAfter (setreg (rd i) (R (rs i) - R (rt i)) s)
      | OP_SW \<Rightarrow> store_or_return fr EH (R (rs i) + extra i) 4 (R (rt i)) (goto pcAfter) s
      | OP_SWL \<Rightarrow>
          rbind (ASSERT (k = 0)) (\<lambda>_.
          load_or_return fr EH (tmp AND NOT 0x3) 4 (\<lambda>v s.
            let x = registers s (rt i);
                v = (if k = 0 then x
                     else if k = 1 then (v AND 0xff000000) OR (signed_drop_bit 8 x AND 0xffffff)
                     else if k = 2 then (v AND 0xffff0000) OR (signed_drop_bit 16 x AND 0xffff)
                     else (v AND 0xffffff00) OR (signed_drop_bit 24 x AND 0xff)) in
            store_or_return fr EH (tmp AND NOT 0x3) 4 v (goto pcAfter) s) s)
      | OP_SWR \<Rightarrow>
          rbind (ASSERT (k = 0)) (\<lambda>_.
          load_or_return fr EH (tmp AND NOT 0x3) 4 (\<lambda>v s.
            let x = registers s (rt i);
                v = (if k = 0 then (v AND 0xffffff) OR push_bit 24 x
                     else if k = 1 then (v AND 0xffff) OR push_bit 16 x
                     else if k = 2 then (v AND 0xff) OR push_bit 8 x
                     else x) in
            store_or_return fr EH (tmp AND NOT 0x3) 4 v (goto pcAfter) s) s)
      | _ \<Rightarrow> others s)"

definition exec_SYSCALL_RES :: "'k handlerfn \<Rightarrow> Instruction \<Rightarrow> 32 word \<Rightarrow> 'k exec" where
  "exec_SYSCALL_RES EH i pcAfter s =
     (let R = registers s in
      case opCode i of
        OP_SYSCALL \<Rightarrow> trap EH SyscallException 0 s
      | OP_XOR \<Rightarrow> goto pcAfter (setreg (rd i) (R (rs i) XOR R (rt i)) s)
      | OP_XORI \<Rightarrow> goto pcAfter (setreg (rt i) (R (rs i) XOR (extra i AND 0xffff)) s)
      | OP_RES \<Rightarrow> trap EH IllegalInstrException 0 s
      | OP_UNIMP \<Rightarrow> trap EH IllegalInstrException 0 s
      | _ \<Rightarrow> Inl AssertFailed)"

definition execute :: "'k framefn \<Rightarrow> 'k handlerfn \<Rightarrow> Instruction \<Rightarrow> 32 word \<Rightarrow> 'k exec" where
  "execute fr EH i pcAfter =
     exec_ADD_BNE EH i pcAfter
    (exec_DIV_JR i pcAfter
    (exec_LB_LW fr EH i pcAfter
    (exec_LWL_LWR fr EH i pcAfter
    (exec_MFHI_ORI i pcAfter
    (exec_SB_SRLV fr EH i pcAfter
    (exec_SUB_SWR fr EH i pcAfter
    (exec_SYSCALL_RES EH i pcAfter)))))))"

subsection \<open>One instruction\<close>

text \<open>The end of \<^verbatim>\<open>OneInstruction\<close>: the delayed load, then the program counters.\<close>

definition retire :: "32 word \<Rightarrow> 32 word \<Rightarrow> 32 word \<Rightarrow> 'k hw \<Rightarrow> 'k hw result" where
  "retire pcAfter nextLoadReg nextLoadValue s =
     rbind (DelayedLoad nextLoadReg nextLoadValue s) (\<lambda>s.
     let s = setreg PrevPCReg (registers s PCReg) s;
         s = setreg PCReg (registers s NextPCReg) s
     in Inr (setreg NextPCReg pcAfter s))"

definition OneInstruction :: "'k framefn \<Rightarrow> 'k handlerfn \<Rightarrow> 'k hw \<Rightarrow> 'k hw result" where
  "OneInstruction fr EH s =
     rbind (ReadMem fr EH (registers s PCReg) 4 s) (\<lambda>(raw, s).
     case raw of
       None \<Rightarrow> Inr s
     | Some v \<Rightarrow>
         let pcAfter = registers s NextPCReg + 4 in
         rbind (execute fr EH (Decode v) pcAfter s) (\<lambda>(fl, s).
         case fl of
           Returned \<Rightarrow> Inr s
         | Fall pcAfter nextLoadReg nextLoadValue \<Rightarrow> retire pcAfter nextLoadReg nextLoadValue s))"

subsection \<open>Invariants of execution\<close>

text \<open>
  What an instruction may do to the state between two traps: write the general registers, the
  multiply registers and memory. The locale lists what an invariant must satisfy for
  every instruction to keep it; \<open>J\<close> is its weaker form inside an instruction, before
  \<open>retire\<close>.
\<close>

definition target_reg :: "nat \<Rightarrow> bool" where
  "target_reg r \<longleftrightarrow> r < NumGPRegs \<or> r = HiReg \<or> r = LoReg"

definition flow_ok :: "('k hw \<Rightarrow> bool) \<Rightarrow> ('k hw \<Rightarrow> bool) \<Rightarrow> (flow \<times> 'k hw) result \<Rightarrow> bool" where
  "flow_ok I J r \<longleftrightarrow>
     (case r of
        Inl e \<Rightarrow> True
      | Inr (Returned, s) \<Rightarrow> I s
      | Inr (Fall pc ld v, s) \<Rightarrow> J s \<and> unat ld < NumGPRegs)"

lemma flow_ok_simps [simp]:
  "flow_ok I J (Inl e)" "flow_ok I J (Inr (Returned, s)) = I s"
  "flow_ok I J (Inr (Fall pc ld v, s)) = (J s \<and> unat ld < NumGPRegs)"
  "flow_ok I J (goto pc s) = J s"
  by (simp_all add: flow_ok_def goto_def NumGPRegs_def)

lemma flow_ok_rbind:
  "(\<And>x. m = Inr x \<Longrightarrow> flow_ok I J (f x)) \<Longrightarrow> flow_ok I J (rbind m f)"
  by (cases m) auto

definition valid_regs :: "Instruction \<Rightarrow> bool" where
  "valid_regs i \<longleftrightarrow> rs i < NumGPRegs \<and> rt i < NumGPRegs \<and> rd i < NumGPRegs"

lemma valid_regs_unat: "valid_regs i \<Longrightarrow> unat (of_nat (rt i) :: 32 word) < NumGPRegs"
  by (auto simp: valid_regs_def NumGPRegs_def unsigned_of_nat take_bit_eq_mod)

lemma target_regs:
  "valid_regs i \<Longrightarrow> target_reg (rd i)" "valid_regs i \<Longrightarrow> target_reg (rt i)" "target_reg HiReg" "target_reg LoReg"
  "target_reg 31"
  by (auto simp: valid_regs_def target_reg_def NumGPRegs_def)

locale cpu_invariant =
  fixes fr :: "'k framefn" and EH :: "'k handlerfn" and I J :: "'k hw \<Rightarrow> bool"
  assumes weaken: "I s \<Longrightarrow> J s"
    and setreg: "J s \<Longrightarrow> target_reg r \<Longrightarrow> J (setreg r x s)"
    and raise: "I s \<Longrightarrow> RaiseException EH w a s = Inr s' \<Longrightarrow> I s'"
    and readmem: "I s \<Longrightarrow> ReadMem fr EH a sz s = Inr (vo, s') \<Longrightarrow> I s'"
    and writemem: "I s \<Longrightarrow> WriteMem fr EH a sz x s = Inr (ok, s') \<Longrightarrow> I s'"
    and retire: "J s \<Longrightarrow> unat ld < NumGPRegs \<Longrightarrow> retire pc ld x s = Inr s' \<Longrightarrow> I s'"
begin

lemma trap_keeps: "I s \<Longrightarrow> flow_ok I J (trap EH w a s)"
  unfolding trap_def by (rule flow_ok_rbind) (simp add: raise)

lemma load_keeps:
  assumes "I s" and "\<And>x s. I s \<Longrightarrow> flow_ok I J (rest x s)"
  shows "flow_ok I J (load_or_return fr EH a sz rest s)"
  unfolding load_or_return_def
  by (rule flow_ok_rbind) (use assms in \<open>auto split: option.splits dest: readmem\<close>)

lemma store_keeps:
  assumes "I s" and "\<And>s. I s \<Longrightarrow> flow_ok I J (rest s)"
  shows "flow_ok I J (store_or_return fr EH a sz x rest s)"
  unfolding store_or_return_def
  by (rule flow_ok_rbind) (use assms in \<open>auto dest: writemem\<close>)

lemmas keep_intros = trap_keeps load_keeps store_keeps setreg weaken target_regs valid_regs_unat

lemma exec_ADD_BNE_keeps:
  assumes "valid_regs i" "I s" "flow_ok I J (others s)"
  shows "flow_ok I J (exec_ADD_BNE EH i pc others s)"
  using assms
  by (simp add: exec_ADD_BNE_def Let_def keep_intros split: opcode.split)

lemma exec_DIV_JR_keeps:
  assumes "valid_regs i" "I s" "flow_ok I J (others s)"
  shows "flow_ok I J (exec_DIV_JR i pc others s)"
  using assms
  by (simp add: exec_DIV_JR_def Let_def keep_intros split: opcode.split)

lemma exec_LB_LW_keeps:
  assumes "valid_regs i" "I s" "flow_ok I J (others s)"
  shows "flow_ok I J (exec_LB_LW fr EH i pc others s)"
  using assms
  by (simp add: exec_LB_LW_def Let_def keep_intros)

lemma exec_LWL_LWR_keeps:
  assumes "valid_regs i" "I s" "flow_ok I J (others s)"
  shows "flow_ok I J (exec_LWL_LWR fr EH i pc others s)"
  using assms
  by (auto simp add: exec_LWL_LWR_def Let_def keep_intros intro!: flow_ok_rbind)

lemma exec_MFHI_ORI_keeps:
  assumes "valid_regs i" "I s" "flow_ok I J (others s)"
  shows "flow_ok I J (exec_MFHI_ORI i pc others s)"
  using assms
  by (simp add: exec_MFHI_ORI_def Let_def keep_intros split: opcode.split prod.split)

lemma exec_SB_SRLV_keeps:
  assumes "valid_regs i" "I s" "flow_ok I J (others s)"
  shows "flow_ok I J (exec_SB_SRLV fr EH i pc others s)"
  using assms
  by (simp add: exec_SB_SRLV_def Let_def keep_intros split: opcode.split)

lemma exec_SUB_SWR_keeps:
  assumes "valid_regs i" "I s" "flow_ok I J (others s)"
  shows "flow_ok I J (exec_SUB_SWR fr EH i pc others s)"
  using assms
  by (simp add: exec_SUB_SWR_def Let_def keep_intros flow_ok_rbind split: opcode.split)

lemma exec_SYSCALL_RES_keeps:
  assumes "valid_regs i" "I s"
  shows "flow_ok I J (exec_SYSCALL_RES EH i pc s)"
  using assms
  by (simp add: exec_SYSCALL_RES_def Let_def keep_intros split: opcode.split)

lemma execute_keeps: "valid_regs i \<Longrightarrow> I s \<Longrightarrow> flow_ok I J (execute fr EH i pc s)"
  unfolding execute_def
  by (intro exec_ADD_BNE_keeps exec_DIV_JR_keeps exec_LB_LW_keeps exec_LWL_LWR_keeps
      exec_MFHI_ORI_keeps exec_SB_SRLV_keeps exec_SUB_SWR_keeps exec_SYSCALL_RES_keeps)

lemma OneInstruction_keeps:
  assumes "I s" and "OneInstruction fr EH s = Inr s'"
  shows "I s'"
proof -
  from assms(2) obtain raw s1 where r: "ReadMem fr EH (registers s PCReg) 4 s = Inr (raw, s1)"
    by (auto simp: OneInstruction_def rbind_eq_Inr_iff)
  with assms(1) have I1: "I s1" by (rule readmem)
  show ?thesis
  proof (cases raw)
    case None
    with assms(2) r I1 show ?thesis by (simp add: OneInstruction_def)
  next
    case (Some v)
    let ?x = "execute fr EH (Decode v) (registers s1 NextPCReg + 4) s1"
    from assms(2) r Some obtain fl s2 where x: "?x = Inr (fl, s2)"
      and rest: "(case fl of Returned \<Rightarrow> Inr s2 | Fall pc ld u \<Rightarrow> retire pc ld u s2) = Inr s'"
      by (auto simp: OneInstruction_def rbind_eq_Inr_iff)
    have "valid_regs (Decode v)" using Decode_registers by (simp add: valid_regs_def NumGPRegs_def)
    from execute_keeps [OF this I1, of "registers s1 NextPCReg + 4"] x rest show ?thesis
      by (cases fl) (auto intro: retire)
  qed
qed

end

subsection \<open>Register 0\<close>

definition regs_wf :: "'k hw \<Rightarrow> bool" where
  "regs_wf s \<longleftrightarrow> registers s 0 = 0 \<and> unat (registers s LoadReg) < NumGPRegs"

lemma Translate_registers:
  "rall (\<lambda>(r, s'). registers s' = registers s) (Translate direct_frame va sz w s)"
  by (auto simp: Translate_def direct_frame_def Let_def split: sum.split intro!: rallI dest: set_entry_frame)

lemma RaiseException_regs_wf:
  assumes EH: "\<And>w s. regs_wf s \<Longrightarrow> rall regs_wf (EH w s)"
    and "unat (registers s LoadReg) < NumGPRegs"
  shows "rall regs_wf (RaiseException EH w a s)"
proof -
  have "rall (\<lambda>s. regs_wf (s\<lparr>status := UserMode\<rparr>)) (EH w s)" if "regs_wf s" for s
    by (rule rall_mono [OF EH [OF that]]) (simp add: regs_wf_def)
  moreover have "rall (\<lambda>s. regs_wf (s\<lparr>status := SystemMode\<rparr>))
      (DelayedLoad 0 0 (s\<lparr>registers := (registers s)(BadVAddrReg := a)\<rparr>))"
    using assms(2) by (auto simp: DelayedLoad_def regs_wf_def reg_defs Let_def)
  ultimately show ?thesis unfolding RaiseException_def by (auto elim: rall_mono)
qed

lemma retire_regs_wf:
  "unat (registers s LoadReg) < NumGPRegs \<Longrightarrow> unat ld < NumGPRegs \<Longrightarrow> rall regs_wf (retire pc ld x s)"
  by (auto simp: retire_def DelayedLoad_def regs_wf_def setreg_def reg_defs Let_def)

lemma memory_regs_wf:
  assumes "\<And>w s. regs_wf s \<Longrightarrow> rall regs_wf (EH w s)" and "regs_wf s"
  shows "rall (\<lambda>(v, s'). regs_wf s') (ReadMem direct_frame EH a sz s)"
    and "rall (\<lambda>(ok, s'). regs_wf s') (WriteMem direct_frame EH a sz x s)"
proof -
  have tr: "rall (\<lambda>(r, s'). regs_wf s') (Translate direct_frame a sz w s)" for w
    by (rule rall_mono [OF Translate_registers]) (use assms(2) in \<open>auto simp: regs_wf_def\<close>)
  have ex: "rall regs_wf (RaiseException EH w a s)" if "regs_wf s" for w s
    by (rule RaiseException_regs_wf) (use assms(1) that in \<open>auto simp: regs_wf_def\<close>)
  show "rall (\<lambda>(v, s'). regs_wf s') (ReadMem direct_frame EH a sz s)"
    unfolding ReadMem_def
    by (auto simp: Let_def ex split: translation.split intro!: rall_mono [OF tr [of False]])
  have mem: "regs_wf (s\<lparr>mainMemory := m\<rparr>) = regs_wf s" for s :: "'a hw" and m by (simp add: regs_wf_def)
  show "rall (\<lambda>(ok, s'). regs_wf s') (WriteMem direct_frame EH a sz x s)"
    unfolding WriteMem_def
    by (auto simp: Let_def ex mem split: translation.split intro!: rall_mono [OF tr [of True]])
qed

lemma cpu_regs:
  assumes "\<And>w s. regs_wf s \<Longrightarrow> rall regs_wf (EH w s)"
  shows "cpu_invariant direct_frame EH regs_wf (\<lambda>s. unat (registers s LoadReg) < NumGPRegs)"
proof
  show "unat (registers (setreg r x s) LoadReg) < NumGPRegs"
    if "unat (registers s LoadReg) < NumGPRegs" "target_reg r" for s :: "'a hw" and r x
    using that by (auto simp: setreg_def target_reg_def reg_defs)
  show "regs_wf s'" if "regs_wf s" "RaiseException EH w a s = Inr s'" for s w a s'
    using rallD [OF RaiseException_regs_wf [OF assms] that(2)] that(1) by (simp add: regs_wf_def)
  show "regs_wf s'" if "regs_wf s" "ReadMem direct_frame EH a sz s = Inr (vo, s')" for s a sz vo s'
    using rallD [OF memory_regs_wf(1) [OF assms that(1)] that(2)] by simp
  show "regs_wf s'" if "regs_wf s" "WriteMem direct_frame EH a sz x s = Inr (ok, s')" for s a sz x ok s'
    using rallD [OF memory_regs_wf(2) [OF assms that(1)] that(2)] by simp
  show "regs_wf s'" if "unat (registers s LoadReg) < NumGPRegs" "unat ld < NumGPRegs" "retire pc ld x s = Inr s'"
    for s :: "'a hw" and ld pc x s'
    using retire_regs_wf [OF that(1,2), of pc x] that(3) by simp
qed (simp add: regs_wf_def)

subsection \<open>Which memory an instruction can change\<close>

definition writable_frames :: "'k hw \<Rightarrow> int set" where
  "writable_frames s = {physicalPage e mod 2 ^ 32 | vpn p e.
     find_entry vpn s = Inr (Inr p) \<and> get_entry p s = Inr e \<and> \<not> readOnly e}"

definition same_mmu :: "'k hw \<Rightarrow> 'k hw \<Rightarrow> bool" where
  "same_mmu s s' \<longleftrightarrow> tlb s' = tlb s \<and> pageTable s' = pageTable s \<and> pageTables s' = pageTables s \<and>
     pageTableSize s' = pageTableSize s"

lemma same_mmu_cong:
  assumes "same_mmu s s'"
  shows "mmu_wf s' = mmu_wf s" "writable_frames s' = writable_frames s"
proof -
  have "find_entry vpn s' = find_entry vpn s" "get_entry p s' = get_entry p s" for vpn p
    using assms by (simp_all add: same_mmu_def find_entry_def get_entry_def split: option.split entry_ptr.split)
  then show "writable_frames s' = writable_frames s" by (simp add: writable_frames_def)
  show "mmu_wf s' = mmu_wf s" using assms by (simp add: same_mmu_def mmu_wf_def split: option.split)
qed

lemma get_entry_other:
  assumes "set_entry p e' s = Inr s'" and "q \<noteq> p"
  shows "get_entry q s' = get_entry q s"
  using assms
  by (cases p; cases q)
    (auto simp: set_entry_def get_entry_def aset_def aget_def nth_list_update split: option.splits if_splits)

lemma writable_frames_touch:
  assumes "mmu_wf s" and "get_entry p s = Inr e" and "set_entry p (touch w e) s = Inr s'"
  shows "mmu_wf s' \<and> writable_frames s' = writable_frames s \<and> mainMemory s' = mainMemory s"
proof -
  note keep = set_entry_keeps [OF assms]
  have "(\<exists>e. get_entry q s' = Inr e \<and> \<not> readOnly e \<and> f = physicalPage e mod 2 ^ 32) \<longleftrightarrow>
      (\<exists>e. get_entry q s = Inr e \<and> \<not> readOnly e \<and> f = physicalPage e mod 2 ^ 32)" for q f
    using keep(3) assms(2) get_entry_other [OF assms(3)] by (cases "q = p") auto
  moreover have "find_entry vpn s' = find_entry vpn s" for vpn using keep(2) by simp
  ultimately have "writable_frames s' = writable_frames s"
    unfolding writable_frames_def by (simp add: ex_simps [symmetric]) blast
  with keep(1) set_entry_frame(1) [OF assms(3)] show ?thesis by simp
qed

text \<open>
  The instruction by itself: the exception handler of the kernel is replaced by one that does
  nothing, so that only the effects of the processor remain.
\<close>

definition no_kernel :: "'k handlerfn" where
  "no_kernel w s = Inr s"

definition confined :: "(nat \<Rightarrow> 8 word) \<Rightarrow> int set \<Rightarrow> 'k hw \<Rightarrow> bool" where
  "confined m W s \<longleftrightarrow> mmu_wf s \<and> writable_frames s = W \<and>
     (\<forall>b. int (b div 128) \<notin> W \<longrightarrow> mainMemory s b = m b)"

lemma confined_cong: "confined m W s \<Longrightarrow> same_mmu s s' \<Longrightarrow> mainMemory s' = mainMemory s \<Longrightarrow> confined m W s'"
  by (simp add: confined_def same_mmu_cong)

definition touched :: "'k hw \<Rightarrow> 'k hw \<Rightarrow> bool" where
  "touched s s' \<longleftrightarrow> s' = s \<or> (\<exists>p e w. get_entry p s = Inr e \<and> set_entry p (touch w e) s = Inr s')"

lemma touchedI: "touched s s" "get_entry p s = Inr e \<Longrightarrow> set_entry p (touch w e) s = Inr s' \<Longrightarrow> touched s s'"
  by (auto simp: touched_def)

lemma Translate_touched: "rall (\<lambda>(r, s'). touched s s') (Translate direct_frame va sz w s)"
  by (auto simp: Translate_def direct_frame_def Let_def split: sum.split intro!: rallI intro: touchedI)

lemma touched_confined:
  assumes "touched s s'" and "confined m W s" shows "confined m W s' \<and> mainMemory s' = mainMemory s"
proof (cases "s' = s")
  case False
  with assms(1) obtain p e w where "get_entry p s = Inr e" "set_entry p (touch w e) s = Inr s'"
    by (auto simp: touched_def)
  moreover have "mmu_wf s" using assms(2) by (simp add: confined_def)
  ultimately show ?thesis using writable_frames_touch assms(2) by (metis confined_def)
qed (use assms(2) in simp)

lemma Translate_confined:
  assumes "confined m W s"
  shows "rall (\<lambda>(r, s'). confined m W s' \<and> mainMemory s' = mainMemory s) (Translate direct_frame va sz w s)"
proof -
  show ?thesis
    by (rule rall_mono [OF Translate_touched]) (use touched_confined [OF _ assms] in auto)
qed

lemma RaiseException_confined: "confined m W s \<Longrightarrow> rall (confined m W) (RaiseException no_kernel w a s)"
  by (auto simp: RaiseException_def no_kernel_def DelayedLoad_def Let_def same_mmu_def elim!: confined_cong)

lemma ReadMem_confined:
  assumes "confined m W s"
  shows "rall (\<lambda>(v, s'). confined m W s') (ReadMem direct_frame no_kernel va sz s)"
  unfolding ReadMem_def
  by (auto simp: Let_def RaiseException_confined split: translation.split
      intro!: rall_mono [OF Translate_confined [OF assms, of va sz False]])

lemma WriteMem_confined:
  assumes "confined m W s"
  shows "rall (\<lambda>(ok, s'). confined m W s') (WriteMem direct_frame no_kernel va sz x s)"
proof (rule rallI, clarify)
  fix ok s' assume w: "WriteMem direct_frame no_kernel va sz x s = Inr (ok, s')"
  then obtain r s1 where tr: "Translate direct_frame va sz True s = Inr (r, s1)"
    by (auto simp: WriteMem_def rbind_eq_Inr_iff)
  from rallD [OF Translate_confined [OF assms, of va sz True] tr]
  have s1: "confined m W s1" "mainMemory s1 = mainMemory s" by simp_all
  show "confined m W s'"
  proof (cases r)
    case (Exc ex)
    with w tr have "rbind (RaiseException no_kernel ex va s1) (\<lambda>s. Inr (False, s)) = Inr (ok, s')"
      by (simp add: WriteMem_def)
    then show ?thesis using rallD [OF RaiseException_confined [OF s1(1), of ex va]]
      by (auto simp: rbind_eq_Inr_iff)
  next
    case (Phys a)
    have wf: "mmu_wf s" and W: "writable_frames s = W" using assms by (simp_all add: confined_def)
    have sz: "sz \<in> {1, 2, 4}" and ok: "ok"
      using w tr Phys by (auto simp: WriteMem_def Let_def split: if_splits)
    have w': "WriteMem direct_frame no_kernel va sz x s = Inr (True, s')" using w ok by simp
    obtain a' s2 mem where "Translate direct_frame va sz True s = Inr (Phys a', s2)" "s' = s2\<lparr>mainMemory := mem\<rparr>"
      by (rule WriteMem_ok [OF wf sz w']) blast
    with tr have mmu: "same_mmu s1 s'" by (simp add: same_mmu_def)
    from WriteMem_memory [OF wf sz w'] obtain p e where
      "find_entry (page_of va) s = Inr (Inr p)" "get_entry p s = Inr e" "\<not> readOnly e"
      and out: "\<forall>b. int (b div 128) \<noteq> physicalPage e mod 2 ^ 32 \<longrightarrow> mainMemory s' b = mainMemory s b"
      by blast
    then have "physicalPage e mod 2 ^ 32 \<in> W" unfolding W [symmetric] writable_frames_def by blast
    then have "mainMemory s' b = m b" if "int (b div 128) \<notin> W" for b
      using that out s1 unfolding confined_def by metis
    with s1(1) same_mmu_cong [OF mmu] show ?thesis by (simp add: confined_def)
  qed
qed

interpretation cpu_confined: cpu_invariant direct_frame no_kernel "confined m W" "confined m W" for m W
proof
  show "confined m W (setreg r x s)" if "confined m W s" for r x and s :: "'a hw"
    by (rule confined_cong [OF that]) (simp_all add: same_mmu_def setreg_def)
  show "confined m W s'" if "confined m W s" "RaiseException no_kernel w a s = Inr s'" for s :: "'a hw" and w a s'
    using rallD [OF RaiseException_confined [OF that(1)] that(2)] .
  show "confined m W s'" if "confined m W s" "ReadMem direct_frame no_kernel a sz s = Inr (vo, s')" for s :: "'a hw" and a sz vo s'
    using rallD [OF ReadMem_confined [OF that(1)] that(2)] by simp
  show "confined m W s'" if "confined m W s" "WriteMem direct_frame no_kernel a sz x s = Inr (ok, s')" for s :: "'a hw" and a sz x ok s'
    using rallD [OF WriteMem_confined [OF that(1)] that(2)] by simp
  show "confined m W s'" if "confined m W s" "retire pc ld x s = Inr s'" for s :: "'a hw" and ld pc x s'
    by (rule confined_cong [OF that(1)])
      (use that(2) in \<open>auto simp: retire_def rbind_eq_Inr_iff DelayedLoad_def setreg_def same_mmu_def
        Let_def split: if_splits\<close>)
qed

subsection \<open>Arithmetic\<close>

lemma sint_range: "- (2 ^ 31) \<le> sint w" "sint w < 2 ^ 31" for w :: "32 word"
proof -
  define x where "x = uint w"
  have "0 \<le> x" "x < 2 ^ 32" using uint_lt2p [of w] by (simp_all add: x_def)
  then show "- (2 ^ 31) \<le> sint w" "sint w < 2 ^ 31"
    unfolding sint32 x_def [symmetric] by auto
qed

lemma sint_add_wrap:
  fixes a b :: "32 word"
  shows "sint (a + b) = (if sint a + sint b < - (2 ^ 31) then sint a + sint b + 2 ^ 32
     else if 2 ^ 31 \<le> sint a + sint b then sint a + sint b - 2 ^ 32 else sint a + sint b)"
proof -
  define x y where "x = uint a" and "y = uint b"
  have xy: "0 \<le> x" "x < 2 ^ 32" "0 \<le> y" "y < 2 ^ 32"
    using uint_lt2p [of a] uint_lt2p [of b] by (simp_all add: x_def y_def)
  have "uint (a + b) = (if x + y < 2 ^ 32 then x + y else x + y - 2 ^ 32)"
    by (simp add: uint_plus_if_size word_size x_def y_def)
  then show ?thesis using xy unfolding sint32 x_def [symmetric] y_def [symmetric] by auto
qed

lemma sint_sub_wrap:
  fixes a b :: "32 word"
  shows "sint (a - b) = (if sint a - sint b < - (2 ^ 31) then sint a - sint b + 2 ^ 32
     else if 2 ^ 31 \<le> sint a - sint b then sint a - sint b - 2 ^ 32 else sint a - sint b)"
proof -
  define x y where "x = uint a" and "y = uint b"
  have xy: "0 \<le> x" "x < 2 ^ 32" "0 \<le> y" "y < 2 ^ 32"
    using uint_lt2p [of a] uint_lt2p [of b] by (simp_all add: x_def y_def)
  have "uint (a - b) = (if y \<le> x then x - y else x - y + 2 ^ 32)"
    by (simp add: uint_sub_if_size word_size x_def y_def)
  then show ?thesis using xy unfolding sint32 x_def [symmetric] y_def [symmetric] by auto
qed

lemma sign_xor: "(a XOR b) AND SIGN_BIT = 0 \<longleftrightarrow> (sint a < 0 \<longleftrightarrow> sint b < 0)" for a b :: "32 word"
proof -
  have neg: "bit w 31 \<longleftrightarrow> sint w < 0" for w :: "32 word"
    using sign_bit_iff [of w] and_exp_eq_0_iff_not_bit [of w 31] uint_lt2p [of w] uint_ge_0 [of w]
    by (auto simp: sint32 simp del: uint_ge_0)
  have "(a XOR b) AND SIGN_BIT = 0 \<longleftrightarrow> \<not> bit (a XOR b) 31"
    using and_exp_eq_0_iff_not_bit [of "a XOR b" 31] by (simp add: SIGN_BIT_def)
  also have "\<dots> \<longleftrightarrow> (bit a 31 \<longleftrightarrow> bit b 31)" by (simp add: bit_simps)
  finally show ?thesis by (simp add: neg)
qed

definition fits :: "int \<Rightarrow> bool" where
  "fits x \<longleftrightarrow> - (2 ^ 31) \<le> x \<and> x < 2 ^ 31"

lemma add_overflow_test:
  "((a XOR b) AND SIGN_BIT = 0 \<and> (a XOR (a + b)) AND SIGN_BIT \<noteq> 0) \<longleftrightarrow> \<not> fits (sint a + sint b)"
  "((a XOR b) AND SIGN_BIT = 0 \<and> (b XOR (a + b)) AND SIGN_BIT \<noteq> 0) \<longleftrightarrow> \<not> fits (sint a + sint b)"
  using sint_range [of a] sint_range [of b] unfolding sign_xor sint_add_wrap fits_def by auto

lemma sub_overflow_test:
  "((a XOR b) AND SIGN_BIT \<noteq> 0 \<and> (a XOR (a - b)) AND SIGN_BIT \<noteq> 0) \<longleftrightarrow> \<not> fits (sint a - sint b)"
  using sint_range [of a] sint_range [of b] unfolding sign_xor sint_sub_wrap fits_def by auto

lemma execute_ADD:
  "opCode i = OP_ADD \<Longrightarrow> execute fr EH i pc s =
     (if fits (sint (registers s (rs i)) + sint (registers s (rt i)))
      then goto pc (setreg (rd i) (registers s (rs i) + registers s (rt i)) s)
      else trap EH OverflowException 0 s)"
  "opCode i = OP_ADDI \<Longrightarrow> execute fr EH i pc s =
     (if fits (sint (registers s (rs i)) + sint (extra i))
      then goto pc (setreg (rt i) (registers s (rs i) + extra i) s)
      else trap EH OverflowException 0 s)"
  "opCode i = OP_SUB \<Longrightarrow> execute fr EH i pc s =
     (if fits (sint (registers s (rs i)) - sint (registers s (rt i)))
      then goto pc (setreg (rd i) (registers s (rs i) - registers s (rt i)) s)
      else trap EH OverflowException 0 s)"
  by (simp_all add: execute_def exec_ADD_BNE_def exec_DIV_JR_def exec_LB_LW_def exec_LWL_LWR_def
      exec_MFHI_ORI_def exec_SB_SRLV_def exec_SUB_SWR_def add_overflow_test sub_overflow_test Let_def)

lemma execute_logic:
  "opCode i = OP_OR \<Longrightarrow> execute fr EH i pc s = goto pc (setreg (rd i) (registers s (rs i)) s)"
  "opCode i = OP_SRL \<Longrightarrow> execute fr EH i pc s =
     goto pc (setreg (rd i) (signed_drop_bit (unat (extra i)) (registers s (rt i))) s)"
  "opCode i = OP_DIV \<Longrightarrow> sint (registers s (rs i)) = - (2 ^ 31) \<Longrightarrow> sint (registers s (rt i)) = - 1 \<Longrightarrow>
     execute fr EH i pc s = Inl DivideOverflow"
  "opCode i = OP_BEQ \<Longrightarrow> execute fr EH i pc s =
     goto (if registers s (rs i) = registers s (rt i)
           then registers s NextPCReg + IndexToAddr (extra i) else pc) s"
  by (auto simp: execute_def exec_ADD_BNE_def exec_DIV_JR_def exec_LB_LW_def exec_LWL_LWR_def
      exec_MFHI_ORI_def exec_SB_SRLV_def exec_SUB_SWR_def Let_def)

lemma sample_step: "\<exists>s'. OneInstruction direct_frame no_kernel sample_hw = Inr s'"
proof -
  have d: "Decode 0 = \<lparr>ivalue = 0, opCode = OP_SLL, rs = 0, rt = 0, rd = 0, extra = 0\<rparr>" by code_simp
  have r: "ReadMem direct_frame no_kernel 0 4 sample_hw = Inr (Some 0, s')"
    if "set_entry (PageEntry 0 0) (touch False (pageTables sample_hw 0 ! 0)) sample_hw = Inr s'" for s'
    using that by (auto simp: ReadMem_def Translate_def find_entry_def get_entry_def set_entry_def direct_frame_def
        sample_hw_def Let_def mem_bytes_def HOST_IS_BIG_ENDIAN_def WordToHost_def host_word_def upt_2_4)
  obtain s1 where s1: "set_entry (PageEntry 0 0) (touch False (pageTables sample_hw 0 ! 0)) sample_hw = Inr s1"
    by (simp add: set_entry_def sample_hw_def)
  have regs: "registers s1 = (\<lambda>_. 0)" using set_entry_frame(2) [OF s1] by (simp add: sample_hw_def)
  have x: "execute direct_frame no_kernel (Decode 0) pc s1 = goto pc (setreg 0 0 s1)" for pc
    unfolding d by (simp add: execute_def exec_ADD_BNE_def exec_DIV_JR_def exec_LB_LW_def exec_LWL_LWR_def
      exec_MFHI_ORI_def exec_SB_SRLV_def regs Let_def)
  have "registers sample_hw PCReg = 0" by (simp add: sample_hw_def)
  then show ?thesis
    using r [OF s1] x
    by (simp add: OneInstruction_def goto_def retire_def DelayedLoad_def setreg_def regs NumTotalRegs_def Let_def)
qed

text \<open>The sample machine with the instruction word \<open>w\<close> at virtual address 0.\<close>

definition sample_program :: "32 word \<Rightarrow> unit hw" where
  "sample_program w = sample_hw\<lparr>mainMemory := mem_put (mainMemory sample_hw) 384 (bytes_le 4 w)\<rparr>"

lemma sample_fetch:
  "\<exists>s1. ReadMem direct_frame no_kernel 0 4 (sample_program w) = Inr (Some w, s1) \<and> registers s1 = (\<lambda>_. 0)"
proof -
  obtain s2 where tr: "Translate direct_frame 0 4 False (sample_program w) = Inr (Phys 384, s2)"
    and s2: "mainMemory s2 = mainMemory (sample_program w)" "registers s2 = (\<lambda>_. 0)"
    by (simp add: Translate_def find_entry_def get_entry_def set_entry_def direct_frame_def
        sample_program_def sample_hw_def Let_def)
  have "mem_bytes (mainMemory s2) 384 4 = store_bytes 4 w"
    using mem_bytes_put [of "mainMemory sample_hw" 384 "bytes_le 4 w"]
    by (simp add: s2 sample_program_def store_bytes_def)
  with ReadMem_bytes [OF tr, of w no_kernel] s2(2) show ?thesis by (simp add: stored_value_def)
qed

subsection \<open>Properties\<close>

text \<open>
  Register 0 reads as zero after every instruction, whatever the instruction writes, and the
  pending delayed load always names a general register, as long as the kernel's exception
  handler keeps this.
\<close>

lemma register_0_stays_zero:
  assumes "\<And>w s. regs_wf s \<Longrightarrow> rall regs_wf (EH w s)"
    and "regs_wf s" and "OneInstruction direct_frame EH s = Inr s'"
  shows "registers s' 0 = 0 \<and> unat (registers s' LoadReg) < NumGPRegs"
  using cpu_invariant.OneInstruction_keeps [OF cpu_regs [OF assms(1)] assms(2,3)] by (simp add: regs_wf_def)



text \<open>
  The trapping additions and the subtraction raise an overflow exception exactly when the
  exact signed result does not fit in 32 bits; otherwise the target register receives the exact
  result.
\<close>

lemma overflow_detection:
  "(opCode i = OP_ADD \<longrightarrow> execute fr EH i pc s =
     (let x = sint (registers s (rs i)) + sint (registers s (rt i)) in
      if fits x then goto pc (setreg (rd i) (word_of_int x) s) else trap EH OverflowException 0 s)) \<and>
   (opCode i = OP_ADDI \<longrightarrow> execute fr EH i pc s =
     (let x = sint (registers s (rs i)) + sint (extra i) in
      if fits x then goto pc (setreg (rt i) (word_of_int x) s) else trap EH OverflowException 0 s)) \<and>
   (opCode i = OP_SUB \<longrightarrow> execute fr EH i pc s =
     (let x = sint (registers s (rs i)) - sint (registers s (rt i)) in
      if fits x then goto pc (setreg (rd i) (word_of_int x) s) else trap EH OverflowException 0 s))"
  by (simp add: execute_ADD Let_def flip: wi_hom_add wi_hom_sub)

lemma OR_ignores_second_operand:
  "opCode i = OP_OR \<Longrightarrow> execute fr EH i pc s = goto pc (setreg (rd i) (registers s (rs i)) s)"
  by (simp add: execute_logic)

lemma SRL_shifts_sign_in:
  assumes "opCode i = OP_SRL" and "bit (registers s (rt i)) 31" and "unat (extra i) \<in> {1..31}"
  shows "\<exists>x. execute fr EH i pc s = goto pc (setreg (rd i) x s) \<and>
    x \<noteq> drop_bit (unat (extra i)) (registers s (rt i))"
proof -
  let ?x = "signed_drop_bit (unat (extra i)) (registers s (rt i))"
  have "32 - unat (extra i) \<le> 31" using assms(3) by simp arith
  then have "bit ?x 31" using assms(2) by (simp add: bit_simps)
  moreover have "\<not> bit (drop_bit (unat (extra i)) (registers s (rt i))) 31"
    using assms(3) by (auto simp: bit_simps dest: bit_imp_le_length)
  ultimately show ?thesis using execute_logic(2) [OF assms(1)] by metis
qed

lemma DIV_can_crash_simulator:
  assumes "opCode i = OP_DIV" and "registers s (rs i) = 0x80000000" and "registers s (rt i) = - 1"
  shows "execute fr EH i pc s = Inl DivideOverflow"
proof (rule execute_logic(3) [OF assms(1)])
  show "sint (registers s (rs i)) = - (2 ^ 31)" unfolding assms(2) by (simp add: sint32)
  show "sint (registers s (rt i)) = - 1" unfolding assms(3) by simp
qed



text \<open>
  A conditional branch takes effect one instruction late. After BEQ the program counter is the
  address of the next instruction (the delay slot) in any case; the one after it is the
  branch target, the offset in words relative to the delay slot, if the registers are
  equal, and the following instruction otherwise.
\<close>

lemma branch_has_delay_slot:
  assumes "ReadMem fr EH (registers s PCReg) 4 s = Inr (Some (encode_I 4 a b imm), s1)" and "regs_wf s1"
  shows "\<exists>s'. OneInstruction fr EH s = Inr s' \<and>
    registers s' PCReg = registers s1 NextPCReg \<and>
    registers s' NextPCReg =
      (if registers s1 (unat a) = registers s1 (unat b)
       then registers s1 NextPCReg + 4 * scast imm else registers s1 NextPCReg + 4)"
proof -
  have "opTable ! 4 = (OP_BEQ, IFMT)" by (simp add: opTable_def)
  then have d: "opCode (Decode (encode_I 4 a b imm)) = OP_BEQ" "rs (Decode (encode_I 4 a b imm)) = unat a"
    "rt (Decode (encode_I 4 a b imm)) = unat b" "extra (Decode (encode_I 4 a b imm)) = scast imm"
    using Decode_immediate [of 4 a b imm] by (simp_all add: Let_def)
  have r: "unat (registers s1 LoadReg) < NumTotalRegs" "unat (registers s1 LoadReg) \<noteq> NextPCReg"
    "unat (registers s1 LoadReg) \<noteq> PCReg"
    using assms(2) by (simp_all add: regs_wf_def reg_defs)
  have shift: "IndexToAddr (scast imm) = 4 * scast imm" by (simp add: IndexToAddr_def push_bit_eq_mult)
  show ?thesis
    using assms(1) r
    by (simp add: OneInstruction_def execute_logic(4) [OF d(1)] d shift goto_def retire_def DelayedLoad_def
        setreg_def Let_def reg_defs)
qed

end
