(* ===== verification/Interrupts.thy ===== *)
theory Interrupts
  imports Hardware
begin

text \<open>
  The interrupt simulation of \<^verbatim>\<open>machine/interrupt.cc\<close>: simulated time, the list of pending
  interrupts sorted by time, and the calls of the handlers that are due.

  The list is the sequence that theory \<open>NList\<close> shows \<^verbatim>\<open>class List\<close> to implement. Three things are
  arguments of the definitions: \<open>call\<close> runs a handler function of a device with its argument,
  \<open>yield\<close> is \<^verbatim>\<open>currentThread->Yield()\<close>, and \<open>um\<close> says whether there is a simulated machine whose delayed load
  must be completed (\<^verbatim>\<open>USER_PROGRAM\<close> builds). The loop that runs all due handlers is a
  \<open>partial_function\<close>; the locale \<open>interrupt_handlers\<close> states what handlers must satisfy for it to
  return, and shows that it runs exactly the due interrupts, in the order of their times.
\<close>

definition UserTick :: int where "UserTick = 1"
definition SystemTick :: int where "SystemTick = 10"

type_synonym 'k callfn = "VoidFunctionPtr \<Rightarrow> int \<Rightarrow> 'k hw \<Rightarrow> 'k hw result"

subsection \<open>The operations\<close>

definition ChangeLevel :: "IntStatus \<Rightarrow> IntStatus \<Rightarrow> 'k hw \<Rightarrow> 'k hw" where
  "ChangeLevel old now s = s\<lparr>level := now\<rparr>"

definition Schedule :: "VoidFunctionPtr \<Rightarrow> int \<Rightarrow> int \<Rightarrow> IntType \<Rightarrow> 'k hw \<Rightarrow> 'k hw result" where
  "Schedule handler arg fromNow type s =
     (let when = totalTicks (stats s) + fromNow;
          toOccur = new_PendingInterrupt handler arg when type in
      rbind (ASSERT (fromNow > 0)) (\<lambda>_.
      Inr (s\<lparr>pending := sorted_ins when toOccur (pending s)\<rparr>)))"

definition YieldOnReturn :: "'k hw \<Rightarrow> 'k hw result" where
  "YieldOnReturn s = rbind (ASSERT (inHandler s)) (\<lambda>_. Inr (s\<lparr>yieldOnReturn := True\<rparr>))"

text \<open>The call of one handler, at the end of \<^verbatim>\<open>CheckIfDue\<close>.\<close>

definition fire :: "bool \<Rightarrow> 'k callfn \<Rightarrow> PendingInterrupt \<Rightarrow> 'k hw \<Rightarrow> 'k hw result" where
  "fire um call toOccur s =
     (let old = status s in
      rbind (if um then DelayedLoad 0 0 s else Inr s) (\<lambda>s.
      rbind (call (pi_handler toOccur) (pi_arg toOccur) (s\<lparr>inHandler := True, status := SystemMode\<rparr>)) (\<lambda>s.
      Inr (s\<lparr>status := old, inHandler := False\<rparr>))))"

definition CheckIfDue :: "bool \<Rightarrow> 'k callfn \<Rightarrow> bool \<Rightarrow> 'k hw \<Rightarrow> (bool \<times> 'k hw) result" where
  "CheckIfDue um call advanceClock s =
     rbind (ASSERT (level s = IntOff)) (\<lambda>_.
     case pending s of
       [] \<Rightarrow> Inr (False, s)
     | (when, toOccur) # rest \<Rightarrow>
         let now = totalTicks (stats s); s1 = s\<lparr>pending := rest\<rparr> in
         if \<not> advanceClock \<and> when > now
         then Inr (False, s1\<lparr>pending := sorted_ins when toOccur rest\<rparr>)
         else
           let s2 = (if when > now
                     then s1\<lparr>stats := (stats s)\<lparr>idleTicks := idleTicks (stats s) + (when - now),
                                                totalTicks := when\<rparr>\<rparr>
                     else s1) in
           if status s = IdleMode \<and> pi_type toOccur = TimerInt \<and> rest = []
           then Inr (False, s2\<lparr>pending := sorted_ins when toOccur rest\<rparr>)
           else rbind (fire um call toOccur s2) (\<lambda>s3. Inr (True, s3)))"

text \<open>\<^verbatim>\<open>while (CheckIfDue(FALSE)) ;\<close>\<close>

partial_function (option) run_due :: "bool \<Rightarrow> 'k callfn \<Rightarrow> 'k hw \<Rightarrow> 'k hw result option" where
  [code]: "run_due um call s =
     (case CheckIfDue um call False s of
        Inl e \<Rightarrow> Some (Inl e)
      | Inr (fired, s') \<Rightarrow> if fired then run_due um call s' else Some (Inr s'))"

definition tick :: "'k hw \<Rightarrow> 'k hw" where
  "tick s =
     (if status s = SystemMode
      then s\<lparr>stats := (stats s)\<lparr>totalTicks := totalTicks (stats s) + SystemTick,
                                 systemTicks := systemTicks (stats s) + SystemTick\<rparr>\<rparr>
      else s\<lparr>stats := (stats s)\<lparr>totalTicks := totalTicks (stats s) + UserTick,
                                 userTicks := userTicks (stats s) + UserTick\<rparr>\<rparr>)"

definition OneTick ::
    "bool \<Rightarrow> 'k callfn \<Rightarrow> ('k hw \<Rightarrow> 'k hw result) \<Rightarrow> 'k hw \<Rightarrow> 'k hw result option" where
  "OneTick um call yield s =
     (let old = status s;
          s = ChangeLevel IntOn IntOff (tick s) in
      map_option (\<lambda>r. rbind r (\<lambda>s.
        let s = ChangeLevel IntOff IntOn s in
        if yieldOnReturn s
        then rbind (yield (s\<lparr>yieldOnReturn := False, status := SystemMode\<rparr>)) (\<lambda>s.
             Inr (s\<lparr>status := old\<rparr>))
        else Inr s))
      (run_due um call s))"

definition SetLevel ::
    "bool \<Rightarrow> 'k callfn \<Rightarrow> ('k hw \<Rightarrow> 'k hw result) \<Rightarrow> IntStatus \<Rightarrow> 'k hw \<Rightarrow>
     (IntStatus \<times> 'k hw) result option" where
  "SetLevel um call yield now s =
     (let old = level s in
      if \<not> (now = IntOff \<or> \<not> inHandler s) then Some (Inl AssertFailed)
      else let s = ChangeLevel old now s in
        if now = IntOn \<and> old = IntOff
        then map_option (\<lambda>r. rbind r (\<lambda>s. Inr (old, s))) (OneTick um call yield s)
        else Some (Inr (old, s)))"

definition Enable ::
    "bool \<Rightarrow> 'k callfn \<Rightarrow> ('k hw \<Rightarrow> 'k hw result) \<Rightarrow> 'k hw \<Rightarrow> 'k hw result option" where
  "Enable um call yield s =
     map_option (\<lambda>r. rbind r (\<lambda>(_, s). Inr s)) (SetLevel um call yield IntOn s)"

text \<open>
  \<^verbatim>\<open>Idle\<close> returns when some handler ran, and halts the machine otherwise: \<open>Halt\<close> does not return.
\<close>

datatype 'k idle_outcome = Resumed "'k hw" | Halted "'k hw"

definition Idle :: "bool \<Rightarrow> 'k callfn \<Rightarrow> 'k hw \<Rightarrow> 'k idle_outcome result option" where
  "Idle um call s =
     (case CheckIfDue um call True (s\<lparr>status := IdleMode\<rparr>) of
        Inl e \<Rightarrow> Some (Inl e)
      | Inr (fired, s) \<Rightarrow>
          if fired
          then map_option (\<lambda>r. rbind r (\<lambda>s. Inr (Resumed (s\<lparr>yieldOnReturn := False, status := SystemMode\<rparr>))))
                 (run_due um call s)
          else Some (Inr (Halted s)))"

subsection \<open>The pending list and the due interrupts\<close>

definition pend_wf :: "'k hw \<Rightarrow> bool" where
  "pend_wf s \<longleftrightarrow> sorted (map fst (pending s)) \<and> (\<forall>(w, p) \<in> set (pending s). pi_when p = w)"

definition due :: "'k hw \<Rightarrow> (int \<times> PendingInterrupt) list" where
  "due s = filter (\<lambda>(w, p). w \<le> totalTicks (stats s)) (pending s)"

lemma sorted_ins_set: "set (sorted_ins k x xs) = insert (k, x) (set xs)"
  using arg_cong [OF sorted_ins_mset [of k x xs], of set_mset] by simp

lemma pend_wf_ins:
  "pend_wf s \<Longrightarrow> pi_when p = w \<Longrightarrow> pend_wf (s\<lparr>pending := sorted_ins w p (pending s)\<rparr>)"
  by (auto simp: pend_wf_def sorted_ins_sorted sorted_ins_set)

lemma pend_wf_tl: "pend_wf s \<Longrightarrow> pend_wf (s\<lparr>pending := tl (pending s)\<rparr>)"
  by (cases "pending s") (auto simp: pend_wf_def)

lemma filter_sorted_ins_skip:
  "\<not> P (k, x) \<Longrightarrow> filter P (sorted_ins k x xs) = filter P xs"
proof -
  have "filter P (takeWhile Q xs) @ filter P (dropWhile Q xs) = filter P xs" for Q
    by (simp flip: filter_append)
  then show "\<not> P (k, x) \<Longrightarrow> ?thesis" by (simp add: sorted_ins_def)
qed

lemma due_ins_later: "totalTicks (stats s) < w \<Longrightarrow> due (s\<lparr>pending := sorted_ins w p (pending s)\<rparr>) = due s"
  by (simp add: due_def filter_sorted_ins_skip)

lemma due_Nil_iff:
  assumes "pend_wf s"
  shows "due s = [] \<longleftrightarrow> pending s = [] \<or> totalTicks (stats s) < fst (hd (pending s))"
proof (cases "pending s")
  case (Cons e es)
  with assms show ?thesis by (fastforce simp: pend_wf_def due_def filter_empty_conv)
qed (simp add: due_def)

lemma due_Cons:
  assumes "due s = (w, p) # ds" and "pend_wf s"
  shows "pending s = (w, p) # tl (pending s)" and "w \<le> totalTicks (stats s)"
    and "due (s\<lparr>pending := tl (pending s)\<rparr>) = ds"
proof -
  from assms obtain e es where es: "pending s = e # es" by (cases "pending s") (auto simp: due_def)
  have "fst e \<le> totalTicks (stats s)"
    using due_Nil_iff [OF assms(2)] assms(1) es by simp
  with assms(1) es show "pending s = (w, p) # tl (pending s)" "w \<le> totalTicks (stats s)"
    "due (s\<lparr>pending := tl (pending s)\<rparr>) = ds"
    by (auto simp: due_def split: prod.splits)
qed

text \<open>
  Scheduling an interrupt keeps the list sorted and makes nothing due before its time.
\<close>

lemma Schedule_ok:
  assumes "pend_wf s" and "0 < fromNow"
  shows "\<exists>s'. Schedule h a fromNow t s = Inr s' \<and> pend_wf s' \<and> due s' = due s \<and>
    s' = s\<lparr>pending := pending s'\<rparr>"
proof -
  let ?w = "totalTicks (stats s) + fromNow"
  have "pend_wf (s\<lparr>pending := sorted_ins ?w (new_PendingInterrupt h a ?w t) (pending s)\<rparr>)"
    by (rule pend_wf_ins [OF assms(1)]) (simp add: new_PendingInterrupt_def)
  with assms(2) show ?thesis by (simp add: Schedule_def Let_def due_ins_later)
qed

subsection \<open>Handlers and the loop over the due interrupts\<close>

text \<open>
  The sequence of calls the loop stands for: the handlers of the due interrupts, in the order of the list, each
  with its entry taken off the list.
\<close>

fun fire_all ::
    "bool \<Rightarrow> 'k callfn \<Rightarrow> (int \<times> PendingInterrupt) list \<Rightarrow> 'k hw \<Rightarrow> 'k hw result" where
  "fire_all um call [] s = Inr s"
| "fire_all um call ((w, p) # ds) s =
     rbind (fire um call p (s\<lparr>pending := tl (pending s)\<rparr>)) (fire_all um call ds)"

definition load_ok :: "bool \<Rightarrow> 'k hw \<Rightarrow> bool" where
  "load_ok um s \<longleftrightarrow> (um \<longrightarrow> unat (registers s LoadReg) < NumTotalRegs)"

lemma DelayedLoad_ok:
  assumes "load_ok um s"
  shows "\<exists>rs. (if um then DelayedLoad 0 0 s else Inr s) = Inr (s\<lparr>registers := rs\<rparr>) \<and>
    load_ok um (s\<lparr>registers := rs\<rparr>)"
proof (cases um)
  case True
  let ?rs = "(registers s)(unat (registers s LoadReg) := registers s LoadValueReg, LoadReg := 0,
    LoadValueReg := 0, 0 := 0)"
  show ?thesis
    using True assms by (intro exI [of _ ?rs]) (simp add: load_ok_def DelayedLoad_def Let_def reg_defs)
next
  case False
  then show ?thesis by (intro exI [of _ "registers s"]) (simp add: load_ok_def)
qed

text \<open>The state of the interrupt simulation between two handler calls.\<close>

definition int_wf :: "bool \<Rightarrow> 'k hw \<Rightarrow> bool" where
  "int_wf um s \<longleftrightarrow> pend_wf s \<and> level s = IntOff \<and> load_ok um s"

text \<open>
  The contract of the device handlers, for a device state that satisfies \<open>K\<close>: called with interrupts disabled inside a
  handler, they return, leave the clock, the interrupt level and the
  registers alone, and only schedule interrupts for later.
\<close>

locale interrupt_handlers =
  fixes call :: "'k callfn" and K :: "'k \<Rightarrow> bool"
  assumes handler: "K (kern s) \<Longrightarrow> pend_wf s \<Longrightarrow> level s = IntOff \<Longrightarrow> inHandler s \<Longrightarrow>
    \<exists>s'. call h a s = Inr s' \<and> K (kern s') \<and> pend_wf s' \<and> due s' = due s \<and> level s' = IntOff \<and>
      registers s' = registers s \<and> totalTicks (stats s') = totalTicks (stats s)"
begin

lemma fire_ok:
  assumes "K (kern s)" and "int_wf um s"
  shows "\<exists>s'. fire um call p s = Inr s' \<and> K (kern s') \<and> int_wf um s' \<and> due s' = due s \<and>
    status s' = status s \<and> totalTicks (stats s') = totalTicks (stats s)"
proof -
  obtain rs where s1: "(if um then DelayedLoad 0 0 s else Inr s) = Inr (s\<lparr>registers := rs\<rparr>)"
    and keep: "load_ok um (s\<lparr>registers := rs\<rparr>)"
    using DelayedLoad_ok [of um s] assms(2) by (auto simp: int_wf_def)
  let ?s1 = "s\<lparr>registers := rs\<rparr>"
  let ?s2 = "?s1\<lparr>inHandler := True, status := SystemMode\<rparr>"
  have "pend_wf ?s2" "level ?s2 = IntOff" "due ?s2 = due s"
    using assms(2) by (simp_all add: pend_wf_def int_wf_def due_def)
  with handler [of ?s2 "pi_handler p" "pi_arg p"] assms(1) obtain s3 where
    3: "call (pi_handler p) (pi_arg p) ?s2 = Inr s3" "K (kern s3)" "pend_wf s3" "due s3 = due s"
      "level s3 = IntOff" "registers s3 = rs" "totalTicks (stats s3) = totalTicks (stats s)"
    by auto
  with s1 keep show ?thesis
    by (simp add: fire_def int_wf_def pend_wf_def load_ok_def due_def)
qed

text \<open>Outside idle mode, or with more than the timer pending, a due interrupt is fired.\<close>

lemma CheckIfDue_due:
  assumes "int_wf um s" and "due s = (w, p) # ds"
    and "\<not> (status s = IdleMode \<and> pi_type p = TimerInt \<and> tl (pending s) = [])"
  shows "CheckIfDue um call adv s =
    rbind (fire um call p (s\<lparr>pending := tl (pending s)\<rparr>)) (\<lambda>s'. Inr (True, s'))"
proof -
  have wf: "pend_wf s" "level s = IntOff" using assms(1) by (simp_all add: int_wf_def)
  note due_Cons [OF assms(2) wf(1)]
  then obtain rest where "pending s = (w, p) # rest" "w \<le> totalTicks (stats s)" by blast
  with wf(2) assms(3) show ?thesis by (auto simp: CheckIfDue_def Let_def)
qed

lemma CheckIfDue_none:
  assumes "int_wf um s" and "due s = []"
  shows "\<exists>ps. CheckIfDue um call False s = Inr (False, s\<lparr>pending := ps\<rparr>) \<and> mset ps = mset (pending s) \<and>
    int_wf um (s\<lparr>pending := ps\<rparr>) \<and> due (s\<lparr>pending := ps\<rparr>) = []"
proof (cases "pending s")
  case Nil
  with assms show ?thesis by (intro exI [of _ "[]"]) (simp add: CheckIfDue_def int_wf_def load_ok_def pend_wf_def due_def)
next
  case (Cons e rest)
  obtain w p where e: "e = (w, p)" by fastforce
  have wf: "pend_wf s" "level s = IntOff" using assms(1) by (simp_all add: int_wf_def)
  with due_Nil_iff [OF wf(1)] assms(2) Cons e have later: "totalTicks (stats s) < w" by simp
  let ?s = "s\<lparr>pending := sorted_ins w p rest\<rparr>"
  have "CheckIfDue um call False s = Inr (False, ?s)"
    using wf(2) later Cons e by (simp add: CheckIfDue_def)
  moreover have "pend_wf ?s"
    using pend_wf_ins [OF pend_wf_tl [OF wf(1)], of p w] wf(1) Cons e by (auto simp: pend_wf_def)
  moreover have "due ?s = []"
    using assms(2) Cons e later by (simp add: due_def filter_sorted_ins_skip)
  ultimately show ?thesis
    using assms(1) Cons e by (auto simp: int_wf_def load_ok_def sorted_ins_mset)
qed

lemma run_due_fires:
  assumes "K (kern s)" and "int_wf um s" and "status s \<noteq> IdleMode"
  shows "\<exists>s1 ps. fire_all um call (due s) s = Inr s1 \<and> run_due um call s = Some (Inr (s1\<lparr>pending := ps\<rparr>)) \<and>
    mset ps = mset (pending s1) \<and> K (kern s1) \<and> int_wf um (s1\<lparr>pending := ps\<rparr>) \<and>
    due (s1\<lparr>pending := ps\<rparr>) = [] \<and> totalTicks (stats s1) = totalTicks (stats s) \<and> status s1 = status s"
  using assms
proof (induction "due s" arbitrary: s)
  case Nil
  from CheckIfDue_none [OF Nil(3) Nil(1) [symmetric]] obtain ps where
    "CheckIfDue um call False s = Inr (False, s\<lparr>pending := ps\<rparr>)" "int_wf um (s\<lparr>pending := ps\<rparr>)"
      "due (s\<lparr>pending := ps\<rparr>) = []" "mset ps = mset (pending s)" by blast
  with Nil show ?case by (subst run_due.simps) (auto simp flip: Nil(1))
next
  case (Cons d ds)
  obtain w p where d: "d = (w, p)" by fastforce
  note due = Cons(2) [unfolded d, symmetric]
  let ?s = "s\<lparr>pending := tl (pending s)\<rparr>"
  have wf: "int_wf um ?s" using Cons(4) pend_wf_tl by (auto simp: int_wf_def load_ok_def)
  have ds: "due ?s = ds" by (rule due_Cons(3) [OF due]) (use Cons(4) in \<open>simp add: int_wf_def\<close>)
  from fire_ok [of ?s um p] Cons(3) wf obtain s1 where s1: "fire um call p ?s = Inr s1" "K (kern s1)"
    "int_wf um s1" "due s1 = ds" "status s1 = status s" "totalTicks (stats s1) = totalTicks (stats s)"
    by (auto simp: ds)
  have "CheckIfDue um call False s = Inr (True, s1)"
    using CheckIfDue_due [OF Cons(4) due, of False] Cons(5) s1(1) by simp
  then have step: "run_due um call s = run_due um call s1" by (subst run_due.simps) simp
  have all: "fire_all um call (due s) s = fire_all um call ds s1"
    using s1(1) by (simp add: d flip: Cons(2))
  from Cons(1) [OF s1(4) [symmetric] s1(2,3)] s1(5) Cons(5) show ?case
    unfolding step all s1(4) s1(5,6) by simp
qed

lemma OneTick_ok:
  assumes "K (kern s)" and "pend_wf s" and "load_ok um s" and "status s \<noteq> IdleMode"
  shows "\<exists>s1. K (kern s1) \<and> pend_wf s1 \<and> load_ok um s1 \<and> level s1 = IntOn \<and> due s1 = [] \<and> status s1 = status s \<and>
    totalTicks (stats s1) = totalTicks (stats s) + (if status s = SystemMode then SystemTick else UserTick) \<and>
    OneTick um call yield s =
      Some (if yieldOnReturn s1
            then rbind (yield (s1\<lparr>yieldOnReturn := False, status := SystemMode\<rparr>)) (\<lambda>s2.
                 Inr (s2\<lparr>status := status s\<rparr>))
            else Inr s1)"
proof -
  let ?s = "ChangeLevel IntOn IntOff (tick s)"
  have "K (kern ?s)" "int_wf um ?s" "status ?s \<noteq> IdleMode" "status ?s = status s"
    "totalTicks (stats ?s) = totalTicks (stats s) + (if status s = SystemMode then SystemTick else UserTick)"
    using assms by (simp_all add: ChangeLevel_def tick_def int_wf_def pend_wf_def load_ok_def)
  with run_due_fires [of ?s um] obtain s1 ps where
    1: "run_due um call ?s = Some (Inr (s1\<lparr>pending := ps\<rparr>))" "K (kern s1)" "int_wf um (s1\<lparr>pending := ps\<rparr>)"
      "due (s1\<lparr>pending := ps\<rparr>) = []" "status s1 = status s"
      "totalTicks (stats s1) = totalTicks (stats s) + (if status s = SystemMode then SystemTick else UserTick)"
    by auto
  show ?thesis
    by (rule exI [of _ "s1\<lparr>pending := ps, level := IntOn\<rparr>"])
      (use 1 in \<open>simp add: OneTick_def ChangeLevel_def Let_def int_wf_def pend_wf_def load_ok_def due_def\<close>)
qed

lemma CheckIfDue_idle_stop:
  assumes "int_wf um s" and "status s = IdleMode" and "pending s = [(w, p)]" and "pi_type p = TimerInt"
    and "w \<le> totalTicks (stats s)"
  shows "CheckIfDue um call False s = Inr (False, s)"
proof -
  have "s\<lparr>pending := [(w, p)]\<rparr> = s" using assms(3) by simp
  with assms show ?thesis by (simp add: CheckIfDue_def int_wf_def sorted_ins_def Let_def)
qed

lemma run_due_returns:
  assumes "K (kern s)" and "int_wf um s"
  shows "\<exists>s'. run_due um call s = Some (Inr s') \<and> K (kern s') \<and> int_wf um s' \<and>
    totalTicks (stats s') = totalTicks (stats s)"
  using assms
proof (induction "due s" arbitrary: s)
  case Nil
  from CheckIfDue_none [OF Nil(3) Nil(1) [symmetric]] obtain ps where
    "CheckIfDue um call False s = Inr (False, s\<lparr>pending := ps\<rparr>)" "int_wf um (s\<lparr>pending := ps\<rparr>)" by blast
  with Nil show ?case by (subst run_due.simps) auto
next
  case (Cons d ds)
  obtain w p where d: "d = (w, p)" by fastforce
  note due = Cons(2) [unfolded d, symmetric]
  have wf: "pend_wf s" using Cons(4) by (simp add: int_wf_def)
  note head = due_Cons [OF due wf]
  show ?case
  proof (cases "status s = IdleMode \<and> pi_type p = TimerInt \<and> tl (pending s) = []")
    case True
    with head(1) have "pending s = [(w, p)]" by simp
    from CheckIfDue_idle_stop [OF Cons(4) _ this _ head(2)] True Cons show ?thesis
      by (subst run_due.simps) auto
  next
    case False
    let ?s = "s\<lparr>pending := tl (pending s)\<rparr>"
    have wf': "int_wf um ?s" using Cons(4) pend_wf_tl by (auto simp: int_wf_def load_ok_def)
    from fire_ok [of ?s um p] Cons(3) wf' obtain s1 where s1: "fire um call p ?s = Inr s1" "K (kern s1)"
      "int_wf um s1" "due s1 = ds" "totalTicks (stats s1) = totalTicks (stats s)"
      by (auto simp: head(3))
    have "CheckIfDue um call False s = Inr (True, s1)"
      using CheckIfDue_due [OF Cons(4) due False, of False] s1(1) by simp
    then have step: "run_due um call s = run_due um call s1" by (subst run_due.simps) simp
    from Cons(1) [OF s1(4) [symmetric] s1(2,3)] s1(5) show ?thesis unfolding step by simp
  qed
qed

text \<open>
  The machine halts when it idles with nothing pending, or only the timer; otherwise time moves
  on to the next interrupt, if that lies ahead, and the handlers run.
\<close>

lemma Idle_cases:
  assumes K: "K (kern s)" and wf: "int_wf um s"
  shows "if pending s = [] \<or> (\<exists>w p. pending s = [(w, p)] \<and> pi_type p = TimerInt)
    then \<exists>s'. Idle um call s = Some (Inr (Halted s'))
    else \<exists>s'. Idle um call s = Some (Inr (Resumed s')) \<and> K (kern s') \<and> int_wf um s' \<and> status s' = SystemMode \<and>
      totalTicks (stats s') = max (totalTicks (stats s)) (fst (hd (pending s)))"
proof (cases "pending s = [] \<or> (\<exists>w p. pending s = [(w, p)] \<and> pi_type p = TimerInt)")
  case True
  have off: "level s = IntOff" using wf by (simp add: int_wf_def)
  from True have "\<exists>s'. CheckIfDue um call True (s\<lparr>status := IdleMode\<rparr>) = Inr (False, s')"
    using off by (auto simp: CheckIfDue_def Let_def)
  with True show ?thesis by (auto simp: Idle_def)
next
  case False
  then obtain w p rest where p: "pending s = (w, p) # rest" by (cases "pending s") auto
  let ?now = "totalTicks (stats s)"
  define s2 where "s2 = (let s1 = s\<lparr>status := IdleMode, pending := rest\<rparr> in
    if w > ?now then s1\<lparr>stats := (stats s)\<lparr>idleTicks := idleTicks (stats s) + (w - ?now), totalTicks := w\<rparr>\<rparr>
    else s1)"
  have c: "CheckIfDue um call True (s\<lparr>status := IdleMode\<rparr>) = rbind (fire um call p s2) (\<lambda>s3. Inr (True, s3))"
    using wf False p by (auto simp: CheckIfDue_def int_wf_def s2_def Let_def)
  have s2: "K (kern s2)" "int_wf um s2" "totalTicks (stats s2) = max ?now w"
    using K wf p by (auto simp: s2_def int_wf_def pend_wf_def load_ok_def Let_def)
  from fire_ok [OF s2(1,2), of p] obtain s3 where s3: "fire um call p s2 = Inr s3" "K (kern s3)" "int_wf um s3"
    "totalTicks (stats s3) = totalTicks (stats s2)" by blast
  from run_due_returns [OF s3(2,3)] obtain s4 where s4: "run_due um call s3 = Some (Inr s4)" "K (kern s4)"
    "int_wf um s4" "totalTicks (stats s4) = totalTicks (stats s3)" by blast
  show ?thesis
    using False c s3 s4 s2(3) p by (auto simp: Idle_def int_wf_def pend_wf_def load_ok_def)
qed

end

end
