(* ===== verification/Synch.thy ===== *)
theory Synch
  imports NList
begin

text \<open>
  Threads and their synchronisation: \<^verbatim>\<open>threads/scheduler.cc\<close>, \<^verbatim>\<open>threads/thread.cc\<close> and
  \<^verbatim>\<open>threads/synch.cc\<close>.

  Nachos runs on one processor and every operation below disables interrupts, so it runs
  without interruption from its start, or from the point where its thread is resumed, until its
  end or until it goes to sleep. Each such section is one function on the state of the kernel. Where a
  thread sleeps, \<open>cont\<close> records what it executes when it runs again: the next round of the
  loop of \<^verbatim>\<open>Semaphore::P\<close> or \<^verbatim>\<open>Lock::Acquire\<close>, the call of \<^verbatim>\<open>Acquire\<close> at the end of
  \<^verbatim>\<open>Condition::Wait\<close>, or the end of \<^verbatim>\<open>Barrier::block\<close>. The choice of the next thread in
  \<^verbatim>\<open>Thread::Sleep\<close> is a step of its own, since it may have to wait for an interrupt.

  The step relation lets the running thread call any operation and lets interrupt handlers
  call \<^verbatim>\<open>V\<close> at any time. The lists are the sequences of theory \<open>NList\<close>.
\<close>

subsection \<open>State\<close>

datatype ThreadStatus = JUST_CREATED | RUNNING | READY | BLOCKED

datatype cont = Code | InP nat | InAcquire nat | InWait nat nat | InBarrier nat | Finished

record Semaphore =
  sem_value :: int
  sem_queue :: "nat list"

record Lock =
  locked :: bool
  owner :: "nat option"
  lock_queue :: "nat list"

record Barrier =
  bar_queue :: "nat list"
  blockUntil :: int
  blockCount :: int

text \<open>
  \<open>switched\<close> are the threads that have left the processor before: they resume inside
  \<^verbatim>\<open>Scheduler::Run\<close>, the others start at \<^verbatim>\<open>ThreadRoot\<close>. \<open>allocated\<close> are the \<^verbatim>\<open>Thread\<close> objects that exist.
\<close>

record ksync =
  currentThread :: nat
  readyList :: "nat list"
  tstatus :: "nat \<Rightarrow> ThreadStatus"
  cont :: "nat \<Rightarrow> cont"
  switched :: "nat set"
  allocated :: "nat set"
  threadToBeDestroyed :: "nat option"
  sems :: "nat \<Rightarrow> Semaphore"
  locks :: "nat \<Rightarrow> Lock"
  conds :: "nat \<Rightarrow> nat list"
  bars :: "nat \<Rightarrow> Barrier"

subsection \<open>Scheduler and threads\<close>

definition ReadyToRun :: "nat \<Rightarrow> ksync \<Rightarrow> ksync" where
  "ReadyToRun t k = k\<lparr>tstatus := (tstatus k)(t := READY), readyList := readyList k @ [t]\<rparr>"

definition FindNextToRun :: "ksync \<Rightarrow> nat option \<times> ksync" where
  "FindNextToRun k =
     (case readyList k of [] \<Rightarrow> (None, k) | t # ts \<Rightarrow> (Some t, k\<lparr>readyList := ts\<rparr>))"

text \<open>
  \<^verbatim>\<open>Run\<close> up to the point where \<open>nextThread\<close> executes its own code. A thread that was switched out before
  comes out of \<^verbatim>\<open>SWITCH\<close> and deletes the finished thread, if there is one; a new thread starts at its root
  and does not.
\<close>

definition Run :: "nat \<Rightarrow> ksync \<Rightarrow> ksync" where
  "Run nextThread k =
     (let oldThread = currentThread k;
          k = k\<lparr>currentThread := nextThread, tstatus := (tstatus k)(nextThread := RUNNING)\<rparr>;
          k = k\<lparr>switched := insert oldThread (switched k)\<rparr>
      in if nextThread \<in> switched k
         then (case threadToBeDestroyed k of
                 None \<Rightarrow> k
               | Some d \<Rightarrow> k\<lparr>allocated := allocated k - {d}, threadToBeDestroyed := None\<rparr>)
         else k)"

definition new_Thread :: "nat \<Rightarrow> ksync \<Rightarrow> ksync" where
  "new_Thread t k =
     k\<lparr>tstatus := (tstatus k)(t := JUST_CREATED), cont := (cont k)(t := Code),
       switched := switched k - {t}, allocated := insert t (allocated k)\<rparr>"

definition Fork :: "nat \<Rightarrow> ksync \<Rightarrow> ksync" where
  "Fork t k = ReadyToRun t k"

definition Yield :: "ksync \<Rightarrow> ksync" where
  "Yield k =
     (case FindNextToRun k of
        (None, k) \<Rightarrow> k
      | (Some nextThread, k) \<Rightarrow> Run nextThread (ReadyToRun (currentThread k) k))"

text \<open>The first half of \<^verbatim>\<open>Thread::Sleep\<close>; the thread continues with \<open>c\<close> when it runs again.\<close>

definition Sleep :: "cont \<Rightarrow> ksync \<Rightarrow> ksync" where
  "Sleep c k =
     k\<lparr>tstatus := (tstatus k)(currentThread k := BLOCKED), cont := (cont k)(currentThread k := c)\<rparr>"

text \<open>Its second half, once the ready list is not empty.\<close>

definition Sleep_switch :: "ksync \<Rightarrow> ksync" where
  "Sleep_switch k =
     (case FindNextToRun k of (None, k) \<Rightarrow> k | (Some nextThread, k) \<Rightarrow> Run nextThread k)"

definition Finish :: "ksync \<Rightarrow> ksync" where
  "Finish k = Sleep Finished (k\<lparr>threadToBeDestroyed := Some (currentThread k)\<rparr>)"

definition set_cont :: "cont \<Rightarrow> ksync \<Rightarrow> ksync" where
  "set_cont c k = k\<lparr>cont := (cont k)(currentThread k := c)\<rparr>"

subsection \<open>Semaphores\<close>

definition new_Semaphore :: "int \<Rightarrow> Semaphore" where
  "new_Semaphore initialValue = \<lparr>sem_value = initialValue, sem_queue = []\<rparr>"

text \<open>One round of the loop of \<^verbatim>\<open>P\<close>, and the end of it; true when \<^verbatim>\<open>P\<close> returns.\<close>

definition sem_P :: "nat \<Rightarrow> ksync \<Rightarrow> bool \<times> ksync" where
  "sem_P s k =
     (let sem = sems k s in
      if sem_value sem = 0
      then (False, Sleep (InP s)
             (k\<lparr>sems := (sems k)(s := sem\<lparr>sem_queue := sem_queue sem @ [currentThread k]\<rparr>)\<rparr>))
      else (True, set_cont Code
             (k\<lparr>sems := (sems k)(s := sem\<lparr>sem_value := sem_value sem - 1\<rparr>)\<rparr>)))"

definition sem_V :: "nat \<Rightarrow> ksync \<Rightarrow> ksync" where
  "sem_V s k =
     (let sem = sems k s in
      case sem_queue sem of
        [] \<Rightarrow> k\<lparr>sems := (sems k)(s := sem\<lparr>sem_value := sem_value sem + 1\<rparr>)\<rparr>
      | t # ts \<Rightarrow>
          ReadyToRun t
            (k\<lparr>sems := (sems k)(s := sem\<lparr>sem_queue := ts, sem_value := sem_value sem + 1\<rparr>)\<rparr>))"

subsection \<open>Locks\<close>

text \<open>The constructor leaves the owner as it finds it in memory.\<close>

definition new_Lock :: "nat option \<Rightarrow> Lock" where
  "new_Lock garbage = \<lparr>locked = False, owner = garbage, lock_queue = []\<rparr>"

definition isHeldByCurrentThread :: "nat \<Rightarrow> ksync \<Rightarrow> bool" where
  "isHeldByCurrentThread l k \<longleftrightarrow> owner (locks k l) = Some (currentThread k)"

definition Acquire :: "nat \<Rightarrow> ksync \<Rightarrow> bool \<times> ksync" where
  "Acquire l k =
     (let lock = locks k l in
      if locked lock \<and> \<not> isHeldByCurrentThread l k
      then (False, Sleep (InAcquire l)
             (k\<lparr>locks := (locks k)(l := lock\<lparr>lock_queue := lock_queue lock @ [currentThread k]\<rparr>)\<rparr>))
      else (True, set_cont Code
             (k\<lparr>locks := (locks k)(l := lock\<lparr>locked := True, owner := Some (currentThread k)\<rparr>)\<rparr>)))"

definition Release :: "nat \<Rightarrow> ksync \<Rightarrow> ksync" where
  "Release l k =
     (if \<not> isHeldByCurrentThread l k then k
      else let lock = locks k l in
        case lock_queue lock of
          [] \<Rightarrow> k\<lparr>locks := (locks k)(l := lock\<lparr>locked := False, owner := None\<rparr>)\<rparr>
        | t # ts \<Rightarrow>
            ReadyToRun t
              (k\<lparr>locks := (locks k)(l := lock\<lparr>lock_queue := ts, locked := False, owner := None\<rparr>)\<rparr>))"

subsection \<open>Condition variables\<close>

definition Wait :: "nat \<Rightarrow> nat \<Rightarrow> ksync \<Rightarrow> ksync" where
  "Wait c l k =
     (if \<not> isHeldByCurrentThread l k then k
      else let k = Release l k in
        Sleep (InWait c l) (k\<lparr>conds := (conds k)(c := conds k c @ [currentThread k])\<rparr>))"

definition Signal :: "nat \<Rightarrow> nat \<Rightarrow> ksync \<Rightarrow> ksync" where
  "Signal c l k =
     (if \<not> isHeldByCurrentThread l k then k
      else case conds k c of
        [] \<Rightarrow> k
      | t # ts \<Rightarrow> ReadyToRun t (k\<lparr>conds := (conds k)(c := ts)\<rparr>))"

text \<open>The loop of \<^verbatim>\<open>Broadcast\<close>: one round for every waiter on the queue.\<close>

fun wake_all :: "nat \<Rightarrow> nat \<Rightarrow> ksync \<Rightarrow> ksync" where
  "wake_all c 0 k = k"
| "wake_all c (Suc n) k =
     (case conds k c of
        [] \<Rightarrow> k
      | t # ts \<Rightarrow> wake_all c n (ReadyToRun t (k\<lparr>conds := (conds k)(c := ts)\<rparr>)))"

definition Broadcast :: "nat \<Rightarrow> nat \<Rightarrow> ksync \<Rightarrow> ksync" where
  "Broadcast c l k =
     (if \<not> isHeldByCurrentThread l k then k else wake_all c (length (conds k c)) k)"

subsection \<open>Barriers\<close>

definition new_Barrier :: "int \<Rightarrow> Barrier" where
  "new_Barrier n = \<lparr>bar_queue = [], blockUntil = n, blockCount = 0\<rparr>"

text \<open>
  The loop that releases the waiters: \<^verbatim>\<open>blockCount\<close> times, one removal that may find the queue
  empty.
\<close>

fun release_loop :: "nat \<Rightarrow> nat \<Rightarrow> ksync \<Rightarrow> ksync" where
  "release_loop b 0 k = k"
| "release_loop b (Suc n) k =
     (let bar = bars k b; bar' = bar\<lparr>blockCount := blockCount bar - 1\<rparr> in
      case bar_queue bar of
        [] \<Rightarrow> release_loop b n (k\<lparr>bars := (bars k)(b := bar')\<rparr>)
      | t # ts \<Rightarrow> release_loop b n (ReadyToRun t (k\<lparr>bars := (bars k)(b := bar'\<lparr>bar_queue := ts\<rparr>)\<rparr>)))"

definition block :: "nat \<Rightarrow> ksync \<Rightarrow> ksync" where
  "block b k =
     (let bar = (bars k b)\<lparr>blockCount := blockCount (bars k b) + 1\<rparr>;
          k = k\<lparr>bars := (bars k)(b := bar)\<rparr> in
      if blockCount bar \<ge> blockUntil bar then release_loop b (nat (blockCount bar)) k
      else Sleep (InBarrier b)
        (k\<lparr>bars := (bars k)(b := bar\<lparr>bar_queue := bar_queue bar @ [currentThread k]\<rparr>)\<rparr>))"

subsection \<open>Steps\<close>

datatype kop =
    KP nat | KV nat | KAcquire nat | KRelease nat | KWait nat nat | KSignal nat nat
  | KBroadcast nat nat | KBarrier nat | KYield | KFork nat | KFinish

text \<open>What a step did, as far as the properties below need it.\<close>

datatype event = Passed nat | Posted nat | Acquired nat nat | Released nat nat | Other

definition do_P :: "nat \<Rightarrow> ksync \<Rightarrow> event \<times> ksync" where
  "do_P s k = (case sem_P s k of (done, k') \<Rightarrow> (if done then Passed s else Other, k'))"

definition do_Acquire :: "nat \<Rightarrow> ksync \<Rightarrow> event \<times> ksync" where
  "do_Acquire l k =
     (case Acquire l k of (done, k') \<Rightarrow> (if done then Acquired (currentThread k) l else Other, k'))"

fun exec_op :: "kop \<Rightarrow> ksync \<Rightarrow> event \<times> ksync" where
  "exec_op (KP s) k = do_P s k"
| "exec_op (KV s) k = (Posted s, sem_V s k)"
| "exec_op (KAcquire l) k = do_Acquire l k"
| "exec_op (KRelease l) k =
     (if isHeldByCurrentThread l k then Released (currentThread k) l else Other, Release l k)"
| "exec_op (KWait c l) k =
     (if isHeldByCurrentThread l k then Released (currentThread k) l else Other, Wait c l k)"
| "exec_op (KSignal c l) k = (Other, Signal c l k)"
| "exec_op (KBroadcast c l) k = (Other, Broadcast c l k)"
| "exec_op (KBarrier b) k = (Other, block b k)"
| "exec_op KYield k = (Other, Yield k)"
| "exec_op (KFork t) k = (Other, Fork t (new_Thread t k))"
| "exec_op KFinish k = (Other, Finish k)"

definition resume :: "ksync \<Rightarrow> event \<times> ksync" where
  "resume k =
     (case cont k (currentThread k) of
        InP s \<Rightarrow> do_P s k
      | InAcquire l \<Rightarrow> do_Acquire l k
      | InWait c l \<Rightarrow> do_Acquire l k
      | InBarrier b \<Rightarrow> (Other, set_cont Code k)
      | _ \<Rightarrow> (Other, k))"

inductive kstep :: "ksync \<Rightarrow> event \<Rightarrow> ksync \<Rightarrow> bool" where
  call: "tstatus k (currentThread k) = RUNNING \<Longrightarrow> cont k (currentThread k) = Code \<Longrightarrow>
    (\<And>t. op = KFork t \<Longrightarrow> t \<notin> allocated k) \<Longrightarrow> exec_op op k = (e, k') \<Longrightarrow> kstep k e k'"
| resume: "tstatus k (currentThread k) = RUNNING \<Longrightarrow> cont k (currentThread k) \<noteq> Code \<Longrightarrow>
    resume k = (e, k') \<Longrightarrow> kstep k e k'"
| dispatch: "tstatus k (currentThread k) \<noteq> RUNNING \<Longrightarrow> readyList k \<noteq> [] \<Longrightarrow>
    kstep k Other (Sleep_switch k)"
| interrupt: "kstep k (Posted s) (sem_V s k)"

inductive kruns :: "ksync \<Rightarrow> event list \<Rightarrow> ksync \<Rightarrow> bool" where
  runs_nil: "kruns k [] k"
| runs_snoc: "kruns k es k' \<Longrightarrow> kstep k' e k'' \<Longrightarrow> kruns k (es @ [e]) k''"

inductive_cases kstepE: "kstep k e k'"

subsection \<open>The invariant of the scheduler\<close>

datatype wchan = WSem nat | WLock nat | WCond nat | WBar nat

fun wq :: "ksync \<Rightarrow> wchan \<Rightarrow> nat list" where
  "wq k (WSem s) = sem_queue (sems k s)"
| "wq k (WLock l) = lock_queue (locks k l)"
| "wq k (WCond c) = conds k c"
| "wq k (WBar b) = bar_queue (bars k b)"

fun chan :: "cont \<Rightarrow> wchan option" where
  "chan (InP s) = Some (WSem s)"
| "chan (InAcquire l) = Some (WLock l)"
| "chan (InWait c l) = Some (WCond c)"
| "chan (InBarrier b) = Some (WBar b)"
| "chan _ = None"

text \<open>
  Every ready thread is on the ready list once, every sleeping thread is on the one queue its
  continuation names, once, and only the current thread runs.
\<close>

definition sched_ok ::
    "nat list \<Rightarrow> (nat \<Rightarrow> ThreadStatus) \<Rightarrow> (nat \<Rightarrow> cont) \<Rightarrow> (wchan \<Rightarrow> nat list) \<Rightarrow> nat \<Rightarrow> bool" where
  "sched_ok rl st ct q cur \<longleftrightarrow>
     distinct rl \<and> (\<forall>t. t \<in> set rl \<longleftrightarrow> st t = READY) \<and> (\<forall>w. distinct (q w)) \<and>
     (\<forall>w t. t \<in> set (q w) \<longleftrightarrow> st t = BLOCKED \<and> chan (ct t) = Some w) \<and>
     (\<forall>t. st t = RUNNING \<longrightarrow> t = cur) \<and> st cur \<noteq> JUST_CREATED"

definition life_ok ::
    "(nat \<Rightarrow> ThreadStatus) \<Rightarrow> (nat \<Rightarrow> cont) \<Rightarrow> nat set \<Rightarrow> nat option \<Rightarrow> bool" where
  "life_ok st ct al dead \<longleftrightarrow>
     (\<forall>t. ct t = Finished \<longrightarrow> st t = BLOCKED) \<and> (\<forall>t. dead = Some t \<longrightarrow> t \<in> al \<and> ct t = Finished) \<and>
     (\<forall>t. t \<notin> al \<longrightarrow> st t = JUST_CREATED \<or> ct t = Finished)"

definition kinv :: "ksync \<Rightarrow> bool" where
  "kinv k \<longleftrightarrow>
     sched_ok (readyList k) (tstatus k) (cont k) (wq k) (currentThread k) \<and>
     life_ok (tstatus k) (cont k) (allocated k) (threadToBeDestroyed k) \<and>
     (\<forall>s. 0 \<le> sem_value (sems k s))"

text \<open>The elementary changes: sleep on a queue, wake its first thread, go on, switch.\<close>

lemma sched_okD:
  assumes "sched_ok rl st ct q cur"
  shows "distinct rl" "t \<in> set rl \<longleftrightarrow> st t = READY" "distinct (q w)"
    "t \<in> set (q w) \<longleftrightarrow> st t = BLOCKED \<and> chan (ct t) = Some w" "st t = RUNNING \<Longrightarrow> t = cur"
    "st cur \<noteq> JUST_CREATED"
  using assms by (auto simp: sched_ok_def)

lemma sched_sleep:
  assumes ok: "sched_ok rl st ct q cur" and cur: "st cur = RUNNING" and c: "chan c = Some w"
  shows "sched_ok rl (st(cur := BLOCKED)) (ct(cur := c)) (q(w := q w @ [cur])) cur"
proof -
  have out: "cur \<notin> set (q v)" for v using sched_okD(4) [OF ok, of cur v] cur by simp
  have "x \<in> set ((q(w := q w @ [cur])) v) \<longleftrightarrow>
      (st(cur := BLOCKED)) x = BLOCKED \<and> chan ((ct(cur := c)) x) = Some v" for x v
    using sched_okD(4) [OF ok, of x v] out [of v] c by (cases "x = cur"; cases "v = w") auto
  moreover have "distinct ((q(w := q w @ [cur])) v)" for v using sched_okD(3) [OF ok] out by simp
  moreover have "x \<in> set rl \<longleftrightarrow> (st(cur := BLOCKED)) x = READY" for x
    using sched_okD(2) [OF ok, of x] cur by auto
  moreover have "(st(cur := BLOCKED)) x = RUNNING \<longrightarrow> x = cur" "(st(cur := BLOCKED)) cur \<noteq> JUST_CREATED" for x
    using sched_okD(5) [OF ok, of x] by auto
  ultimately show ?thesis using sched_okD(1) [OF ok] unfolding sched_ok_def by blast
qed

lemma sched_sleep_none:
  assumes ok: "sched_ok rl st ct q cur" and cur: "st cur = RUNNING" and c: "chan c = None"
  shows "sched_ok rl (st(cur := BLOCKED)) (ct(cur := c)) q cur"
proof -
  have "x \<in> set (q v) \<longleftrightarrow> (st(cur := BLOCKED)) x = BLOCKED \<and> chan ((ct(cur := c)) x) = Some v" for x v
    using sched_okD(4) [OF ok, of x v] cur c by (cases "x = cur") auto
  moreover have "x \<in> set rl \<longleftrightarrow> (st(cur := BLOCKED)) x = READY" for x
    using sched_okD(2) [OF ok, of x] cur by auto
  moreover have "(st(cur := BLOCKED)) x = RUNNING \<longrightarrow> x = cur" "(st(cur := BLOCKED)) cur \<noteq> JUST_CREATED" for x
    using sched_okD(5) [OF ok, of x] by auto
  ultimately show ?thesis using sched_okD(1,3) [OF ok] unfolding sched_ok_def by blast
qed

lemma sched_wake:
  assumes ok: "sched_ok rl st ct q cur" and w: "q w = t # ts"
  shows "sched_ok (rl @ [t]) (st(t := READY)) ct (q(w := ts)) cur"
proof -
  have t: "st t = BLOCKED" "chan (ct t) = Some w" using sched_okD(4) [OF ok, of t w] w by auto
  have ts: "t \<notin> set ts" "distinct ts" using sched_okD(3) [OF ok, of w] w by auto
  have q: "x \<in> set ((q(w := ts)) v) \<longleftrightarrow> (st(t := READY)) x = BLOCKED \<and> chan (ct x) = Some v" for x v
    using sched_okD(4) [OF ok, of x v] w t ts(1) by (cases "x = t"; cases "v = w") auto
  have "distinct ((q(w := ts)) v)" for v using ts(2) sched_okD(3) [OF ok] by simp
  moreover have "distinct (rl @ [t])" "x \<in> set (rl @ [t]) \<longleftrightarrow> (st(t := READY)) x = READY" for x
    using sched_okD(1,2) [OF ok] t(1) by auto
  moreover have "(st(t := READY)) x = RUNNING \<longrightarrow> x = cur" "(st(t := READY)) cur \<noteq> JUST_CREATED" for x
    using sched_okD(5,6) [OF ok] by auto
  ultimately show ?thesis using q unfolding sched_ok_def by blast
qed

lemma sched_continue:
  assumes ok: "sched_ok rl st ct q cur" and cur: "st cur \<noteq> BLOCKED"
  shows "sched_ok rl st (ct(cur := c)) q cur"
proof -
  have "x \<in> set (q v) \<longleftrightarrow> st x = BLOCKED \<and> chan ((ct(cur := c)) x) = Some v" for x v
    using sched_okD(4) [OF ok, of x v] cur by (cases "x = cur") auto
  then show ?thesis using sched_okD [OF ok] unfolding sched_ok_def by blast
qed

lemma sched_switch:
  assumes ok: "sched_ok (t # rl) st ct q cur" and "st cur \<noteq> RUNNING"
  shows "sched_ok rl (st(t := RUNNING)) ct q t"
proof -
  have t: "st t = READY" "t \<notin> set rl" "distinct rl" using sched_okD(1,2) [OF ok] by auto
  have "x \<in> set (q v) \<longleftrightarrow> (st(t := RUNNING)) x = BLOCKED \<and> chan (ct x) = Some v" for x v
    using sched_okD(4) [OF ok, of x v] t(1) by auto
  moreover have "x \<in> set rl \<longleftrightarrow> (st(t := RUNNING)) x = READY" for x
    using sched_okD(2) [OF ok, of x] t(2) by auto
  moreover have "(st(t := RUNNING)) x = RUNNING \<longrightarrow> x = t" "(st(t := RUNNING)) t \<noteq> JUST_CREATED" for x
    using sched_okD(5) [OF ok, of x] assms(2) by auto
  ultimately show ?thesis using t(3) sched_okD(3) [OF ok] unfolding sched_ok_def by blast
qed

lemma sched_new:
  assumes ok: "sched_ok rl st ct q cur" and t: "st t = JUST_CREATED \<or> st t = BLOCKED \<and> chan (ct t) = None"
  shows "sched_ok (rl @ [t]) (st(t := READY)) (ct(t := Code)) q cur"
proof -
  have "x \<in> set (q v) \<longleftrightarrow> (st(t := READY)) x = BLOCKED \<and> chan ((ct(t := Code)) x) = Some v" for x v
    using sched_okD(4) [OF ok, of x v] t by (cases "x = t") auto
  moreover have "distinct (rl @ [t])" "x \<in> set (rl @ [t]) \<longleftrightarrow> (st(t := READY)) x = READY" for x
    using sched_okD(1,2) [OF ok] t by auto
  moreover have "(st(t := READY)) x = RUNNING \<longrightarrow> x = cur" "(st(t := READY)) cur \<noteq> JUST_CREATED" for x
    using sched_okD(5,6) [OF ok] by auto
  ultimately show ?thesis using sched_okD(3) [OF ok] unfolding sched_ok_def by blast
qed

lemma wq_upd [simp]:
  "wq (k\<lparr>sems := (sems k)(s := sem)\<rparr>) = (wq k)(WSem s := sem_queue sem)"
  "wq (k\<lparr>locks := (locks k)(l := lock)\<rparr>) = (wq k)(WLock l := lock_queue lock)"
  "wq (k\<lparr>conds := (conds k)(c := ts)\<rparr>) = (wq k)(WCond c := ts)"
  "wq (k\<lparr>bars := (bars k)(b := bar)\<rparr>) = (wq k)(WBar b := bar_queue bar)"
  "wq (k\<lparr>tstatus := x1\<rparr>) = wq k" "wq (k\<lparr>cont := x2\<rparr>) = wq k" "wq (k\<lparr>readyList := x3\<rparr>) = wq k"
  "wq (k\<lparr>currentThread := x4\<rparr>) = wq k" "wq (k\<lparr>switched := x5\<rparr>) = wq k"
  "wq (k\<lparr>allocated := x6\<rparr>) = wq k" "wq (k\<lparr>threadToBeDestroyed := x7\<rparr>) = wq k"
  by (rule ext; rename_tac w; case_tac w; simp)+

lemma life_sleep:
  "life_ok st ct al d \<Longrightarrow> st cur = RUNNING \<Longrightarrow> c \<noteq> Finished \<Longrightarrow> life_ok (st(cur := BLOCKED)) (ct(cur := c)) al d"
  by (fastforce simp: life_ok_def)

lemma life_wake: "life_ok st ct al d \<Longrightarrow> st t = BLOCKED \<Longrightarrow> ct t \<noteq> Finished \<Longrightarrow> life_ok (st(t := READY)) ct al d"
  by (fastforce simp: life_ok_def)

lemma life_continue: "life_ok st ct al d \<Longrightarrow> st cur = RUNNING \<Longrightarrow> c \<noteq> Finished \<Longrightarrow> life_ok st (ct(cur := c)) al d"
  by (fastforce simp: life_ok_def)

lemma kinv_sleep:
  assumes "kinv k" and "tstatus k (currentThread k) = RUNNING" and c: "chan c = Some w"
    and k': "readyList k' = readyList k" "tstatus k' = tstatus k" "cont k' = cont k"
      "currentThread k' = currentThread k" "allocated k' = allocated k"
      "threadToBeDestroyed k' = threadToBeDestroyed k" "\<And>s. sem_value (sems k' s) = sem_value (sems k s)"
      "wq k' = (wq k)(w := wq k w @ [currentThread k])"
  shows "kinv (Sleep c k')"
proof -
  have "c \<noteq> Finished" using c by auto
  then show ?thesis
    using assms(1,2) c sched_sleep [of "readyList k" "tstatus k" "cont k" "wq k" "currentThread k" c w]
      life_sleep [of "tstatus k" "cont k" _ _ "currentThread k" c]
    by (simp add: kinv_def Sleep_def k')
qed

lemma kinv_wake:
  assumes "kinv k" and w: "wq k w = t # ts"
    and k': "readyList k' = readyList k" "tstatus k' = tstatus k" "cont k' = cont k"
      "currentThread k' = currentThread k" "allocated k' = allocated k"
      "threadToBeDestroyed k' = threadToBeDestroyed k" "\<And>s. 0 \<le> sem_value (sems k' s)"
      "wq k' = (wq k)(w := ts)"
  shows "kinv (ReadyToRun t k')"
proof -
  have "sched_ok (readyList k) (tstatus k) (cont k) (wq k) (currentThread k)" using assms(1) by (simp add: kinv_def)
  note ok = this
  have "tstatus k t = BLOCKED" "cont k t \<noteq> Finished"
    using sched_okD(4) [OF ok, of t w] w by auto
  then show ?thesis
    using assms(1) sched_wake [OF ok w] life_wake [of "tstatus k" "cont k" _ _ t]
    by (simp add: kinv_def ReadyToRun_def k')
qed

lemma kinv_continue:
  assumes "kinv k" and "tstatus k (currentThread k) = RUNNING"
    and k': "readyList k' = readyList k" "tstatus k' = tstatus k" "cont k' = cont k"
      "currentThread k' = currentThread k" "allocated k' = allocated k"
      "threadToBeDestroyed k' = threadToBeDestroyed k" "\<And>s. 0 \<le> sem_value (sems k' s)" "wq k' = wq k"
  shows "kinv (set_cont Code k')"
  using assms(1,2) sched_continue [of "readyList k" "tstatus k" "cont k" "wq k" "currentThread k" Code]
    life_continue [of "tstatus k" "cont k" _ _ "currentThread k" Code]
  by (simp add: kinv_def set_cont_def k')

lemma kinv_sem_value: "kinv k \<Longrightarrow> 0 \<le> sem_value (sems k s)"
  by (simp add: kinv_def)

lemma kinv_P:
  assumes "kinv k" and "tstatus k (currentThread k) = RUNNING"
  shows "kinv (snd (sem_P s k))"
proof (cases "sem_value (sems k s) = 0")
  case True
  then show ?thesis
    using kinv_sleep [OF assms, of "InP s" "WSem s"] by (simp add: sem_P_def Let_def)
next
  case False
  then have "0 \<le> sem_value (sems k s) - 1" using kinv_sem_value [OF assms(1), of s] by simp
  then show ?thesis
    using False kinv_continue [OF assms] kinv_sem_value [OF assms(1)] by (simp add: sem_P_def Let_def fun_upd_idem)
qed

lemma kinv_V: "kinv k \<Longrightarrow> kinv (sem_V s k)"
proof (cases "sem_queue (sems k s)")
  case Nil
  assume "kinv k"
  with Nil show ?thesis by (auto simp: sem_V_def kinv_def fun_upd_idem Let_def)
next
  case (Cons t ts)
  assume k: "kinv k"
  from Cons show ?thesis
    using kinv_wake [OF k, of "WSem s" t ts] kinv_sem_value [OF k] by (simp add: sem_V_def Let_def)
qed

lemma kinv_Acquire:
  assumes "kinv k" and "tstatus k (currentThread k) = RUNNING"
  shows "kinv (snd (Acquire l k))"
  using kinv_sleep [OF assms, of "InAcquire l" "WLock l"] kinv_continue [OF assms] kinv_sem_value [OF assms(1)]
  by (simp add: Acquire_def Let_def fun_upd_idem)

lemma kinv_Release: "kinv k \<Longrightarrow> kinv (Release l k)"
proof -
  assume k: "kinv k"
  show ?thesis
  proof (cases "lock_queue (locks k l)")
    case Nil
    with k show ?thesis by (auto simp: Release_def kinv_def fun_upd_idem)
  next
    case (Cons t ts)
    with k show ?thesis
      using kinv_wake [OF k, of "WLock l" t ts] kinv_sem_value [OF k] by (simp add: Release_def)
  qed
qed

lemma kinv_currentThread_running:
  assumes "kinv k" and "tstatus k (currentThread k) = RUNNING"
  shows "currentThread (Release l k) = currentThread k" "tstatus (Release l k) (currentThread k) = RUNNING"
proof -
  have ok: "sched_ok (readyList k) (tstatus k) (cont k) (wq k) (currentThread k)" using assms(1) by (simp add: kinv_def)
  have "currentThread k \<notin> set (wq k (WLock l))" using sched_okD(4) [OF ok, of "currentThread k" "WLock l"] assms(2) by simp
  then show "currentThread (Release l k) = currentThread k" "tstatus (Release l k) (currentThread k) = RUNNING"
    using assms(2) by (auto simp: Release_def Let_def ReadyToRun_def split: list.splits)
qed

lemma kinv_Wait:
  assumes "kinv k" and "tstatus k (currentThread k) = RUNNING"
  shows "kinv (Wait c l k)"
proof -
  note cur = kinv_currentThread_running [OF assms, of l]
  show ?thesis
    using kinv_sleep [OF kinv_Release [OF assms(1), of l], of "InWait c l" "WCond c"] cur assms(1)
    by (simp add: Wait_def Let_def)
qed

lemma kinv_Signal: "kinv k \<Longrightarrow> kinv (Signal c l k)"
  using kinv_wake [of k "WCond c"] kinv_sem_value [of k] by (simp add: Signal_def split: list.splits)

lemma kinv_wake_all: "kinv k \<Longrightarrow> kinv (wake_all c n k)"
proof (induction n arbitrary: k)
  case (Suc n)
  show ?case
  proof (cases "conds k c")
    case (Cons t ts)
    then have "kinv (ReadyToRun t (k\<lparr>conds := (conds k)(c := ts)\<rparr>))"
      using kinv_wake [OF Suc.prems, of "WCond c" t ts] kinv_sem_value [OF Suc.prems] by simp
    then show ?thesis using Suc.IH Cons by simp
  qed (simp add: Suc.prems)
qed simp

lemma kinv_Broadcast: "kinv k \<Longrightarrow> kinv (Broadcast c l k)"
  by (simp add: Broadcast_def kinv_wake_all)

lemma kinv_bar: "kinv k \<Longrightarrow> bar_queue bar = bar_queue (bars k b) \<Longrightarrow> kinv (k\<lparr>bars := (bars k)(b := bar)\<rparr>)"
  by (simp add: kinv_def fun_upd_idem)

lemma kinv_release_loop: "kinv k \<Longrightarrow> kinv (release_loop b n k)"
proof (induction n arbitrary: k)
  case (Suc n)
  show ?case
  proof (cases "bar_queue (bars k b)")
    case Nil
    then show ?thesis using Suc.IH kinv_bar [OF Suc.prems] by (simp add: Let_def)
  next
    case (Cons t ts)
    let ?bar = "(bars k b)\<lparr>blockCount := blockCount (bars k b) - 1, bar_queue := ts\<rparr>"
    have "kinv (ReadyToRun t (k\<lparr>bars := (bars k)(b := ?bar)\<rparr>))"
      using kinv_wake [OF Suc.prems, of "WBar b" t ts] kinv_sem_value [OF Suc.prems] Cons by simp
    then show ?thesis using Suc.IH Cons by (simp add: Let_def)
  qed
qed simp

lemma kinv_block:
  assumes "kinv k" and "tstatus k (currentThread k) = RUNNING"
  shows "kinv (block b k)"
proof -
  let ?bar = "(bars k b)\<lparr>blockCount := blockCount (bars k b) + 1\<rparr>"
  let ?k = "k\<lparr>bars := (bars k)(b := ?bar)\<rparr>"
  have k: "kinv ?k" using assms(1) by (rule kinv_bar) simp
  show ?thesis
    using kinv_sleep [OF k, of "InBarrier b" "WBar b"] kinv_release_loop [OF k] assms(2)
    by (simp add: block_def Let_def)
qed

lemma sched_ready:
  assumes ok: "sched_ok rl st ct q cur" and cur: "st cur = RUNNING"
  shows "sched_ok (rl @ [cur]) (st(cur := READY)) ct q cur"
proof -
  have "x \<in> set (q v) \<longleftrightarrow> (st(cur := READY)) x = BLOCKED \<and> chan (ct x) = Some v" for x v
    using sched_okD(4) [OF ok, of x v] cur by auto
  moreover have "distinct (rl @ [cur])" "x \<in> set (rl @ [cur]) \<longleftrightarrow> (st(cur := READY)) x = READY" for x
    using sched_okD(1,2) [OF ok] cur by auto
  moreover have "(st(cur := READY)) x = RUNNING \<longrightarrow> x = cur" "(st(cur := READY)) cur \<noteq> JUST_CREATED" for x
    using sched_okD(5) [OF ok, of x] by auto
  ultimately show ?thesis using sched_okD(3) [OF ok] unfolding sched_ok_def by blast
qed

lemma life_upd: "life_ok st ct al d \<Longrightarrow> st t \<noteq> BLOCKED \<Longrightarrow> st t \<noteq> JUST_CREATED \<Longrightarrow> life_ok (st(t := x)) ct al d"
  by (fastforce simp: life_ok_def)

lemma life_reap: "life_ok st ct al (Some d) \<Longrightarrow> life_ok st ct (al - {d}) None"
  by (auto simp: life_ok_def)

lemma kinv_Run:
  assumes "kinv (k\<lparr>readyList := t # readyList k\<rparr>)" and "tstatus k (currentThread k) \<noteq> RUNNING"
  shows "kinv (Run t k)"
proof -
  have ok: "sched_ok (t # readyList k) (tstatus k) (cont k) (wq k) (currentThread k)"
    and life: "life_ok (tstatus k) (cont k) (allocated k) (threadToBeDestroyed k)"
    and sem: "0 \<le> sem_value (sems k s)" for s using assms(1) by (auto simp: kinv_def)
  have "tstatus k t = READY" using sched_okD(2) [OF ok, of t] by simp
  then have "life_ok ((tstatus k)(t := RUNNING)) (cont k) (allocated k) (threadToBeDestroyed k)"
    using life_upd [OF life, of t] by simp
  then show ?thesis
    using sched_switch [OF ok assms(2)] sem
    by (auto simp: kinv_def Run_def Let_def intro: life_reap split: option.splits)
qed

lemma kinv_Yield:
  assumes k: "kinv k" and run: "tstatus k (currentThread k) = RUNNING"
  shows "kinv (Yield k)"
proof (cases "readyList k")
  case Nil
  then show ?thesis using k by (simp add: Yield_def FindNextToRun_def)
next
  case (Cons t ts)
  have ok: "sched_ok (readyList k) (tstatus k) (cont k) (wq k) (currentThread k)"
    and life: "life_ok (tstatus k) (cont k) (allocated k) (threadToBeDestroyed k)"
    using k by (auto simp: kinv_def)
  have "kinv (k\<lparr>tstatus := (tstatus k)(currentThread k := READY), readyList := t # ts @ [currentThread k]\<rparr>)"
    using sched_ready [OF ok run] life_upd [OF life, of "currentThread k" READY] k run Cons
    by (simp add: kinv_def)
  then show ?thesis
    using Cons kinv_Run [of t "ReadyToRun (currentThread k) (k\<lparr>readyList := ts\<rparr>)"]
    by (simp add: Yield_def FindNextToRun_def ReadyToRun_def)
qed

lemma kinv_Sleep_switch:
  assumes "kinv k" and "tstatus k (currentThread k) \<noteq> RUNNING"
  shows "kinv (Sleep_switch k)"
proof (cases "readyList k")
  case (Cons t ts)
  then have "kinv (k\<lparr>readyList := t # ts\<rparr>)" using assms(1) by (simp add: kinv_def)
  then show ?thesis
    using Cons kinv_Run [of t "k\<lparr>readyList := ts\<rparr>"] assms(2) by (simp add: Sleep_switch_def FindNextToRun_def)
qed (simp add: Sleep_switch_def FindNextToRun_def assms)

lemma kinv_Fork:
  assumes k: "kinv k" and t: "t \<notin> allocated k"
  shows "kinv (Fork t (new_Thread t k))"
proof -
  have ok: "sched_ok (readyList k) (tstatus k) (cont k) (wq k) (currentThread k)"
    and life: "life_ok (tstatus k) (cont k) (allocated k) (threadToBeDestroyed k)"
    using k by (auto simp: kinv_def)
  have "tstatus k t = JUST_CREATED \<or> tstatus k t = BLOCKED \<and> chan (cont k t) = None"
    using life t by (auto simp: life_ok_def)
  moreover have "life_ok ((tstatus k)(t := READY)) ((cont k)(t := Code)) (insert t (allocated k)) (threadToBeDestroyed k)"
    using life t by (auto simp: life_ok_def)
  ultimately show ?thesis
    using sched_new [OF ok] k by (simp add: kinv_def Fork_def new_Thread_def ReadyToRun_def)
qed

lemma kinv_Finish:
  assumes k: "kinv k" and run: "tstatus k (currentThread k) = RUNNING"
  shows "kinv (Finish k)"
proof -
  have ok: "sched_ok (readyList k) (tstatus k) (cont k) (wq k) (currentThread k)"
    and life: "life_ok (tstatus k) (cont k) (allocated k) (threadToBeDestroyed k)"
    using k by (auto simp: kinv_def)
  have "currentThread k \<in> allocated k" using life run by (force simp: life_ok_def)
  then have "life_ok ((tstatus k)(currentThread k := BLOCKED)) ((cont k)(currentThread k := Finished)) (allocated k)
      (Some (currentThread k))" using life by (auto simp: life_ok_def)
  then show ?thesis using sched_sleep_none [OF ok run, of Finished] k by (simp add: kinv_def Finish_def Sleep_def)
qed

lemma kinv_do_P: "kinv k \<Longrightarrow> tstatus k (currentThread k) = RUNNING \<Longrightarrow> kinv (snd (do_P s k))"
  using kinv_P [of k s] by (simp add: do_P_def split_def)

lemma kinv_do_Acquire: "kinv k \<Longrightarrow> tstatus k (currentThread k) = RUNNING \<Longrightarrow> kinv (snd (do_Acquire l k))"
  using kinv_Acquire [of k l] by (simp add: do_Acquire_def split_def)

lemma kinv_resume: "kinv k \<Longrightarrow> tstatus k (currentThread k) = RUNNING \<Longrightarrow> kinv (snd (resume k))"
  using kinv_continue [of k k] kinv_sem_value [of k]
  by (simp add: resume_def kinv_do_P kinv_do_Acquire split: cont.splits)

lemma kinv_exec_op:
  assumes "kinv k" and "tstatus k (currentThread k) = RUNNING" and "\<And>t. op = KFork t \<Longrightarrow> t \<notin> allocated k"
  shows "kinv (snd (exec_op op k))"
  using assms
  by (cases op) (simp_all add: kinv_do_P kinv_do_Acquire kinv_V kinv_Release kinv_Wait kinv_Signal
      kinv_Broadcast kinv_block kinv_Yield kinv_Fork kinv_Finish)

lemma kinv_kstep: "kstep k e k' \<Longrightarrow> kinv k \<Longrightarrow> kinv k'"
proof (induction rule: kstep.induct)
  case (call k op e k')
  then show ?case using kinv_exec_op [of k op] by simp
next
  case (resume k e k')
  then show ?case using kinv_resume [of k] by simp
qed (simp_all add: kinv_Sleep_switch kinv_V)

lemma kinv_kruns: "kruns k es k' \<Longrightarrow> kinv k \<Longrightarrow> kinv k'"
  by (induction rule: kruns.induct) (auto intro: kinv_kstep)

end
