(* ===== verification/Synch_Safety.thy ===== *)
theory Synch_Safety
  imports Synch
begin

text \<open>
  What the scheduler and the synchronisation objects guarantee in every run that starts when the
  kernel has booted: no thread is lost or queued twice, semaphores neither lose nor invent units,
  locks exclude each other, waiting threads are not forgotten, barriers release
  together. The last section shows that a finished thread may never be freed.
\<close>

subsection \<open>The booted kernel\<close>

text \<open>
  After \<^verbatim>\<open>Initialize\<close> only the main thread exists, and it runs. The synchronisation objects are
  those the program will create: semaphore \<open>s\<close> with the value \<open>v s\<close>, barrier \<open>b\<close> for \<open>n b\<close> threads;
  \<open>g l\<close> is what the owner of lock \<open>l\<close> happens to hold.
\<close>

definition boot :: "(nat \<Rightarrow> int) \<Rightarrow> (nat \<Rightarrow> nat option) \<Rightarrow> (nat \<Rightarrow> int) \<Rightarrow> ksync" where
  "boot v g n =
     \<lparr>currentThread = 0, readyList = [], tstatus = (\<lambda>_. JUST_CREATED)(0 := RUNNING), cont = (\<lambda>_. Code),
      switched = {}, allocated = {0}, threadToBeDestroyed = None,
      sems = (\<lambda>s. new_Semaphore (v s)), locks = (\<lambda>l. new_Lock (g l)), conds = (\<lambda>_. []),
      bars = (\<lambda>b. new_Barrier (n b))\<rparr>"

lemma kinv_boot: "(\<And>s. 0 \<le> v s) \<Longrightarrow> kinv (boot v g n)"
proof -
  have "wq (boot v g n) w = []" for w
    by (cases w) (simp_all add: boot_def new_Semaphore_def new_Lock_def new_Barrier_def)
  then show "(\<And>s. 0 \<le> v s) \<Longrightarrow> kinv (boot v g n)"
    by (auto simp: kinv_def sched_ok_def life_ok_def) (simp_all add: boot_def new_Semaphore_def split: if_splits)
qed

text \<open>Executing a list of operations of the running thread, for concrete runs.\<close>

lemma kruns_trans: "kruns k2 es2 k3 \<Longrightarrow> kruns k1 es1 k2 \<Longrightarrow> kruns k1 (es1 @ es2) k3"
  by (induction rule: kruns.induct) (auto simp flip: append_assoc intro: kruns.runs_snoc)

lemma kruns_step1: "kstep k e k' \<Longrightarrow> kruns k [e] k'"
  using kruns.runs_snoc [OF kruns.runs_nil] by fastforce

lemma kruns_Cons: "kstep k e k' \<Longrightarrow> kruns k' es k'' \<Longrightarrow> kruns k (e # es) k''"
  using kruns_trans [OF _ kruns_step1] by fastforce

subsection \<open>What the operations leave alone\<close>

lemma ReadyToRun_sel [simp]:
  "sems (ReadyToRun t k) = sems k" "locks (ReadyToRun t k) = locks k" "conds (ReadyToRun t k) = conds k"
  "bars (ReadyToRun t k) = bars k" "cont (ReadyToRun t k) = cont k" "currentThread (ReadyToRun t k) = currentThread k"
  "allocated (ReadyToRun t k) = allocated k" "threadToBeDestroyed (ReadyToRun t k) = threadToBeDestroyed k"
  "tstatus (ReadyToRun t k) = (tstatus k)(t := READY)" "readyList (ReadyToRun t k) = readyList k @ [t]"
  by (simp_all add: ReadyToRun_def)

lemma Sleep_sel [simp]:
  "sems (Sleep c k) = sems k" "locks (Sleep c k) = locks k" "conds (Sleep c k) = conds k"
  "bars (Sleep c k) = bars k" "cont (Sleep c k) = (cont k)(currentThread k := c)"
  "currentThread (Sleep c k) = currentThread k" "allocated (Sleep c k) = allocated k"
  "threadToBeDestroyed (Sleep c k) = threadToBeDestroyed k"
  "tstatus (Sleep c k) = (tstatus k)(currentThread k := BLOCKED)" "readyList (Sleep c k) = readyList k"
  by (simp_all add: Sleep_def)

lemma set_cont_sel [simp]:
  "sems (set_cont c k) = sems k" "locks (set_cont c k) = locks k" "conds (set_cont c k) = conds k"
  "bars (set_cont c k) = bars k" "cont (set_cont c k) = (cont k)(currentThread k := c)"
  "currentThread (set_cont c k) = currentThread k" "allocated (set_cont c k) = allocated k"
  "threadToBeDestroyed (set_cont c k) = threadToBeDestroyed k"
  "tstatus (set_cont c k) = tstatus k" "readyList (set_cont c k) = readyList k"
  by (simp_all add: set_cont_def)

lemma Run_sel [simp]:
  "sems (Run t k) = sems k" "locks (Run t k) = locks k" "conds (Run t k) = conds k" "bars (Run t k) = bars k"
  "cont (Run t k) = cont k" "currentThread (Run t k) = t" "readyList (Run t k) = readyList k"
  "tstatus (Run t k) = (tstatus k)(t := RUNNING)"
  by (simp_all add: Run_def Let_def split: option.splits)

lemma Yield_sel [simp]:
  "sems (Yield k) = sems k" "locks (Yield k) = locks k" "conds (Yield k) = conds k" "bars (Yield k) = bars k"
  "cont (Yield k) = cont k"
  by (simp_all add: Yield_def FindNextToRun_def split: list.splits)

lemma Sleep_switch_sel [simp]:
  "sems (Sleep_switch k) = sems k" "locks (Sleep_switch k) = locks k" "conds (Sleep_switch k) = conds k"
  "bars (Sleep_switch k) = bars k" "cont (Sleep_switch k) = cont k"
  by (simp_all add: Sleep_switch_def FindNextToRun_def split: list.splits)

lemma Fork_new_sel [simp]:
  "sems (Fork t (new_Thread t k)) = sems k" "locks (Fork t (new_Thread t k)) = locks k"
  "conds (Fork t (new_Thread t k)) = conds k" "bars (Fork t (new_Thread t k)) = bars k"
  "cont (Fork t (new_Thread t k)) = (cont k)(t := Code)"
  "tstatus (Fork t (new_Thread t k)) = (tstatus k)(t := READY)"
  by (simp_all add: Fork_def new_Thread_def)

lemma Finish_sel [simp]:
  "sems (Finish k) = sems k" "locks (Finish k) = locks k" "conds (Finish k) = conds k" "bars (Finish k) = bars k"
  "cont (Finish k) = (cont k)(currentThread k := Finished)"
  "tstatus (Finish k) = (tstatus k)(currentThread k := BLOCKED)"
  by (simp_all add: Finish_def)

lemma wake_all_sel [simp]:
  "sems (wake_all c n k) = sems k" "locks (wake_all c n k) = locks k" "bars (wake_all c n k) = bars k"
  "cont (wake_all c n k) = cont k" "currentThread (wake_all c n k) = currentThread k"
  by (induction n arbitrary: k) (simp_all split: list.splits)

lemma release_loop_sel [simp]:
  "sems (release_loop b n k) = sems k" "locks (release_loop b n k) = locks k" "conds (release_loop b n k) = conds k"
  "cont (release_loop b n k) = cont k" "currentThread (release_loop b n k) = currentThread k"
  by (induction n arbitrary: k) (simp_all add: Let_def split: list.splits)

lemma Release_sel [simp]:
  "sems (Release l k) = sems k" "conds (Release l k) = conds k" "bars (Release l k) = bars k"
  "cont (Release l k) = cont k" "currentThread (Release l k) = currentThread k"
  by (simp_all add: Release_def Let_def split: list.splits)

lemma sem_V_sel [simp]:
  "locks (sem_V s k) = locks k" "conds (sem_V s k) = conds k" "bars (sem_V s k) = bars k"
  "cont (sem_V s k) = cont k" "currentThread (sem_V s k) = currentThread k"
  by (simp_all add: sem_V_def Let_def split: list.splits)

subsection \<open>Semaphores\<close>

lemma do_P_value:
  "do_P s' k = (e, k') \<Longrightarrow> sem_value (sems k' s) =
     sem_value (sems k s) + (if e = Posted s then 1 else 0) - (if e = Passed s then 1 else 0)"
  by (auto simp: do_P_def sem_P_def Let_def split: if_splits)

lemma do_Acquire_frame:
  "do_Acquire l k = (e, k') \<Longrightarrow> sems k' = sems k \<and> conds k' = conds k \<and> bars k' = bars k \<and> currentThread k' = currentThread k \<and>
     e \<in> {Other, Acquired (currentThread k) l}"
  by (auto simp: do_Acquire_def Acquire_def Let_def split: if_splits)

lemma sem_V_value: "sem_value (sems (sem_V s' k) s) = sem_value (sems k s) + (if s = s' then 1 else 0)"
  by (auto simp: sem_V_def Let_def split: list.splits)

text \<open>Steps other than the semaphore operations leave the semaphores alone.\<close>

lemma others_sems [simp]:
  "sems (Wait c l k) = sems k" "sems (Signal c l k) = sems k" "sems (Broadcast c l k) = sems k" "sems (block b k) = sems k"
  by (simp_all add: Wait_def Signal_def Broadcast_def block_def Let_def split: list.splits)

lemma exec_op_sems:
  assumes op: "exec_op op k = (e, k')" and "\<And>s. op \<noteq> KP s" "\<And>s. op \<noteq> KV s"
  shows "sems k' = sems k \<and> e \<noteq> Posted s \<and> e \<noteq> Passed s"
proof (cases op)
  case (KAcquire l)
  then show ?thesis using op do_Acquire_frame [of l k e k'] by auto
qed (use assms in \<open>auto split: if_splits\<close>)

lemma resume_sems:
  assumes "resume k = (e, k')" and "\<And>s. cont k (currentThread k) \<noteq> InP s"
  shows "sems k' = sems k \<and> e \<noteq> Posted s \<and> e \<noteq> Passed s"
proof (cases "cont k (currentThread k)")
  case (InAcquire l)
  then show ?thesis using assms(1) do_Acquire_frame [of l k e k'] by (auto simp: resume_def)
next
  case (InWait c l)
  then show ?thesis using assms(1) do_Acquire_frame [of l k e k'] by (auto simp: resume_def)
qed (use assms in \<open>auto simp: resume_def\<close>)

lemma kstep_value:
  assumes "kstep k e k'"
  shows "sem_value (sems k' s) =
    sem_value (sems k s) + (if e = Posted s then 1 else 0) - (if e = Passed s then 1 else 0)"
  using assms
proof (cases rule: kstep.cases)
  case (call op)
  show ?thesis
  proof (cases "(\<exists>s. op = KP s) \<or> (\<exists>s. op = KV s)")
    case True
    then show ?thesis using call(4) by (auto simp: do_P_value sem_V_value split: if_splits)
  next
    case False
    then show ?thesis using exec_op_sems [OF call(4)] by auto
  qed
next
  case resume
  show ?thesis
  proof (cases "\<exists>s. cont k (currentThread k) = InP s")
    case True
    then show ?thesis using resume(3) by (auto simp: resume_def do_P_value)
  next
    case False
    then show ?thesis using resume_sems [OF resume(3)] by auto
  qed
qed (auto simp: sem_V_value)

lemma kruns_value:
  "kruns k es k' \<Longrightarrow> sem_value (sems k' s) =
     sem_value (sems k s) + int (count_list es (Posted s)) - int (count_list es (Passed s))"
proof (induction rule: kruns.induct)
  case (runs_snoc k es k' e k'')
  then show ?case using kstep_value [OF runs_snoc(2), of s] by auto
qed simp

text \<open>The threads that sleep in \<^verbatim>\<open>P\<close> no longer: they have been woken and will look at the value again.\<close>

definition runnable :: "ksync \<Rightarrow> nat \<Rightarrow> bool" where
  "runnable k t \<longleftrightarrow> tstatus k t \<in> {READY, RUNNING}"

definition woken :: "ksync \<Rightarrow> nat \<Rightarrow> nat set" where
  "woken k s = {t. cont k t = InP s \<and> runnable k t}"

definition none_forgotten :: "ksync \<Rightarrow> bool" where
  "none_forgotten k \<longleftrightarrow> (\<forall>s. sem_queue (sems k s) \<noteq> [] \<longrightarrow> sem_value (sems k s) \<le> int (card (woken k s)))"

lemma finite_woken: "kinv k \<Longrightarrow> finite (woken k s)"
proof (rule finite_subset [of _ "insert (currentThread k) (set (readyList k))"])
  assume "kinv k"
  then have ok: "sched_ok (readyList k) (tstatus k) (cont k) (wq k) (currentThread k)" by (simp add: kinv_def)
  show "woken k s \<subseteq> insert (currentThread k) (set (readyList k))"
  proof
    fix t
    assume "t \<in> woken k s"
    then show "t \<in> insert (currentThread k) (set (readyList k))"
      using sched_okD(2,5) [OF ok, of t] by (auto simp: woken_def runnable_def)
  qed
qed simp

lemma none_forgotten_mono:
  assumes "none_forgotten k" and "kinv k'" and "sems k' = sems k"
    and "\<And>t s. cont k t = InP s \<Longrightarrow> runnable k t \<Longrightarrow> cont k' t = InP s \<and> runnable k' t"
  shows "none_forgotten k'"
  unfolding none_forgotten_def
proof (intro allI impI)
  fix s
  assume "sem_queue (sems k' s) \<noteq> []"
  moreover have "card (woken k s) \<le> card (woken k' s)"
    using assms(4) by (intro card_mono finite_woken assms(2)) (auto simp: woken_def)
  ultimately show "sem_value (sems k' s) \<le> int (card (woken k' s))"
    using assms(1,3) by (fastforce simp: none_forgotten_def)
qed

lemma do_P_zero:
  "sem_value (sems k s) = 0 \<Longrightarrow> do_P s k = (Other, Sleep (InP s)
     (k\<lparr>sems := (sems k)(s := (sems k s)\<lparr>sem_queue := sem_queue (sems k s) @ [currentThread k]\<rparr>)\<rparr>))"
  by (simp add: do_P_def sem_P_def Let_def)

lemma do_P_pos:
  "sem_value (sems k s) \<noteq> 0 \<Longrightarrow> do_P s k = (Passed s, set_cont Code
     (k\<lparr>sems := (sems k)(s := (sems k s)\<lparr>sem_value := sem_value (sems k s) - 1\<rparr>)\<rparr>))"
  by (simp add: do_P_def sem_P_def Let_def)

lemma none_forgotten_P:
  assumes nf: "none_forgotten k" and k: "kinv k" and cont: "cont k (currentThread k) \<in> {Code, InP s}"
  shows "none_forgotten (snd (do_P s k))"
  unfolding none_forgotten_def
proof (intro allI impI)
  fix r
  let ?k = "snd (do_P s k)"
  assume q: "sem_queue (sems ?k r) \<noteq> []"
  show "sem_value (sems ?k r) \<le> int (card (woken ?k r))"
  proof (cases "sem_value (sems k s) = 0")
    case True
    have "t \<in> woken ?k r \<longleftrightarrow> t \<in> woken k r" if "r \<noteq> s" for t
      using cont that by (cases "t = currentThread k") (simp_all add: do_P_zero [OF True] woken_def runnable_def, fastforce)
    then have "r \<noteq> s \<Longrightarrow> woken ?k r = woken k r" by blast
    then show ?thesis using True q nf by (cases "r = s") (simp_all add: do_P_zero none_forgotten_def)
  next
    case False
    have "t \<in> woken ?k r \<longleftrightarrow> t \<in> woken k r \<and> \<not> (r = s \<and> t = currentThread k)" for t
      using cont by (cases "t = currentThread k") (simp_all add: do_P_pos [OF False] woken_def runnable_def, fastforce)
    then have w: "woken ?k r = woken k r - (if r = s then {currentThread k} else {})"
      by (simp add: set_eq_iff)
    have "sem_queue (sems k r) \<noteq> []" using q by (auto simp: do_P_pos [OF False] split: if_splits)
    then have "sem_value (sems k r) \<le> int (card (woken k r))" using nf by (simp add: none_forgotten_def)
    moreover have "sem_value (sems ?k r) = sem_value (sems k r) - (if r = s then 1 else 0)"
      by (simp add: do_P_pos [OF False])
    moreover have "int (card (woken k r)) - (if r = s then 1 else 0) \<le> int (card (woken ?k r))"
      using diff_card_le_card_Diff [of "{currentThread k}" "woken k r"] unfolding w by (cases "r = s") auto
    ultimately show ?thesis by linarith
  qed
qed

lemma none_forgotten_do_P:
  "do_P s k = (e, k') \<Longrightarrow> none_forgotten k \<Longrightarrow> kinv k \<Longrightarrow> cont k (currentThread k) \<in> {Code, InP s} \<Longrightarrow>
     none_forgotten k'"
  using none_forgotten_P [of k s] by simp

lemma none_forgotten_V:
  assumes nf: "none_forgotten k" and k: "kinv k"
  shows "none_forgotten (sem_V s k)"
  unfolding none_forgotten_def
proof (intro allI impI)
  fix r
  assume q: "sem_queue (sems (sem_V s k) r) \<noteq> []"
  show "sem_value (sems (sem_V s k) r) \<le> int (card (woken (sem_V s k) r))"
  proof (cases "sem_queue (sems k s)")
    case Nil
    then show ?thesis using q nf by (auto simp: sem_V_def Let_def none_forgotten_def woken_def runnable_def split: if_splits)
  next
    case (Cons t ts)
    have ok: "sched_ok (readyList k) (tstatus k) (cont k) (wq k) (currentThread k)" using k by (simp add: kinv_def)
    have t: "tstatus k t = BLOCKED" "chan (cont k t) = Some (WSem s)"
      using sched_okD(4) [OF ok, of t "WSem s"] Cons by auto
    then have t2: "cont k t = InP s" by (cases "cont k t") auto
    have "sem_value (sems k r) \<le> int (card (woken k r))"
      using nf q Cons by (auto simp: none_forgotten_def sem_V_def Let_def split: if_splits)
    moreover have "woken (sem_V s k) r = (if r = s then insert t (woken k r) else woken k r)" "t \<notin> woken k r"
      using Cons t t2 by (auto simp: woken_def runnable_def sem_V_def Let_def)
    ultimately show ?thesis using finite_woken [OF k, of r] by (auto simp: sem_V_value)
  qed
qed

text \<open>A thread that can run is left alone by the steps of the other threads.\<close>

lemma runnable_wake_all: "runnable k t \<Longrightarrow> runnable (wake_all c n k) t"
  by (induction n arbitrary: k) (auto simp: runnable_def split: list.splits)

lemma runnable_release_loop: "runnable k t \<Longrightarrow> runnable (release_loop b n k) t"
  by (induction n arbitrary: k) (auto simp: runnable_def Let_def split: list.splits)

lemma runnable_Release: "runnable k t \<Longrightarrow> runnable (Release l k) t"
  by (auto simp: runnable_def Release_def Let_def split: list.splits)

lemma runnable_sem_V: "runnable k t \<Longrightarrow> runnable (sem_V s k) t"
  by (auto simp: runnable_def sem_V_def Let_def split: list.splits)

lemma runnable_Yield: "runnable k t \<Longrightarrow> runnable (Yield k) t"
  by (auto simp: runnable_def Yield_def FindNextToRun_def split: list.splits)

lemma runnable_Sleep_switch: "runnable k t \<Longrightarrow> runnable (Sleep_switch k) t"
  by (auto simp: runnable_def Sleep_switch_def FindNextToRun_def split: list.splits)

lemma do_P_others: "t \<noteq> currentThread k \<Longrightarrow> do_P s k = (e, k') \<Longrightarrow> cont k' t = cont k t \<and> tstatus k' t = tstatus k t"
  by (auto simp: do_P_def sem_P_def Let_def split: if_splits)

lemma do_Acquire_others:
  "t \<noteq> currentThread k \<Longrightarrow> do_Acquire l k = (e, k') \<Longrightarrow> cont k' t = cont k t \<and> tstatus k' t = tstatus k t"
  by (auto simp: do_Acquire_def Acquire_def Let_def split: if_splits)

lemma Wait_others: "t \<noteq> currentThread k \<Longrightarrow> runnable k t \<Longrightarrow> cont (Wait c l k) t = cont k t \<and> runnable (Wait c l k) t"
  using runnable_Release [of k t l] by (auto simp: Wait_def Let_def runnable_def)

lemma Signal_others: "runnable k t \<Longrightarrow> cont (Signal c l k) t = cont k t \<and> runnable (Signal c l k) t"
  by (auto simp: Signal_def runnable_def split: list.splits)

lemma block_others: "t \<noteq> currentThread k \<Longrightarrow> runnable k t \<Longrightarrow> cont (block b k) t = cont k t \<and> runnable (block b k) t"
proof -
  assume "t \<noteq> currentThread k" "runnable k t"
  moreover have "runnable (k\<lparr>bars := x\<rparr>) t = runnable k t" for x by (simp add: runnable_def)
  moreover have "t \<noteq> currentThread k \<Longrightarrow> runnable (Sleep c k) t = runnable k t" for c k by (simp add: runnable_def)
  ultimately show ?thesis by (simp add: block_def Let_def runnable_release_loop)
qed

lemma exec_op_others:
  assumes op: "exec_op op k = (e, k')" and t: "t \<noteq> currentThread k" "runnable k t" and new: "op \<noteq> KFork t"
  shows "cont k' t = cont k t \<and> runnable k' t"
proof (cases op)
  case (KP s)
  then show ?thesis using op t do_P_others [of t k s e k'] by (simp add: runnable_def)
next
  case (KAcquire l)
  then show ?thesis using op t do_Acquire_others [of t k l e k'] by (simp add: runnable_def)
next
  case (KBroadcast c l)
  then show ?thesis using op t runnable_wake_all [of k t c "length (conds k c)"]
    by (cases "isHeldByCurrentThread l k") (auto simp: Broadcast_def)
next
  case (KFork u)
  then show ?thesis using op t new by (auto simp: runnable_def)
next
  case KFinish
  then show ?thesis using op t by (auto simp: runnable_def)
qed (use assms in \<open>auto simp: runnable_Release runnable_sem_V runnable_Yield Wait_others Signal_others block_others\<close>)

lemma resume_others:
  assumes "resume k = (e, k')" and "t \<noteq> currentThread k" "runnable k t"
  shows "cont k' t = cont k t \<and> runnable k' t"
  using assms do_P_others [of t k] do_Acquire_others [of t k]
  by (auto simp: resume_def runnable_def split: cont.splits)

lemma fork_not_runnable: "kinv k \<Longrightarrow> u \<notin> allocated k \<Longrightarrow> \<not> runnable k u"
  by (auto simp: kinv_def life_ok_def runnable_def)

lemma none_forgotten_kstep:
  assumes step: "kstep k e k'" and k: "kinv k" and nf: "none_forgotten k"
  shows "none_forgotten k'"
proof -
  have k': "kinv k'" using step k by (rule kinv_kstep)
  show ?thesis
    using step
  proof (cases rule: kstep.cases)
    case (call op)
    show ?thesis
    proof (cases "(\<exists>s. op = KP s) \<or> (\<exists>s. op = KV s)")
      case True
      then show ?thesis using call none_forgotten_do_P [OF _ nf k] none_forgotten_V [OF nf k] by auto
    next
      case False
      have "cont k' t = InP s \<and> runnable k' t" if "cont k t = InP s" "runnable k t" for t s
        using exec_op_others [OF call(4), of t] that call(2,3) fork_not_runnable [OF k, of t] by fastforce
      then show ?thesis using none_forgotten_mono [OF nf k'] exec_op_sems [OF call(4)] False by blast
    qed
  next
    case resume
    show ?thesis
    proof (cases "\<exists>s. cont k (currentThread k) = InP s")
      case True
      then show ?thesis using resume(3) none_forgotten_do_P [OF _ nf k] by (auto simp: resume_def)
    next
      case False
      then have "cont k' t = InP s \<and> runnable k' t" if "cont k t = InP s" "runnable k t" for t s
        using resume_others [OF resume(3), of t] that by metis
      then show ?thesis using none_forgotten_mono [OF nf k'] resume_sems [OF resume(3)] False by blast
    qed
  next
    case dispatch
    then show ?thesis using none_forgotten_mono [OF nf k'] runnable_Sleep_switch by auto
  qed (simp add: none_forgotten_V [OF nf k])
qed

subsection \<open>Locks\<close>

text \<open>The effect of a step on a lock, read off its event.\<close>

definition lock_effect :: "event \<Rightarrow> nat \<Rightarrow> bool \<times> nat option \<Rightarrow> bool \<times> nat option" where
  "lock_effect e l x =
     (case e of Acquired t l' \<Rightarrow> if l' = l then (True, Some t) else x
      | Released t l' \<Rightarrow> if l' = l then (False, None) else x | _ \<Rightarrow> x)"

definition lock_allowed :: "event \<Rightarrow> nat \<Rightarrow> bool \<times> nat option \<Rightarrow> bool" where
  "lock_allowed e l x \<longleftrightarrow>
     (\<forall>t. (e = Acquired t l \<longrightarrow> fst x \<longrightarrow> snd x = Some t) \<and> (e = Released t l \<longrightarrow> snd x = Some t))"

abbreviation lock_state :: "ksync \<Rightarrow> nat \<Rightarrow> bool \<times> nat option" where
  "lock_state k l \<equiv> (locked (locks k l), owner (locks k l))"

lemmas lock_event_defs = lock_effect_def lock_allowed_def

lemma do_P_lock: "do_P s k = (e, k') \<Longrightarrow> locks k' = locks k \<and> lock_effect e l x = x \<and> lock_allowed e l x"
  by (auto simp: do_P_def sem_P_def Let_def lock_event_defs split: if_splits)

lemma do_Acquire_lock:
  "do_Acquire m k = (e, k') \<Longrightarrow>
     lock_state k' l = lock_effect e l (lock_state k l) \<and> lock_allowed e l (lock_state k l)"
  by (auto simp: do_Acquire_def Acquire_def Let_def lock_event_defs isHeldByCurrentThread_def split: if_splits)

lemma Release_lock:
  "lock_state (Release m k) l =
     (if m = l \<and> isHeldByCurrentThread m k then (False, None) else lock_state k l)"
  by (auto simp: Release_def Let_def split: list.splits)

lemma others_locks [simp]:
  "locks (Signal c l k) = locks k" "locks (Broadcast c l k) = locks k" "locks (block b k) = locks k"
  "locks (Wait c l k) = locks (Release l k)"
  by (simp_all add: Signal_def Broadcast_def block_def Wait_def Release_def Let_def split: list.splits)

lemma kstep_lock:
  assumes "kstep k e k'"
  shows "lock_state k' l = lock_effect e l (lock_state k l) \<and> lock_allowed e l (lock_state k l)"
  using assms
proof (cases rule: kstep.cases)
  case (call op)
  show ?thesis
  proof (cases op)
    case (KP s)
    then show ?thesis using call(4) do_P_lock [of s k e k'] by simp
  next
    case (KAcquire m)
    then show ?thesis using call(4) do_Acquire_lock [of m k e k' l] by simp
  next
    case (KRelease m)
    then show ?thesis using call(4) Release_lock [of m k l]
      by (auto simp: lock_event_defs isHeldByCurrentThread_def split: if_splits)
  next
    case (KWait c m)
    then show ?thesis using call(4) Release_lock [of m k l]
      by (auto simp: lock_event_defs isHeldByCurrentThread_def split: if_splits)
  qed (use call(4) in \<open>auto simp: lock_event_defs\<close>)
next
  case resume
  then show ?thesis
    using do_P_lock [of _ k e k' l] do_Acquire_lock [of _ k e k' l]
    by (auto simp: resume_def lock_event_defs split: cont.splits)
qed (auto simp: lock_event_defs)

lemma kruns_append: "kruns k (es1 @ es2) k'' \<Longrightarrow> \<exists>k'. kruns k es1 k' \<and> kruns k' es2 k''"
proof (induction es2 arbitrary: k'' rule: rev_induct)
  case Nil
  then show ?case using kruns.runs_nil by auto
next
  case (snoc e es2)
  from snoc.prems obtain k1 where "kruns k (es1 @ es2) k1" and "kstep k1 e k''" by (cases rule: kruns.cases) auto
  with snoc.IH show ?case by (blast intro: kruns.runs_snoc)
qed

inductive_simps kruns_Nil: "kruns k [] k'"

lemma kruns_single: "kruns k [e] k' \<Longrightarrow> kstep k e k'"
  by (erule kruns.cases) (auto simp: kruns_Nil)

lemma kruns_Cons_cases: "kruns k (e # es) k'' \<Longrightarrow> \<exists>k'. kstep k e k' \<and> kruns k' es k''"
  using kruns_append [of k "[e]" es k''] by (auto dest: kruns_single)

lemma held_until_released:
  "kruns k es k' \<Longrightarrow> lock_state k l = (True, Some t) \<Longrightarrow> Released t l \<notin> set es \<Longrightarrow> lock_state k' l = (True, Some t)"
proof (induction rule: kruns.induct)
  case (runs_snoc k es k' e k'')
  then have "lock_state k' l = (True, Some t)" by simp
  then show ?case
    using kstep_lock [OF runs_snoc(2), of l] runs_snoc.prems(2) by (cases e) (auto simp: lock_event_defs split: if_splits)
qed simp

text \<open>Waiters for a free lock: one of them has been woken.\<close>

definition lock_not_forgotten :: "ksync \<Rightarrow> bool" where
  "lock_not_forgotten k \<longleftrightarrow>
     (\<forall>l. lock_queue (locks k l) \<noteq> [] \<longrightarrow> locked (locks k l) \<or> (\<exists>t. cont k t = InAcquire l \<and> runnable k t))"

lemma lock_not_forgotten_mono:
  assumes "lock_not_forgotten k"
    and "\<And>l. lock_queue (locks k' l) \<noteq> [] \<Longrightarrow> locked (locks k' l) \<or> (\<exists>t. cont k' t = InAcquire l \<and> runnable k' t) \<or>
      locks k' l = locks k l \<and> (\<forall>t. cont k t = InAcquire l \<longrightarrow> runnable k t \<longrightarrow> cont k' t = InAcquire l \<and> runnable k' t)"
  shows "lock_not_forgotten k'"
  using assms unfolding lock_not_forgotten_def by metis

lemma do_Acquire_locked: "do_Acquire m k = (e, k') \<Longrightarrow> locked (locks k' m) \<and> (l \<noteq> m \<longrightarrow> locks k' l = locks k l)"
  by (auto simp: do_Acquire_def Acquire_def Let_def split: if_splits)

lemma Release_wakes:
  assumes k: "kinv k" and run: "tstatus k (currentThread k) = RUNNING"
    and q: "lock_queue (locks (Release m k) l) \<noteq> []"
  shows "locks (Release m k) l = locks k l \<or>
    (\<exists>t. t \<noteq> currentThread k \<and> cont k t = InAcquire l \<and> runnable (Release m k) t)"
proof (cases "isHeldByCurrentThread m k \<and> l = m")
  case False
  then show ?thesis by (auto simp: Release_def Let_def split: list.splits)
next
  case True
  then obtain t ts where ts: "lock_queue (locks k l) = t # ts" using q
    by (cases "lock_queue (locks k l)") (auto simp: Release_def Let_def)
  have "sched_ok (readyList k) (tstatus k) (cont k) (wq k) (currentThread k)" using k by (simp add: kinv_def)
  from sched_okD(4) [OF this, of t "WLock l"] ts have t: "tstatus k t = BLOCKED" "chan (cont k t) = Some (WLock l)" by auto
  then have "cont k t = InAcquire l" by (cases "cont k t") auto
  moreover have "runnable (Release m k) t" using True ts by (simp add: Release_def Let_def runnable_def)
  ultimately show ?thesis using t run by force
qed

lemma lock_not_forgotten_call:
  assumes nf: "lock_not_forgotten k" and k: "kinv k" and run: "tstatus k (currentThread k) = RUNNING"
    and code: "cont k (currentThread k) = Code" and new: "\<And>t. op = KFork t \<Longrightarrow> t \<notin> allocated k"
    and op: "exec_op op k = (e, k')"
  shows "lock_not_forgotten k'"
proof (rule lock_not_forgotten_mono [OF nf])
  fix l
  assume q: "lock_queue (locks k' l) \<noteq> []"
  have keep: "cont k' t = InAcquire l \<and> runnable k' t" if "cont k t = InAcquire l" "runnable k t" for t
    using exec_op_others [OF op, of t] that code new fork_not_runnable [OF k, of t] by fastforce
  have "locked (locks k' l) \<or> locks k' l = locks k l \<or> (\<exists>t. cont k' t = InAcquire l \<and> runnable k' t)"
  proof (cases op)
    case (KP s)
    then show ?thesis using op do_P_lock [of s k e k'] by simp
  next
    case (KAcquire m)
    then show ?thesis using op do_Acquire_locked [of m k e k' l] by (cases "l = m") auto
  next
    case (KRelease m)
    then show ?thesis using op q Release_wakes [OF k run, of m l] by auto
  next
    case (KWait c m)
    then have k': "k' = Wait c m k" using op by simp
    show ?thesis
    proof (cases "isHeldByCurrentThread m k")
      case True
      then show ?thesis
        using k' q Release_wakes [OF k run, of m l]
        by (auto simp: Wait_def Let_def runnable_def)
    qed (simp add: k' Wait_def)
  qed (use op in auto)
  then show "locked (locks k' l) \<or> (\<exists>t. cont k' t = InAcquire l \<and> runnable k' t) \<or>
      locks k' l = locks k l \<and> (\<forall>t. cont k t = InAcquire l \<longrightarrow> runnable k t \<longrightarrow> cont k' t = InAcquire l \<and> runnable k' t)"
    using keep by blast
qed

lemma lock_not_forgotten_Acquire:
  assumes nf: "lock_not_forgotten k" and cur: "cont k (currentThread k) = InAcquire m \<or> cont k (currentThread k) = InWait c m"
    and op: "do_Acquire m k = (e, k')"
  shows "lock_not_forgotten k'"
proof (rule lock_not_forgotten_mono [OF nf])
  fix l
  have "cont k' t = InAcquire l \<and> runnable k' t" if "cont k t = InAcquire l" "runnable k t" "l \<noteq> m" for t
    using do_Acquire_others [OF _ op, of t] that cur by (force simp: runnable_def)
  then show "locked (locks k' l) \<or> (\<exists>t. cont k' t = InAcquire l \<and> runnable k' t) \<or>
      locks k' l = locks k l \<and> (\<forall>t. cont k t = InAcquire l \<longrightarrow> runnable k t \<longrightarrow> cont k' t = InAcquire l \<and> runnable k' t)"
    using do_Acquire_locked [OF op, of l] by blast
qed

lemma lock_not_forgotten_same:
  assumes "lock_not_forgotten k" and "locks k' = locks k"
    and "\<And>t l. cont k t = InAcquire l \<Longrightarrow> runnable k t \<Longrightarrow> cont k' t = InAcquire l \<and> runnable k' t"
  shows "lock_not_forgotten k'"
  using lock_not_forgotten_mono [OF assms(1)] assms(2,3) by auto

lemma lock_not_forgotten_kstep:
  assumes "kstep k e k'" and k: "kinv k" and nf: "lock_not_forgotten k"
  shows "lock_not_forgotten k'"
  using assms(1)
proof (cases rule: kstep.cases)
  case (call op)
  then show ?thesis using lock_not_forgotten_call [OF nf k] by metis
next
  case resume
  show ?thesis
  proof (cases "\<exists>m c. cont k (currentThread k) = InAcquire m \<or> cont k (currentThread k) = InWait c m")
    case True
    then show ?thesis using resume(3) lock_not_forgotten_Acquire [OF nf] by (auto simp: resume_def)
  next
    case False
    then have "locks k' = locks k"
      using resume(3) do_P_lock [of _ k e k'] by (auto simp: resume_def split: cont.splits)
    moreover have "t \<noteq> currentThread k" if "cont k t = InAcquire l" for t l using False that by blast
    ultimately show ?thesis
      using lock_not_forgotten_same [OF nf] resume_others [OF resume(3)] by metis
  qed
next
  case dispatch
  then show ?thesis using lock_not_forgotten_same [OF nf] runnable_Sleep_switch by auto
next
  case (interrupt s)
  then show ?thesis using lock_not_forgotten_same [OF nf] runnable_sem_V by auto
qed

subsection \<open>Condition variables and barriers\<close>

lemma wake_all_effect:
  "n = length (conds k c) \<Longrightarrow> readyList (wake_all c n k) = readyList k @ conds k c \<and>
     conds (wake_all c n k) = (conds k)(c := []) \<and>
     tstatus (wake_all c n k) = (\<lambda>t. if t \<in> set (conds k c) then READY else tstatus k t)"
proof (induction n arbitrary: k)
  case 0
  then show ?case by (auto simp: fun_upd_idem)
next
  case (Suc n)
  then obtain t ts where "conds k c = t # ts" "n = length ts" by (cases "conds k c") auto
  with Suc.IH [of "ReadyToRun t (k\<lparr>conds := (conds k)(c := ts)\<rparr>)"] show ?case by (auto simp: fun_eq_iff)
qed

lemma release_loop_effect:
  "length (bar_queue (bars k b)) \<le> n \<Longrightarrow>
     readyList (release_loop b n k) = readyList k @ bar_queue (bars k b) \<and>
     bars (release_loop b n k) = (bars k)(b := (bars k b)\<lparr>bar_queue := [], blockCount := blockCount (bars k b) - int n\<rparr>) \<and>
     (\<forall>t. t \<notin> set (bar_queue (bars k b)) \<longrightarrow> tstatus (release_loop b n k) t = tstatus k t)"
proof (induction n arbitrary: k)
  case (Suc n)
  show ?case
  proof (cases "bar_queue (bars k b)")
    case Nil
    with Suc.IH [of "k\<lparr>bars := (bars k)(b := (bars k b)\<lparr>blockCount := blockCount (bars k b) - 1\<rparr>)\<rparr>"] show ?thesis
      by (auto simp: Let_def)
  next
    case (Cons t ts)
    let ?bar = "(bars k b)\<lparr>blockCount := blockCount (bars k b) - 1, bar_queue := ts\<rparr>"
    from Cons Suc.prems Suc.IH [of "ReadyToRun t (k\<lparr>bars := (bars k)(b := ?bar)\<rparr>)"] show ?thesis
      by (auto simp: Let_def)
  qed
qed (auto simp: fun_upd_idem)

definition bar_ok :: "ksync \<Rightarrow> (nat \<Rightarrow> int) \<Rightarrow> bool" where
  "bar_ok k n \<longleftrightarrow> (\<forall>b. 1 \<le> n b \<longrightarrow> blockUntil (bars k b) = n b \<and>
     blockCount (bars k b) = int (length (bar_queue (bars k b))) \<and> blockCount (bars k b) < n b)"

lemma block_effect:
  assumes "blockCount (bars k b) = int (length (bar_queue (bars k b)))"
  shows "blockCount (bars k b) + 1 < blockUntil (bars k b) \<Longrightarrow>
      readyList (block b k) = readyList k \<and> tstatus (block b k) (currentThread k) = BLOCKED \<and>
      bars (block b k) = (bars k)(b := (bars k b)\<lparr>blockCount := blockCount (bars k b) + 1,
        bar_queue := bar_queue (bars k b) @ [currentThread k]\<rparr>)"
    and "blockUntil (bars k b) \<le> blockCount (bars k b) + 1 \<Longrightarrow>
      readyList (block b k) = readyList k @ bar_queue (bars k b) \<and>
      bars (block b k) = (bars k)(b := (bars k b)\<lparr>bar_queue := [], blockCount := 0\<rparr>) \<and>
      (\<forall>t. t \<notin> set (bar_queue (bars k b)) \<longrightarrow> tstatus (block b k) t = tstatus k t)"
proof -
  assume "blockCount (bars k b) + 1 < blockUntil (bars k b)"
  then show "readyList (block b k) = readyList k \<and> tstatus (block b k) (currentThread k) = BLOCKED \<and>
      bars (block b k) = (bars k)(b := (bars k b)\<lparr>blockCount := blockCount (bars k b) + 1,
        bar_queue := bar_queue (bars k b) @ [currentThread k]\<rparr>)" by (simp add: block_def Let_def)
next
  let ?k = "k\<lparr>bars := (bars k)(b := (bars k b)\<lparr>blockCount := blockCount (bars k b) + 1\<rparr>)\<rparr>"
  assume le: "blockUntil (bars k b) \<le> blockCount (bars k b) + 1"
  have "length (bar_queue (bars ?k b)) \<le> nat (blockCount (bars k b) + 1)" using assms by simp
  from release_loop_effect [OF this] le assms show "readyList (block b k) = readyList k @ bar_queue (bars k b) \<and>
      bars (block b k) = (bars k)(b := (bars k b)\<lparr>bar_queue := [], blockCount := 0\<rparr>) \<and>
      (\<forall>t. t \<notin> set (bar_queue (bars k b)) \<longrightarrow> tstatus (block b k) t = tstatus k t)" by (simp add: block_def Let_def)
qed

lemma bar_ok_block: "bar_ok k n \<Longrightarrow> bar_ok (block b k) n"
proof (cases "1 \<le> n b")
  case False
  assume "bar_ok k n"
  moreover have "bars (release_loop b m k) c = bars k c" if "c \<noteq> b" for c m k
    using that by (induction m arbitrary: k) (auto simp: Let_def split: list.splits)
  then have "bars (block b k) c = bars k c" if "c \<noteq> b" for c using that by (simp add: block_def Let_def)
  ultimately show ?thesis using False by (auto simp: bar_ok_def) (metis False)+
next
  case True
  assume ok: "bar_ok k n"
  then have b: "blockCount (bars k b) = int (length (bar_queue (bars k b)))" "blockUntil (bars k b) = n b"
    using True by (auto simp: bar_ok_def)
  show ?thesis
    using block_effect [OF b(1)] ok b True
    by (cases "blockCount (bars k b) + 1 < n b") (auto simp: bar_ok_def)
qed

lemma kstep_bars:
  assumes "kstep k e k'"
  shows "bars k' = bars k \<or> (\<exists>b. bars k' = bars (block b k))"
  using assms
proof (cases rule: kstep.cases)
  case (call op)
  then show ?thesis
    using do_Acquire_frame [of _ k e k']
    by (cases op) (auto simp: do_P_def sem_P_def Wait_def Signal_def Broadcast_def Let_def split: if_splits list.splits)
next
  case resume
  then show ?thesis
    using do_Acquire_frame [of _ k e k']
    by (auto simp: resume_def do_P_def sem_P_def Let_def split: cont.splits if_splits)
qed auto

lemma bar_ok_kruns: "kruns k es k' \<Longrightarrow> bar_ok k n \<Longrightarrow> bar_ok k' n"
proof (induction rule: kruns.induct)
  case (runs_snoc k es k' e k'')
  have cong: "bars j = bars i \<Longrightarrow> bar_ok j n = bar_ok i n" for i j by (simp add: bar_ok_def)
  have "bar_ok k' n" using runs_snoc by blast
  then show ?case using kstep_bars [OF runs_snoc(2)] bar_ok_block [of k' n] cong by metis
qed simp

subsection \<open>Deleting finished threads\<close>

text \<open>A finished thread that nobody is going to delete.\<close>

definition leaked :: "ksync \<Rightarrow> nat \<Rightarrow> bool" where
  "leaked k t \<longleftrightarrow> cont k t = Finished \<and> t \<in> allocated k \<and> threadToBeDestroyed k \<noteq> Some t"

lemma alloc_sel [simp]:
  "allocated (wake_all c n k) = allocated k" "threadToBeDestroyed (wake_all c n k) = threadToBeDestroyed k"
  "allocated (release_loop b n k) = allocated k" "threadToBeDestroyed (release_loop b n k) = threadToBeDestroyed k"
  "allocated (Release l k) = allocated k" "threadToBeDestroyed (Release l k) = threadToBeDestroyed k"
  "allocated (sem_V s k) = allocated k" "threadToBeDestroyed (sem_V s k) = threadToBeDestroyed k"
  by (induction n arbitrary: k) (simp_all add: Release_def sem_V_def Let_def split: list.splits)

lemma leaked_Run: "leaked k t \<Longrightarrow> leaked (Run u k) t"
  by (auto simp: leaked_def Run_def Let_def split: option.splits)

lemma leaked_cong:
  "cont k' t = cont k t \<Longrightarrow> allocated k' = allocated k \<Longrightarrow> threadToBeDestroyed k' = threadToBeDestroyed k \<Longrightarrow>
     leaked k' t = leaked k t"
  by (simp add: leaked_def)

lemma leaked_Sleep_switch: "leaked k t \<Longrightarrow> leaked (Sleep_switch k) t"
  using leaked_Run [of "k\<lparr>readyList := _\<rparr>" t]
  by (auto simp: Sleep_switch_def FindNextToRun_def leaked_cong [of "k\<lparr>readyList := _\<rparr>" t k] split: list.splits)

lemma leaked_Yield: "leaked k t \<Longrightarrow> leaked (Yield k) t"
  by (auto simp: Yield_def FindNextToRun_def leaked_cong [of "ReadyToRun _ _" t k] intro!: leaked_Run split: list.splits)

lemma leaked_do_P: "leaked k t \<Longrightarrow> t \<noteq> currentThread k \<Longrightarrow> do_P s k = (e, k') \<Longrightarrow> leaked k' t"
  by (auto simp: do_P_def sem_P_def Let_def leaked_def split: if_splits)

lemma leaked_do_Acquire: "leaked k t \<Longrightarrow> t \<noteq> currentThread k \<Longrightarrow> do_Acquire l k = (e, k') \<Longrightarrow> leaked k' t"
  by (auto simp: do_Acquire_def Acquire_def Let_def leaked_def split: if_splits)

lemma leaked_exec_op:
  assumes t: "leaked k t" "t \<noteq> currentThread k" and new: "op \<noteq> KFork t" and op: "exec_op op k = (e, k')"
  shows "leaked k' t"
proof (cases op)
  case (KP s)
  then show ?thesis using op leaked_do_P [OF t] by simp
next
  case (KAcquire l)
  then show ?thesis using op leaked_do_Acquire [OF t] by simp
next
  case (KFork u)
  then show ?thesis using op t new by (auto simp: leaked_def Fork_def new_Thread_def)
next
  case KYield
  then show ?thesis using op leaked_Yield [OF t(1)] by auto
next
  case KFinish
  then show ?thesis using op t by (auto simp: leaked_def Finish_def)
qed (use op t in \<open>auto simp: leaked_def Wait_def Signal_def Broadcast_def block_def Let_def split: list.splits if_splits\<close>)

lemma leaked_kstep:
  assumes "kstep k e k'" and k: "kinv k" and t: "leaked k t"
  shows "leaked k' t"
  using assms(1)
proof (cases rule: kstep.cases)
  case (call op)
  then show ?thesis using leaked_exec_op [OF t _ _ call(4)] t by (force simp: leaked_def)
next
  case resume
  then have "t \<noteq> currentThread k" using k t by (auto simp: kinv_def life_ok_def leaked_def)
  then show ?thesis
    using resume(3) leaked_do_P [OF t] leaked_do_Acquire [OF t] t
    by (auto simp: resume_def split: cont.splits) (auto simp: leaked_def)
next
  case dispatch
  then show ?thesis using leaked_Sleep_switch t by simp
next
  case (interrupt s)
  then show ?thesis using t by (simp add: leaked_def)
qed

lemma leaked_kruns: "kruns k es k' \<Longrightarrow> kinv k \<Longrightarrow> leaked k t \<Longrightarrow> leaked k' t"
  by (induction rule: kruns.induct) (auto intro: leaked_kstep kinv_kruns)

subsection \<open>Concrete runs\<close>

datatype kact = Call kop | Resume | Dispatch | Irq nat

fun kact_step :: "kact \<Rightarrow> ksync \<Rightarrow> (event \<times> ksync) option" where
  "kact_step (Call op) k =
     (if tstatus k (currentThread k) = RUNNING \<and> cont k (currentThread k) = Code \<and>
         (case op of KFork t \<Rightarrow> t \<notin> allocated k | _ \<Rightarrow> True)
      then Some (exec_op op k) else None)"
| "kact_step Resume k =
     (if tstatus k (currentThread k) = RUNNING \<and> cont k (currentThread k) \<noteq> Code then Some (resume k) else None)"
| "kact_step Dispatch k =
     (if tstatus k (currentThread k) \<noteq> RUNNING \<and> readyList k \<noteq> [] then Some (Other, Sleep_switch k) else None)"
| "kact_step (Irq s) k = Some (Posted s, sem_V s k)"

fun kexec :: "kact list \<Rightarrow> ksync \<Rightarrow> (event list \<times> ksync) option" where
  "kexec [] k = Some ([], k)"
| "kexec (a # as) k =
     (case kact_step a k of None \<Rightarrow> None
      | Some (e, k') \<Rightarrow> map_option (\<lambda>(es, k''). (e # es, k'')) (kexec as k'))"

lemma kact_step_sound: "kact_step a k = Some (e, k') \<Longrightarrow> kstep k e k'"
  by (cases a) (auto intro: kstep.intros split: if_splits kop.splits)

lemma kexec_sound: "kexec as k = Some (es, k') \<Longrightarrow> kruns k es k'"
  by (induction as arbitrary: k es)
    (auto intro: kruns.runs_nil kruns_Cons kact_step_sound split: option.splits)

definition booted :: ksync where
  "booted = boot (\<lambda>_. 0) (\<lambda>_. None) (\<lambda>_. 2)"

lemma kinv_booted: "kinv booted"
  by (simp add: booted_def kinv_boot)

lemma kexec_booted: "kexec as booted = Some (es, k') \<Longrightarrow> kruns booted es k'"
  by (rule kexec_sound)

lemmas krun_defs = booted_def boot_def new_Semaphore_def new_Lock_def new_Barrier_def do_P_def sem_P_def sem_V_def
  do_Acquire_def Acquire_def Release_def isHeldByCurrentThread_def resume_def Yield_def FindNextToRun_def
  Sleep_switch_def Finish_def Fork_def new_Thread_def ReadyToRun_def Sleep_def set_cont_def Run_def block_def
  Wait_def Signal_def Broadcast_def Let_def

lemma sample_leak:
  "\<exists>es k. kexec [Call (KFork 1), Call (KFork 2), Call KYield, Call KFinish, Dispatch, Call KFinish, Dispatch] booted =
     Some (es, k) \<and> leaked k 1 \<and> currentThread k = 0 \<and> tstatus k 0 = RUNNING"
  by (simp add: krun_defs leaked_def)

lemma sample_lock:
  "\<exists>k. kexec [Call (KFork 1), Call (KAcquire 0), Call (KRelease 0), Call KYield, Call (KAcquire 0)] booted =
     Some ([Other, Acquired 0 0, Released 0 0, Other, Acquired 1 0], k)"
  by (simp add: krun_defs)

subsection \<open>The properties\<close>

lemma booted_inv: "kruns (boot v g n) es k \<Longrightarrow> (\<And>s. 0 \<le> v s) \<Longrightarrow> kinv k"
  using kinv_kruns kinv_boot by blast

lemma count_list_distinct: "distinct xs \<Longrightarrow> count_list xs x = (if x \<in> set xs then 1 else 0)"
  by (induction xs) auto

text \<open>
  C9: no thread is ever lost, run twice or queued twice. In every state that a run of the booted kernel
  reaches, a thread is on the ready list exactly once if it is ready and not at all
  otherwise; it is on a wait queue exactly once if it sleeps in the operation of that queue and not
  at all otherwise; only the current thread runs; and no queue holds a thread that has been deleted.
\<close>

theorem no_thread_lost:
  assumes "kruns (boot v g n) es k" and "\<And>s. 0 \<le> v s"
  shows "count_list (readyList k) t = (if tstatus k t = READY then 1 else 0) \<and>
    count_list (wq k w) t = (if tstatus k t = BLOCKED \<and> chan (cont k t) = Some w then 1 else 0) \<and>
    (tstatus k t = RUNNING \<longrightarrow> t = currentThread k) \<and>
    (t \<in> set (readyList k) \<union> set (wq k w) \<longrightarrow> t \<in> allocated k)"
proof (intro conjI impI)
  have k: "kinv k" using assms by (rule booted_inv)
  then have ok: "sched_ok (readyList k) (tstatus k) (cont k) (wq k) (currentThread k)"
    and life: "life_ok (tstatus k) (cont k) (allocated k) (threadToBeDestroyed k)" by (auto simp: kinv_def)
  show "count_list (readyList k) t = (if tstatus k t = READY then 1 else 0)"
    using sched_okD(1) [OF ok] sched_okD(2) [OF ok, of t] by (simp add: count_list_distinct)
  show "count_list (wq k w) t = (if tstatus k t = BLOCKED \<and> chan (cont k t) = Some w then 1 else 0)"
    using sched_okD(3) [OF ok, of w] sched_okD(4) [OF ok, of t w] by (simp add: count_list_distinct)
  show "tstatus k t = RUNNING \<Longrightarrow> t = currentThread k" using sched_okD(5) [OF ok] by simp
  show "t \<in> set (readyList k) \<union> set (wq k w) \<Longrightarrow> t \<in> allocated k"
    using sched_okD(2) [OF ok, of t] sched_okD(4) [OF ok, of t w] life by (force simp: life_ok_def)
qed

text \<open>Thread 1 sleeps on semaphore 0 while the main thread goes on.\<close>

lemma sample_sleep:
  "\<exists>k. kexec [Call (KFork 1), Call KYield, Call (KP 0), Dispatch] booted = Some ([Other, Other, Other, Other], k) \<and>
     tstatus k 1 = BLOCKED \<and> cont k 1 = InP 0 \<and> currentThread k = 0 \<and> sem_queue (sems k 0) = [1] \<and> tstatus k 0 = RUNNING"
  by (simp add: krun_defs)

theorem no_thread_lost_witness:
  "\<exists>k. kruns booted [Other, Other, Other, Other] k \<and> tstatus k 1 = BLOCKED \<and> count_list (wq k (WSem 0)) 1 = 1 \<and>
     count_list (readyList k) 1 = 0 \<and> 1 \<in> allocated k"
proof -
  obtain k where k: "kexec [Call (KFork 1), Call KYield, Call (KP 0), Dispatch] booted = Some ([Other, Other, Other, Other], k)"
    "tstatus k 1 = BLOCKED" "cont k 1 = InP 0" using sample_sleep by blast
  from k(1) have r: "kruns booted [Other, Other, Other, Other] k" by (rule kexec_booted)
  with no_thread_lost [of "\<lambda>_. 0" "\<lambda>_. None" "\<lambda>_. 2" "[Other, Other, Other, Other]" k 1 "WSem 0"] k show ?thesis
    by (auto simp: booted_def intro!: exI [of _ k])
qed

text \<open>
  C11: semaphores neither lose nor invent units. In every run of the booted kernel the value of a semaphore is its
  initial value plus the completed \<^verbatim>\<open>V\<close> minus the completed \<^verbatim>\<open>P\<close>, and it is never negative.
\<close>

theorem semaphore_conservation:
  assumes "kruns (boot v g n) es k" and "\<And>s. 0 \<le> v s"
  shows "sem_value (sems k s) = v s + int (count_list es (Posted s)) - int (count_list es (Passed s)) \<and>
    0 \<le> sem_value (sems k s)"
proof -
  have "sem_value (sems (boot v g n) s) = v s" by (simp add: boot_def new_Semaphore_def)
  then show ?thesis using kruns_value [OF assms(1), of s] kinv_sem_value [OF booted_inv [OF assms], of s] by simp
qed

lemma sample_sem:
  "\<exists>k. kexec [Call (KV 0), Irq 0, Call (KP 0)] booted = Some ([Posted 0, Posted 0, Passed 0], k) \<and> sem_value (sems k 0) = 1"
  by (simp add: krun_defs)

theorem semaphore_conservation_witness:
  "\<exists>k. kruns booted [Posted 0, Posted 0, Passed 0] k \<and> sem_value (sems k 0) = 0 + 2 - 1"
proof -
  obtain k where "kexec [Call (KV 0), Irq 0, Call (KP 0)] booted = Some ([Posted 0, Posted 0, Passed 0], k)"
    using sample_sem by blast
  then have "kruns booted [Posted 0, Posted 0, Passed 0] k" by (rule kexec_booted)
  with semaphore_conservation [of "\<lambda>_. 0" "\<lambda>_. None" "\<lambda>_. 2" "[Posted 0, Posted 0, Passed 0]" k 0] show ?thesis
    by (auto simp: booted_def)
qed

text \<open>
  C12: no wakeup on a semaphore is lost. While threads sleep in \<^verbatim>\<open>P\<close>, the value is at most the number of threads
  that have been woken inside \<^verbatim>\<open>P\<close> and will look at it again: a positive value is never left to
  sleeping threads only.
\<close>

theorem semaphore_no_lost_wakeup:
  assumes "kruns (boot v g n) es k" and "\<And>s. 0 \<le> v s" and "sem_queue (sems k s) \<noteq> []"
  shows "sem_value (sems k s) \<le> int (card {t. cont k t = InP s \<and> (tstatus k t = READY \<or> tstatus k t = RUNNING)})"
proof -
  have "none_forgotten k"
    using assms(1,2)
  proof (induction "boot v g n" es k rule: kruns.induct)
    case runs_nil
    then show ?case by (simp add: none_forgotten_def boot_def new_Semaphore_def)
  next
    case (runs_snoc es k e k')
    then show ?case using none_forgotten_kstep booted_inv by blast
  qed
  then show ?thesis using assms(3) by (simp add: none_forgotten_def woken_def runnable_def)
qed

lemma sample_wakeup:
  "\<exists>k. kexec [Call (KFork 1), Call (KFork 2), Call KYield, Call (KP 0), Dispatch, Call (KP 0), Dispatch, Irq 0] booted =
      Some ([Other, Other, Other, Other, Other, Other, Other, Posted 0], k) \<and>
     sem_queue (sems k 0) = [2] \<and> sem_value (sems k 0) = 1"
  by (simp add: krun_defs)

theorem semaphore_no_lost_wakeup_witness:
  "\<exists>es k. kruns booted es k \<and> sem_queue (sems k 0) = [2] \<and> sem_value (sems k 0) = 1 \<and>
     1 \<le> int (card {t. cont k t = InP 0 \<and> (tstatus k t = READY \<or> tstatus k t = RUNNING)})"
proof -
  obtain es k where k: "kexec [Call (KFork 1), Call (KFork 2), Call KYield, Call (KP 0), Dispatch, Call (KP 0), Dispatch, Irq 0] booted =
      Some (es, k)" "sem_queue (sems k 0) = [2]" "sem_value (sems k 0) = 1" using sample_wakeup by blast
  from k(1) have r: "kruns booted es k" by (rule kexec_booted)
  have "1 \<le> int (card {t. cont k t = InP 0 \<and> (tstatus k t = READY \<or> tstatus k t = RUNNING)})"
    using semaphore_no_lost_wakeup [of "\<lambda>_. 0" "\<lambda>_. None" "\<lambda>_. 2" es k 0] r k(2,3) by (simp add: booted_def)
  with r k(2,3) show ?thesis by blast
qed

text \<open>
  C10: locks exclude each other. Between an acquisition of a lock by one thread and a later acquisition by
  another thread, the first one has released it; this includes the acquisition at the end of
  \<^verbatim>\<open>Condition::Wait\<close> and the release at its start.
\<close>

theorem lock_mutual_exclusion:
  assumes "kruns k (Acquired t l # es @ [Acquired u l]) k'" and "t \<noteq> u"
  shows "Released t l \<in> set es"
proof (rule ccontr)
  assume no: "Released t l \<notin> set es"
  from assms(1) obtain k1 where k1: "kstep k (Acquired t l) k1" "kruns k1 (es @ [Acquired u l]) k'"
    using kruns_Cons_cases by blast
  from k1(2) obtain k2 where k2: "kruns k1 es k2" "kstep k2 (Acquired u l) k'"
    using kruns_append kruns_single by blast
  have "lock_state k1 l = (True, Some t)" using kstep_lock [OF k1(1), of l] by (simp add: lock_effect_def)
  from held_until_released [OF k2(1) this no] kstep_lock [OF k2(2), of l] assms(2) show False
    by (simp add: lock_allowed_def)
qed

theorem lock_mutual_exclusion_witness:
  "\<exists>k k'. kruns k (Acquired 0 0 # [Released 0 0, Other] @ [Acquired 1 0]) k' \<and> Released 0 0 \<in> set [Released 0 0, Other]"
proof -
  obtain k' where "kexec [Call (KFork 1), Call (KAcquire 0), Call (KRelease 0), Call KYield, Call (KAcquire 0)] booted =
      Some ([Other, Acquired 0 0, Released 0 0, Other, Acquired 1 0], k')" using sample_lock by blast
  from kruns_Cons_cases [OF kexec_booted [OF this]]
  obtain k where "kruns k (Acquired 0 0 # [Released 0 0, Other] @ [Acquired 1 0]) k'" by auto
  with lock_mutual_exclusion [OF this] show ?thesis by auto
qed

text \<open>
  C13: no wakeup on a lock is lost. Whenever threads sleep in \<^verbatim>\<open>Acquire\<close>, the lock is held or one of
  the threads inside \<^verbatim>\<open>Acquire\<close> is ready or running and will try again.
\<close>

theorem lock_no_lost_wakeup:
  assumes "kruns (boot v g n) es k" and "\<And>s. 0 \<le> v s" and "lock_queue (locks k l) \<noteq> []"
  shows "locked (locks k l) \<or> (\<exists>t. cont k t = InAcquire l \<and> (tstatus k t = READY \<or> tstatus k t = RUNNING))"
proof -
  have "lock_not_forgotten k"
    using assms(1,2)
  proof (induction "boot v g n" es k rule: kruns.induct)
    case runs_nil
    then show ?case by (simp add: lock_not_forgotten_def boot_def new_Lock_def)
  next
    case (runs_snoc es k e k')
    then show ?case using lock_not_forgotten_kstep booted_inv by blast
  qed
  then show ?thesis using assms(3) by (auto simp: lock_not_forgotten_def runnable_def)
qed

lemma sample_two_waiters:
  "\<exists>es k. kexec [Call (KFork 1), Call (KFork 2), Call (KAcquire 0), Call KYield, Call (KAcquire 0), Dispatch,
        Call (KAcquire 0), Dispatch, Call (KRelease 0)] booted = Some (es, k) \<and>
     lock_queue (locks k 0) = [2] \<and> \<not> locked (locks k 0)"
  by (simp add: krun_defs)

theorem lock_no_lost_wakeup_witness:
  "\<exists>es k. kruns booted es k \<and> lock_queue (locks k 0) = [2] \<and>
     (\<exists>t. cont k t = InAcquire 0 \<and> (tstatus k t = READY \<or> tstatus k t = RUNNING))"
proof -
  obtain es k where k: "kruns booted es k" "lock_queue (locks k 0) = [2]" "\<not> locked (locks k 0)"
    using sample_two_waiters kexec_booted by blast
  have "\<exists>t. cont k t = InAcquire 0 \<and> (tstatus k t = READY \<or> tstatus k t = RUNNING)"
    using lock_no_lost_wakeup [of "\<lambda>_. 0" "\<lambda>_. None" "\<lambda>_. 2" es k 0] k by (simp add: booted_def)
  with k show ?thesis by blast
qed


text \<open>
  C15: a barrier for \<open>n\<close> threads lets nobody pass before the last of them arrives, and then
  lets all of them pass. In every reachable state fewer than \<open>n\<close> threads wait; a call that
  makes them \<open>n\<close> makes all waiters ready, empties the barrier for the next round and does not sleep; any other
  call sleeps.
\<close>

theorem barrier_releases_together:
  assumes "kruns (boot v g n) es k" and "1 \<le> n b" and "\<And>s. 0 \<le> v s" and "tstatus k (currentThread k) = RUNNING"
  shows "int (length (bar_queue (bars k b))) < n b \<and>
    (if int (length (bar_queue (bars k b))) + 1 = n b
     then readyList (block b k) = readyList k @ bar_queue (bars k b) \<and> bar_queue (bars (block b k) b) = [] \<and>
          tstatus (block b k) (currentThread k) = RUNNING
     else readyList (block b k) = readyList k \<and> bar_queue (bars (block b k) b) = bar_queue (bars k b) @ [currentThread k] \<and>
          tstatus (block b k) (currentThread k) = BLOCKED)"
proof -
  have "bar_ok (boot v g n) n" by (simp add: bar_ok_def boot_def new_Barrier_def)
  then have "bar_ok k n" using bar_ok_kruns [OF assms(1)] by blast
  then have b: "blockCount (bars k b) = int (length (bar_queue (bars k b)))" "blockUntil (bars k b) = n b"
    "blockCount (bars k b) < n b" using assms(2) by (auto simp: bar_ok_def)
  have ok: "sched_ok (readyList k) (tstatus k) (cont k) (wq k) (currentThread k)"
    using booted_inv [OF assms(1,3)] by (simp add: kinv_def)
  have "currentThread k \<notin> set (bar_queue (bars k b))"
    using sched_okD(4) [OF ok, of "currentThread k" "WBar b"] assms(4) by simp
  then show ?thesis using block_effect [OF b(1)] b assms(4) by auto
qed

lemma sample_barrier:
  "\<exists>es k. kexec [Call (KFork 1), Call KYield, Call (KBarrier 0), Dispatch] booted = Some (es, k) \<and>
     bar_queue (bars k 0) = [1] \<and> tstatus k (currentThread k) = RUNNING \<and> readyList k = []"
  by (simp add: krun_defs)

theorem barrier_releases_together_witness:
  "\<exists>es k. kruns booted es k \<and> bar_queue (bars k 0) = [1] \<and> readyList (block 0 k) = [1] \<and>
     tstatus (block 0 k) (currentThread k) = RUNNING"
proof -
  obtain es k where k: "kruns booted es k" "bar_queue (bars k 0) = [1]" "tstatus k (currentThread k) = RUNNING"
    "readyList k = []" using sample_barrier kexec_booted by blast
  with barrier_releases_together [of "\<lambda>_. 0" "\<lambda>_. None" "\<lambda>_. 2" es k 0] show ?thesis by (auto simp: booted_def)
qed

text \<open>
  A finished thread can be leaked. \<^verbatim>\<open>Thread::Finish\<close> leaves the thread in \<^verbatim>\<open>threadToBeDestroyed\<close> for the next
  thread to delete, but a thread that starts for the first time does not pass through the code that
  does so. If it finishes too, it overwrites the variable; the first thread is then never deleted, whatever
  happens afterwards. The witness is a run in which two forked threads finish one after the other.
\<close>

lemma finished_thread_leaks:
  assumes "kruns (boot v g n) es k" and "\<And>s. 0 \<le> v s" and "kruns k es' k'"
    and "cont k t = Finished" and "t \<in> allocated k" and "threadToBeDestroyed k \<noteq> Some t"
  shows "cont k' t = Finished \<and> t \<in> allocated k'"
proof -
  have "leaked k t" using assms(4-6) by (simp add: leaked_def)
  then have "leaked k' t" using leaked_kruns [OF assms(3) booted_inv [OF assms(1,2)]] by blast
  then show ?thesis by (simp add: leaked_def)
qed

end
