(* ===== verification/Devices.thy ===== *)
theory Devices
  imports Complex_Main Interrupts Synch_Safety Byte_Order
begin

text \<open>
  The simulated devices: \<^verbatim>\<open>machine/timer.cc\<close>, \<^verbatim>\<open>machine/disk.cc\<close>, \<^verbatim>\<open>machine/console.cc\<close> and
  \<^verbatim>\<open>machine/network.cc\<close>, and the kernel functions they call when an interrupt occurs: the time slice
  (\<^verbatim>\<open>TimerInterruptHandler\<close> in \<^verbatim>\<open>threads/system.cc\<close>) and the \<^verbatim>\<open>V\<close> on a semaphore with which
  \<^verbatim>\<open>SynchDisk\<close>, the console test and the post office answer.

  The state of the devices and of the thread kernel is the component \<open>kern\<close> of the machine. What the
  host delivers is part of the state and not determined by the code: the random
  numbers, what successive polls of the keyboard and of the socket find, and the contents of an existing disk
  file. What the code sends to the host is recorded: the display and the packets put on the wire.
\<close>

subsection \<open>State\<close>

definition SectorsPerTrack :: int where "SectorsPerTrack = 32"
definition NumTracks :: int where "NumTracks = 32"
definition NumSectors :: int where "NumSectors = SectorsPerTrack * NumTracks"
definition RotationTime :: int where "RotationTime = 500"
definition SeekTime :: int where "SeekTime = 500"
definition ConsoleTime :: int where "ConsoleTime = 100"
definition NetworkTime :: int where "NetworkTime = 100"
definition TimerTicks :: int where "TimerTicks = 100"
definition MagicNumber :: "32 word" where "MagicNumber = 0x456789ab"
definition MagicSize :: nat where "MagicSize = 4"
definition MaxWireSize :: nat where "MaxWireSize = 64"

text \<open>\<^verbatim>\<open>sizeof(PacketHeader)\<close> is 12 on the configured host: two addresses and a length.\<close>

definition MaxPacketSize :: nat where "MaxPacketSize = MaxWireSize - 12"

lemmas device_consts =
  SectorsPerTrack_def NumTracks_def NumSectors_def RotationTime_def SeekTime_def ConsoleTime_def NetworkTime_def
  TimerTicks_def MagicSize_def MaxWireSize_def MaxPacketSize_def

record Timer =
  randomize :: bool

text \<open>\<open>dfile\<close> are the bytes of the UNIX file that holds the disk, \<open>done_sem\<close> the semaphore of \<^verbatim>\<open>SynchDisk\<close>.\<close>

record Disk =
  dfile :: "nat \<Rightarrow> 8 word"
  active :: bool
  lastSector :: int
  bufferInit :: int
  done_sem :: nat

record Console =
  putBusy :: bool
  incoming :: "8 word"
  readAvail_sem :: nat
  writeDone_sem :: nat

record PacketHeader =
  pkt_to :: int
  pkt_from :: int
  pkt_length :: nat

record Network =
  ident :: int
  chanceToWork :: real
  sendBusy :: bool
  inHdr :: PacketHeader
  inbox :: "8 word list"
  messageAvailable_sem :: nat
  messageSent_sem :: nat

record Host =
  randoms :: "nat \<Rightarrow> int"
  drawn :: nat
  keyboard :: "8 word option list"
  display :: "8 word list"
  socket_in :: "(PacketHeader \<times> 8 word list) option list"
  wire_out :: "(int \<times> PacketHeader \<times> 8 word list) list"

record devices =
  timer :: Timer
  disk :: Disk
  console :: Console
  network :: Network
  host :: Host
  ksyn :: ksync

type_synonym dev = "devices hw"

text \<open>\<^verbatim>\<open>EOF\<close> as a \<^verbatim>\<open>char\<close>.\<close>

definition EOF :: "8 word" where "EOF = - 1"

text \<open>The notification of the kernel: \<^verbatim>\<open>semaphore->V()\<close>.\<close>

definition notify :: "nat \<Rightarrow> dev \<Rightarrow> dev" where
  "notify sem s = s\<lparr>kern := (kern s)\<lparr>ksyn := sem_V sem (ksyn (kern s))\<rparr>\<rparr>"

definition Random :: "dev \<Rightarrow> int \<times> dev" where
  "Random s =
     (let h = host (kern s) in
      (randoms h (drawn h), s\<lparr>kern := (kern s)\<lparr>host := h\<lparr>drawn := Suc (drawn h)\<rparr>\<rparr>\<rparr>))"

subsection \<open>Timer\<close>

definition TimeOfNextInterrupt :: "dev \<Rightarrow> int \<times> dev" where
  "TimeOfNextInterrupt s =
     (if randomize (timer (kern s))
      then case Random s of (r, s) \<Rightarrow> (1 + r smod (TimerTicks * 2), s)
      else (TimerTicks, s))"

definition new_Timer :: "bool \<Rightarrow> dev \<Rightarrow> dev result" where
  "new_Timer doRandom s =
     (let s = s\<lparr>kern := (kern s)\<lparr>timer := \<lparr>randomize = doRandom\<rparr>\<rparr>\<rparr> in
      case TimeOfNextInterrupt s of (t, s) \<Rightarrow> Schedule TimerHandler 0 t TimerInt s)"

definition TimerInterruptHandler :: "dev \<Rightarrow> dev result" where
  "TimerInterruptHandler s = (if status s \<noteq> IdleMode then YieldOnReturn s else Inr s)"

definition TimerExpired :: "dev \<Rightarrow> dev result" where
  "TimerExpired s =
     (case TimeOfNextInterrupt s of (t, s) \<Rightarrow>
      rbind (Schedule TimerHandler 0 t TimerInt s) TimerInterruptHandler)"

subsection \<open>Disk\<close>

definition new_Disk :: "(nat \<Rightarrow> 8 word) option \<Rightarrow> nat \<Rightarrow> dev \<Rightarrow> dev result" where
  "new_Disk existing sem s =
     rbind (case existing of
              Some f \<Rightarrow> rbind (ASSERT (host_word HOST_IS_BIG_ENDIAN (mem_bytes f 0 MagicSize) = MagicNumber)) (\<lambda>_. Inr f)
            | None \<Rightarrow> Inr (mem_put (\<lambda>_. 0) 0 (host_bytes HOST_IS_BIG_ENDIAN MagicSize MagicNumber))) (\<lambda>f.
     Inr (s\<lparr>kern := (kern s)\<lparr>disk := \<lparr>dfile = f, active = False, lastSector = 0, bufferInit = 0, done_sem = sem\<rparr>\<rparr>\<rparr>))"

definition TimeToSeek :: "int \<Rightarrow> dev \<Rightarrow> int \<times> int" where
  "TimeToSeek newSector s =
     (let newTrack = newSector sdiv SectorsPerTrack;
          oldTrack = lastSector (disk (kern s)) sdiv SectorsPerTrack;
          seek = \<bar>newTrack - oldTrack\<bar> * SeekTime;
          over = (totalTicks (stats s) + seek) smod RotationTime;
          rotation = (if over > 0 then RotationTime - over else 0)
      in (seek, rotation))"

definition ModuloDiff :: "int \<Rightarrow> int \<Rightarrow> int" where
  "ModuloDiff to from =
     (let toOffset = to smod SectorsPerTrack; fromOffset = from smod SectorsPerTrack
      in ((toOffset - fromOffset) + SectorsPerTrack) smod SectorsPerTrack)"

definition ComputeLatency :: "int \<Rightarrow> bool \<Rightarrow> dev \<Rightarrow> int" where
  "ComputeLatency newSector writing s =
     (let (seek, rotation) = TimeToSeek newSector s;
          timeAfter = totalTicks (stats s) + seek + rotation;
          init = bufferInit (disk (kern s))
      in if \<not> writing \<and> seek = 0 \<and>
            (timeAfter - init) sdiv RotationTime > ModuloDiff newSector (init sdiv RotationTime)
         then RotationTime
         else seek + (rotation + ModuloDiff newSector (timeAfter sdiv RotationTime) * RotationTime) + RotationTime)"

definition UpdateLast :: "int \<Rightarrow> dev \<Rightarrow> dev" where
  "UpdateLast newSector s =
     (let (seek, rotate) = TimeToSeek newSector s;
          d = disk (kern s);
          d = (if seek \<noteq> 0 then d\<lparr>bufferInit := totalTicks (stats s) + seek + rotate\<rparr> else d)
      in s\<lparr>kern := (kern s)\<lparr>disk := d\<lparr>lastSector := newSector\<rparr>\<rparr>\<rparr>)"

definition sector_pos :: "int \<Rightarrow> nat" where
  "sector_pos n = nat (SectorSize * n) + MagicSize"

definition ReadRequest :: "int \<Rightarrow> dev \<Rightarrow> (8 word list \<times> dev) result" where
  "ReadRequest sectorNumber s =
     (let ticks = ComputeLatency sectorNumber False s; d = disk (kern s) in
      rbind (ASSERT (\<not> active d)) (\<lambda>_.
      rbind (ASSERT (0 \<le> sectorNumber \<and> sectorNumber < NumSectors)) (\<lambda>_.
      let data = mem_bytes (dfile d) (sector_pos sectorNumber) (nat SectorSize);
          s = UpdateLast sectorNumber (s\<lparr>kern := (kern s)\<lparr>disk := d\<lparr>active := True\<rparr>\<rparr>\<rparr>);
          s = s\<lparr>stats := (stats s)\<lparr>numDiskReads := numDiskReads (stats s) + 1\<rparr>\<rparr>
      in rbind (Schedule DiskDone 0 ticks DiskInt s) (\<lambda>s. Inr (data, s)))))"

definition WriteRequest :: "int \<Rightarrow> 8 word list \<Rightarrow> dev \<Rightarrow> dev result" where
  "WriteRequest sectorNumber data s =
     (let ticks = ComputeLatency sectorNumber True s; d = disk (kern s) in
      rbind (ASSERT (\<not> active d)) (\<lambda>_.
      rbind (ASSERT (0 \<le> sectorNumber \<and> sectorNumber < NumSectors)) (\<lambda>_.
      let d = d\<lparr>dfile := mem_put (dfile d) (sector_pos sectorNumber) (take (nat SectorSize) data), active := True\<rparr>;
          s = UpdateLast sectorNumber (s\<lparr>kern := (kern s)\<lparr>disk := d\<rparr>\<rparr>);
          s = s\<lparr>stats := (stats s)\<lparr>numDiskWrites := numDiskWrites (stats s) + 1\<rparr>\<rparr>
      in Schedule DiskDone 0 ticks DiskInt s)))"

definition HandleInterrupt :: "dev \<Rightarrow> dev result" where
  "HandleInterrupt s =
     (let d = disk (kern s) in
      Inr (notify (done_sem d) (s\<lparr>kern := (kern s)\<lparr>disk := d\<lparr>active := False\<rparr>\<rparr>\<rparr>)))"

subsection \<open>Console\<close>

definition new_Console :: "nat \<Rightarrow> nat \<Rightarrow> dev \<Rightarrow> dev result" where
  "new_Console ra wd s =
     Schedule ConsoleReadPoll 0 ConsoleTime ConsoleReadInt
       (s\<lparr>kern := (kern s)\<lparr>console := \<lparr>putBusy = False, incoming = EOF, readAvail_sem = ra, writeDone_sem = wd\<rparr>\<rparr>\<rparr>)"

text \<open>\<^verbatim>\<open>PollFile\<close> followed by \<^verbatim>\<open>Read\<close>: what the next poll of the keyboard finds.\<close>

definition poll_keyboard :: "dev \<Rightarrow> 8 word option \<times> dev" where
  "poll_keyboard s =
     (let h = host (kern s) in
      case keyboard h of
        [] \<Rightarrow> (None, s)
      | c # cs \<Rightarrow> (c, s\<lparr>kern := (kern s)\<lparr>host := h\<lparr>keyboard := cs\<rparr>\<rparr>\<rparr>))"

definition CheckCharAvail :: "dev \<Rightarrow> dev result" where
  "CheckCharAvail s =
     rbind (Schedule ConsoleReadPoll 0 ConsoleTime ConsoleReadInt s) (\<lambda>s.
     if incoming (console (kern s)) \<noteq> EOF then Inr s
     else case poll_keyboard s of
       (None, s) \<Rightarrow> Inr s
     | (Some c, s) \<Rightarrow>
         let s = s\<lparr>kern := (kern s)\<lparr>console := (console (kern s))\<lparr>incoming := c\<rparr>\<rparr>,
                   stats := (stats s)\<lparr>numConsoleCharsRead := numConsoleCharsRead (stats s) + 1\<rparr>\<rparr>
         in Inr (notify (readAvail_sem (console (kern s))) s))"

definition WriteDone :: "dev \<Rightarrow> dev result" where
  "WriteDone s =
     (let s = s\<lparr>kern := (kern s)\<lparr>console := (console (kern s))\<lparr>putBusy := False\<rparr>\<rparr>,
                stats := (stats s)\<lparr>numConsoleCharsWritten := numConsoleCharsWritten (stats s) + 1\<rparr>\<rparr>
      in Inr (notify (writeDone_sem (console (kern s))) s))"

definition GetChar :: "dev \<Rightarrow> 8 word \<times> dev" where
  "GetChar s =
     (incoming (console (kern s)), s\<lparr>kern := (kern s)\<lparr>console := (console (kern s))\<lparr>incoming := EOF\<rparr>\<rparr>\<rparr>)"

definition PutChar :: "8 word \<Rightarrow> dev \<Rightarrow> dev result" where
  "PutChar ch s =
     rbind (ASSERT (\<not> putBusy (console (kern s)))) (\<lambda>_.
     let h = host (kern s) in
     Schedule ConsoleWriteDone 0 ConsoleTime ConsoleWriteInt
       (s\<lparr>kern := (kern s)\<lparr>host := h\<lparr>display := display h @ [ch]\<rparr>,
                           console := (console (kern s))\<lparr>putBusy := True\<rparr>\<rparr>\<rparr>))"

subsection \<open>Network\<close>

definition new_Network :: "int \<Rightarrow> real \<Rightarrow> nat \<Rightarrow> nat \<Rightarrow> PacketHeader \<Rightarrow> 8 word list \<Rightarrow> dev \<Rightarrow> dev result" where
  "new_Network addr reliability ma ms garbage garbage_box s =
     Schedule NetworkReadPoll 0 NetworkTime NetworkRecvInt
       (s\<lparr>kern := (kern s)\<lparr>network :=
          \<lparr>ident = addr,
           chanceToWork = (if reliability < 0 then 0 else if reliability > 1 then 1 else reliability),
           sendBusy = False, inHdr = garbage\<lparr>pkt_length := 0\<rparr>, inbox = garbage_box,
           messageAvailable_sem = ma, messageSent_sem = ms\<rparr>\<rparr>\<rparr>)"

definition poll_socket :: "dev \<Rightarrow> (PacketHeader \<times> 8 word list) option \<times> dev" where
  "poll_socket s =
     (let h = host (kern s) in
      case socket_in h of
        [] \<Rightarrow> (None, s)
      | p # ps \<Rightarrow> (p, s\<lparr>kern := (kern s)\<lparr>host := h\<lparr>socket_in := ps\<rparr>\<rparr>\<rparr>))"

definition CheckPktAvail :: "dev \<Rightarrow> dev result" where
  "CheckPktAvail s =
     rbind (Schedule NetworkReadPoll 0 NetworkTime NetworkRecvInt s) (\<lambda>s.
     if pkt_length (inHdr (network (kern s))) \<noteq> 0 then Inr s
     else case poll_socket s of
       (None, s) \<Rightarrow> Inr s
     | (Some (hdr, data), s) \<Rightarrow>
         let n = (network (kern s))\<lparr>inHdr := hdr\<rparr> in
         rbind (ASSERT (pkt_to hdr = ident n \<and> pkt_length hdr \<le> MaxPacketSize)) (\<lambda>_.
         let n = n\<lparr>inbox := take (pkt_length hdr) data @ drop (pkt_length hdr) (inbox n)\<rparr>;
             s = s\<lparr>kern := (kern s)\<lparr>network := n\<rparr>,
                   stats := (stats s)\<lparr>numPacketsRecvd := numPacketsRecvd (stats s) + 1\<rparr>\<rparr>
         in Inr (notify (messageAvailable_sem n) s)))"

definition SendDone :: "dev \<Rightarrow> dev result" where
  "SendDone s =
     (let s = s\<lparr>kern := (kern s)\<lparr>network := (network (kern s))\<lparr>sendBusy := False\<rparr>\<rparr>,
                stats := (stats s)\<lparr>numPacketsSent := numPacketsSent (stats s) + 1\<rparr>\<rparr>
      in Inr (notify (messageSent_sem (network (kern s))) s))"

definition Send :: "PacketHeader \<Rightarrow> 8 word list \<Rightarrow> dev \<Rightarrow> dev result" where
  "Send hdr data s =
     (let n = network (kern s) in
      rbind (ASSERT (\<not> sendBusy n \<and> pkt_length hdr > 0 \<and> pkt_length hdr \<le> MaxPacketSize \<and> pkt_from hdr = ident n)) (\<lambda>_.
      rbind (Schedule NetworkSendDone 0 NetworkTime NetworkSendInt s) (\<lambda>s.
      case Random s of (r, s) \<Rightarrow>
        if real_of_int (r smod 100) \<ge> chanceToWork n * 100 then Inr s
        else let h = host (kern s) in
          Inr (s\<lparr>kern := (kern s)\<lparr>host :=
                  h\<lparr>wire_out := wire_out h @ [(pkt_to hdr, hdr, take (pkt_length hdr) data)]\<rparr>\<rparr>\<rparr>))))"

definition Receive :: "dev \<Rightarrow> (PacketHeader \<times> 8 word list) \<times> dev" where
  "Receive s =
     (let n = network (kern s); hdr = inHdr n in
      ((hdr, if pkt_length hdr \<noteq> 0 then take (pkt_length hdr) (inbox n) else []),
       s\<lparr>kern := (kern s)\<lparr>network := n\<lparr>inHdr := hdr\<lparr>pkt_length := 0\<rparr>\<rparr>\<rparr>\<rparr>))"

subsection \<open>The interrupt handlers of the devices\<close>

fun dev_call :: "VoidFunctionPtr \<Rightarrow> int \<Rightarrow> dev \<Rightarrow> dev result" where
  "dev_call TimerHandler a s = TimerExpired s"
| "dev_call DiskDone a s = HandleInterrupt s"
| "dev_call ConsoleReadPoll a s = CheckCharAvail s"
| "dev_call ConsoleWriteDone a s = WriteDone s"
| "dev_call NetworkReadPoll a s = CheckPktAvail s"
| "dev_call NetworkSendDone a s = SendDone s"

text \<open>
  What the handlers need of the host: \<^verbatim>\<open>rand\<close> returns no negative number, and every packet on the socket is
  addressed to this machine and short enough.
\<close>

definition dev_ok :: "devices \<Rightarrow> bool" where
  "dev_ok d \<longleftrightarrow>
     (\<forall>i. 0 \<le> randoms (host d) i) \<and>
     (\<forall>hdr data. Some (hdr, data) \<in> set (socket_in (host d)) \<longrightarrow>
        pkt_to hdr = ident (network d) \<and> pkt_length hdr \<le> MaxPacketSize)"

text \<open>The handlers of the devices satisfy the contract of the interrupt simulation.\<close>

definition handler_ok :: "dev \<Rightarrow> dev result \<Rightarrow> bool" where
  "handler_ok s r \<longleftrightarrow> (\<exists>s'. r = Inr s' \<and> dev_ok (kern s') \<and> pend_wf s' \<and> due s' = due s \<and> level s' = level s \<and>
     registers s' = registers s \<and> totalTicks (stats s') = totalTicks (stats s))"

lemma handler_ok_Inr:
  "dev_ok (kern s') \<Longrightarrow> pending s' = pending s \<Longrightarrow> pend_wf s \<Longrightarrow> level s' = level s \<Longrightarrow> registers s' = registers s \<Longrightarrow>
     totalTicks (stats s') = totalTicks (stats s) \<Longrightarrow> handler_ok s (Inr s')"
  by (simp add: handler_ok_def pend_wf_def due_def)

lemma handler_ok_Schedule:
  assumes "pend_wf s" and "0 < t"
    and "\<And>ps. pend_wf (s\<lparr>pending := ps\<rparr>) \<Longrightarrow> handler_ok (s\<lparr>pending := ps\<rparr>) (f (s\<lparr>pending := ps\<rparr>))"
  shows "handler_ok s (rbind (Schedule h a t ty s) f)"
proof -
  obtain s' where s': "Schedule h a t ty s = Inr s'" "pend_wf s'" "due s' = due s" "s' = s\<lparr>pending := pending s'\<rparr>"
    using Schedule_ok [OF assms(1,2)] by blast
  have sel: "level s' = level s" "registers s' = registers s" "stats s' = stats s"
    by (subst s'(4), simp)+
  have "handler_ok s' (f s')" using assms(3) [of "pending s'"] s'(2) by (simp flip: s'(4))
  then show ?thesis using s'(3) sel by (simp add: handler_ok_def s'(1))
qed

lemma dev_ok_notify [simp]: "dev_ok (kern (notify sem s)) = dev_ok (kern s)"
  by (simp add: notify_def dev_ok_def)

lemma notify_sel [simp]:
  "pending (notify sem s) = pending s" "level (notify sem s) = level s" "registers (notify sem s) = registers s"
  "stats (notify sem s) = stats s" "host (kern (notify sem s)) = host (kern s)"
  "network (kern (notify sem s)) = network (kern s)" "disk (kern (notify sem s)) = disk (kern s)"
  "console (kern (notify sem s)) = console (kern s)" "ksyn (kern (notify sem s)) = sem_V sem (ksyn (kern s))"
  by (simp_all add: notify_def)

lemma TimeOfNextInterrupt_ok:
  assumes "dev_ok (kern s)"
  shows "\<exists>t k. TimeOfNextInterrupt s = (t, s\<lparr>kern := k\<rparr>) \<and> 0 < t \<and> t \<le> 2 * TimerTicks \<and> dev_ok k"
proof (cases "randomize (timer (kern s))")
  case True
  let ?r = "randoms (host (kern s)) (drawn (host (kern s)))"
  let ?k = "(kern s)\<lparr>host := (host (kern s))\<lparr>drawn := Suc (drawn (host (kern s)))\<rparr>\<rparr>"
  have "?r smod 200 = ?r mod 200" using assms by (intro smod_nonneg) (simp_all add: dev_ok_def)
  moreover have "0 \<le> ?r mod 200" "?r mod 200 < 200" by simp_all
  ultimately have "TimeOfNextInterrupt s = (1 + ?r mod 200, s\<lparr>kern := ?k\<rparr>)" "0 < 1 + ?r mod 200"
    "1 + ?r mod 200 \<le> 2 * TimerTicks"
    using True by (simp_all add: TimeOfNextInterrupt_def Random_def Let_def TimerTicks_def)
  moreover have "dev_ok ?k" using assms by (simp add: dev_ok_def)
  ultimately show ?thesis by blast
next
  case False
  have "s\<lparr>kern := kern s\<rparr> = s" by simp
  with False assms show ?thesis
    by (intro exI [of _ TimerTicks] exI [of _ "kern s"]) (simp add: TimeOfNextInterrupt_def TimerTicks_def)
qed

lemma TimerExpired_ok:
  assumes "dev_ok (kern s)" and "pend_wf s" and "inHandler s"
  shows "handler_ok s (TimerExpired s)"
proof -
  obtain t k where t: "TimeOfNextInterrupt s = (t, s\<lparr>kern := k\<rparr>)" "0 < t" "dev_ok k"
    using TimeOfNextInterrupt_ok [OF assms(1)] by blast
  let ?s = "s\<lparr>kern := k\<rparr>"
  have wf: "pend_wf ?s" using assms(2) by (simp add: pend_wf_def)
  have "handler_ok ?s (TimerExpired s)"
    unfolding TimerExpired_def t prod.case
    by (rule handler_ok_Schedule [OF wf t(2)])
      (use assms(3) t(3) in \<open>auto simp: TimerInterruptHandler_def YieldOnReturn_def intro!: handler_ok_Inr\<close>)
  then show ?thesis by (simp add: handler_ok_def due_def)
qed

lemma HandleInterrupt_ok: "dev_ok (kern s) \<Longrightarrow> pend_wf s \<Longrightarrow> handler_ok s (HandleInterrupt s)"
  by (auto simp: HandleInterrupt_def Let_def dev_ok_def intro!: handler_ok_Inr)

lemma CheckCharAvail_ok:
  assumes "dev_ok (kern s)" and "pend_wf s"
  shows "handler_ok s (CheckCharAvail s)"
  unfolding CheckCharAvail_def
proof (rule handler_ok_Schedule [OF assms(2)])
  fix ps
  let ?s = "s\<lparr>pending := ps\<rparr>"
  assume "pend_wf ?s"
  with assms(1) show "handler_ok ?s (if incoming (console (kern ?s)) \<noteq> EOF then Inr ?s
      else case poll_keyboard ?s of (None, s) \<Rightarrow> Inr s
      | (Some c, s) \<Rightarrow>
         let s = s\<lparr>kern := (kern s)\<lparr>console := (console (kern s))\<lparr>incoming := c\<rparr>\<rparr>,
                   stats := (stats s)\<lparr>numConsoleCharsRead := numConsoleCharsRead (stats s) + 1\<rparr>\<rparr>
         in Inr (notify (readAvail_sem (console (kern s))) s))"
    by (auto simp: poll_keyboard_def Let_def dev_ok_def split: list.splits option.splits intro!: handler_ok_Inr)
qed (simp add: ConsoleTime_def)

lemma WriteDone_ok: "dev_ok (kern s) \<Longrightarrow> pend_wf s \<Longrightarrow> handler_ok s (WriteDone s)"
  by (auto simp: WriteDone_def Let_def dev_ok_def intro!: handler_ok_Inr)

lemma CheckPktAvail_ok:
  assumes "dev_ok (kern s)" and "pend_wf s"
  shows "handler_ok s (CheckPktAvail s)"
  unfolding CheckPktAvail_def
proof (rule handler_ok_Schedule [OF assms(2)])
  fix ps
  let ?s = "s\<lparr>pending := ps\<rparr>"
  assume wf: "pend_wf ?s"
  show "handler_ok ?s (if pkt_length (inHdr (network (kern ?s))) \<noteq> 0 then Inr ?s
     else case poll_socket ?s of
       (None, s) \<Rightarrow> Inr s
     | (Some (hdr, data), s) \<Rightarrow>
         let n = (network (kern s))\<lparr>inHdr := hdr\<rparr> in
         rbind (ASSERT (pkt_to hdr = ident n \<and> pkt_length hdr \<le> MaxPacketSize)) (\<lambda>_.
         let n = n\<lparr>inbox := take (pkt_length hdr) data @ drop (pkt_length hdr) (inbox n)\<rparr>;
             s = s\<lparr>kern := (kern s)\<lparr>network := n\<rparr>,
                   stats := (stats s)\<lparr>numPacketsRecvd := numPacketsRecvd (stats s) + 1\<rparr>\<rparr>
         in Inr (notify (messageAvailable_sem n) s)))"
  proof (cases "socket_in (host (kern s))")
    case Nil
    then show ?thesis using wf assms(1) by (auto simp: poll_socket_def intro!: handler_ok_Inr)
  next
    case (Cons p rest)
    have rest: "dev_ok ((kern s)\<lparr>host := (host (kern s))\<lparr>socket_in := rest\<rparr>\<rparr>)"
      using assms(1) Cons by (auto simp: dev_ok_def)
    have "pkt_to hdr = ident (network (kern s)) \<and> pkt_length hdr \<le> MaxPacketSize" if "p = Some (hdr, data)" for hdr data
      using assms(1) Cons that by (auto simp: dev_ok_def)
    with rest show ?thesis
      using wf assms(1) Cons
      by (cases p) (auto simp: poll_socket_def Let_def dev_ok_def split: prod.splits intro!: handler_ok_Inr)
  qed
qed (simp add: NetworkTime_def)

lemma SendDone_ok: "dev_ok (kern s) \<Longrightarrow> pend_wf s \<Longrightarrow> handler_ok s (SendDone s)"
  by (auto simp: SendDone_def Let_def dev_ok_def intro!: handler_ok_Inr)

interpretation device_handlers: interrupt_handlers dev_call dev_ok
proof
  fix s :: dev and h a
  assume "dev_ok (kern s)" "pend_wf s" "level s = IntOff" "inHandler s"
  then have "handler_ok s (dev_call h a s)"
    by (cases h) (simp_all add: TimerExpired_ok HandleInterrupt_ok CheckCharAvail_ok WriteDone_ok CheckPktAvail_ok SendDone_ok)
  with \<open>level s = IntOff\<close> show "\<exists>s'. dev_call h a s = Inr s' \<and> dev_ok (kern s') \<and> pend_wf s' \<and> due s' = due s \<and>
      level s' = IntOff \<and> registers s' = registers s \<and> totalTicks (stats s') = totalTicks (stats s)"
    by (simp add: handler_ok_def)
qed

subsection \<open>The timing and the contents of the disk\<close>

definition disk_ok :: "dev \<Rightarrow> bool" where
  "disk_ok s \<longleftrightarrow> 0 \<le> totalTicks (stats s) \<and> 0 \<le> lastSector (disk (kern s)) \<and>
     lastSector (disk (kern s)) < NumSectors \<and> 0 \<le> bufferInit (disk (kern s))"

lemma TimeToSeek_facts:
  assumes "disk_ok s" and "0 \<le> n" and "n < NumSectors" and "TimeToSeek n s = (seek, rot)"
  shows "0 \<le> seek" "seek \<le> 31 * SeekTime" "0 \<le> rot" "rot < RotationTime"
    "(totalTicks (stats s) + seek + rot) mod RotationTime = 0"
proof -
  let ?l = "lastSector (disk (kern s))" and ?T = "totalTicks (stats s)"
  have "n sdiv 32 = n div 32" "?l sdiv 32 = ?l div 32"
    using assms by (auto simp: disk_ok_def device_consts intro!: sdiv_nonneg)
  moreover have "0 \<le> n div 32" "n div 32 \<le> 31" "0 \<le> ?l div 32" "?l div 32 \<le> 31"
    using assms by (auto simp: disk_ok_def device_consts)
  moreover from calculation have "\<bar>n div 32 - ?l div 32\<bar> \<le> 31" by linarith
  ultimately have seek: "seek = \<bar>n div 32 - ?l div 32\<bar> * 500" "0 \<le> seek" "seek \<le> 31 * 500"
    using assms(4) by (auto simp: TimeToSeek_def Let_def device_consts)
  define x where "x = ?T + seek"
  have "0 \<le> x" using seek(2) assms(1) by (simp add: x_def disk_ok_def)
  then have "x smod 500 = x mod 500" by (rule smod_nonneg) simp
  then have rot: "rot = (if x mod 500 > 0 then 500 - x mod 500 else 0)"
    using assms(4) by (auto simp: TimeToSeek_def Let_def device_consts x_def)
  have m: "0 \<le> x mod 500" "x mod 500 < 500" by simp_all
  show "0 \<le> seek" "seek \<le> 31 * SeekTime" "0 \<le> rot" "rot < RotationTime"
    using seek rot m by (auto simp: device_consts)
  have "(x + rot) mod 500 = 0"
  proof (cases "x mod 500 > 0")
    case True
    then have "x + rot = (x - x mod 500) + 500" using rot by simp
    then have "x + rot = (x div 500 + 1) * 500" by (simp add: minus_mod_eq_mult_div)
    then show ?thesis by simp
  next
    case False
    then show ?thesis using rot m(1) by simp
  qed
  then show "(?T + seek + rot) mod RotationTime = 0" by (simp add: x_def device_consts)
qed

lemma ModuloDiff_facts:
  assumes "0 \<le> t" and "0 \<le> f"
  shows "0 \<le> ModuloDiff t f" "ModuloDiff t f \<le> 31" "(f + ModuloDiff t f) mod 32 = t mod 32"
proof -
  have "t smod 32 = t mod 32" "f smod 32 = f mod 32" using assms by (auto intro!: smod_nonneg)
  moreover have "0 \<le> t mod 32" "t mod 32 < 32" "0 \<le> f mod 32" "f mod 32 < 32" by simp_all
  then have "(t mod 32 - f mod 32 + 32) smod 32 = (t mod 32 - f mod 32 + 32) mod 32"
    by (intro smod_nonneg) linarith+
  ultimately have m: "ModuloDiff t f = (t mod 32 - f mod 32 + 32) mod 32"
    by (simp add: ModuloDiff_def device_consts Let_def)
  show "0 \<le> ModuloDiff t f" "ModuloDiff t f \<le> 31" unfolding m by simp_all
  have "f + (t mod 32 - f mod 32 + 32) = (f - f mod 32) + 32 + t mod 32" by (simp only: algebra_simps)
  then have "f + (t mod 32 - f mod 32 + 32) = 32 * (f div 32 + 1) + t mod 32" by (simp add: minus_mod_eq_mult_div)
  then have "(f + (t mod 32 - f mod 32 + 32)) mod 32 = (32 * (f div 32 + 1) + t mod 32) mod 32" by (rule arg_cong)
  then show "(f + ModuloDiff t f) mod 32 = t mod 32" unfolding m mod_add_right_eq
    by (simp only: mod_mult_self4 mod_mod_trivial)
qed

lemma ComputeLatency_facts:
  assumes "disk_ok s" and "0 \<le> n" and "n < NumSectors"
  shows "RotationTime \<le> ComputeLatency n writing s" "ComputeLatency n writing s \<le> 31 * SeekTime + 33 * RotationTime - 1"
    "writing \<or> ComputeLatency n writing s \<noteq> RotationTime \<Longrightarrow>
      (totalTicks (stats s) + ComputeLatency n writing s) mod RotationTime = 0 \<and>
      (totalTicks (stats s) + ComputeLatency n writing s) div RotationTime mod SectorsPerTrack = (n + 1) mod SectorsPerTrack"
proof -
  obtain seek rot where sr: "TimeToSeek n s = (seek, rot)" by fastforce
  note f = TimeToSeek_facts [OF assms sr]
  define q where "q = (totalTicks (stats s) + seek + rot) div 500"
  have T: "totalTicks (stats s) + seek + rot = 500 * q" using f(5) by (auto simp: q_def RotationTime_def)
  moreover have "0 \<le> totalTicks (stats s)" using assms(1) by (simp add: disk_ok_def)
  ultimately have q: "0 \<le> q" "(totalTicks (stats s) + seek + rot) sdiv 500 = q"
    using f(1,3) by (simp_all add: sdiv_nonneg)
  note m = ModuloDiff_facts [OF assms(2) q(1)]
  define L where "L = seek + (rot + ModuloDiff n q * 500) + 500"
  have L: "ComputeLatency n writing s = L \<or> \<not> writing \<and> ComputeLatency n writing s = 500"
    using q(2) by (auto simp: ComputeLatency_def sr Let_def RotationTime_def L_def)
  have bnd: "500 \<le> L" "L \<le> 31 * 500 + 33 * 500 - 1" using f m by (simp_all add: L_def device_consts)
  then show "RotationTime \<le> ComputeLatency n writing s" "ComputeLatency n writing s \<le> 31 * SeekTime + 33 * RotationTime - 1"
    using L by (auto simp: device_consts)
  have fin: "totalTicks (stats s) + L = 500 * (q + ModuloDiff n q + 1)" using T by (simp add: L_def algebra_simps)
  have "(q + ModuloDiff n q + 1) mod 32 = (n + 1) mod 32" using m(3) by (metis mod_add_left_eq)
  then show "writing \<or> ComputeLatency n writing s \<noteq> RotationTime \<Longrightarrow>
      (totalTicks (stats s) + ComputeLatency n writing s) mod RotationTime = 0 \<and>
      (totalTicks (stats s) + ComputeLatency n writing s) div RotationTime mod SectorsPerTrack = (n + 1) mod SectorsPerTrack"
    using L fin by (auto simp: device_consts)
qed

lemma UpdateLast_facts:
  assumes "disk_ok s" and "0 \<le> n" and "n < NumSectors"
  shows "disk_ok (UpdateLast n s)" "dfile (disk (kern (UpdateLast n s))) = dfile (disk (kern s))"
    "active (disk (kern (UpdateLast n s))) = active (disk (kern s))" "stats (UpdateLast n s) = stats s"
proof -
  obtain seek rot where sr: "TimeToSeek n s = (seek, rot)" by fastforce
  note f = TimeToSeek_facts [OF assms sr]
  show "disk_ok (UpdateLast n s)" "dfile (disk (kern (UpdateLast n s))) = dfile (disk (kern s))"
    "active (disk (kern (UpdateLast n s))) = active (disk (kern s))" "stats (UpdateLast n s) = stats s"
    using assms f by (auto simp: UpdateLast_def sr disk_ok_def Let_def)
qed

lemma WriteRequest_facts:
  assumes "disk_ok s" and "0 \<le> n" and "n < NumSectors" and "\<not> active (disk (kern s))"
  shows "\<exists>s'. WriteRequest n data s = Inr s' \<and> disk_ok s' \<and> active (disk (kern s')) \<and>
    dfile (disk (kern s')) = mem_put (dfile (disk (kern s))) (sector_pos n) (take 128 data)"
proof -
  let ?s1 = "s\<lparr>kern := (kern s)\<lparr>disk := (disk (kern s))\<lparr>dfile :=
    mem_put (dfile (disk (kern s))) (sector_pos n) (take 128 data), active := True\<rparr>\<rparr>\<rparr>"
  have "disk_ok ?s1" using assms(1) by (simp add: disk_ok_def)
  note u = UpdateLast_facts [OF this assms(2,3)]
  have "0 < ComputeLatency n True s" using ComputeLatency_facts(1) [OF assms(1-3), of True] by (simp add: RotationTime_def)
  with u assms(2-4) show ?thesis by (simp add: WriteRequest_def Schedule_def Let_def disk_ok_def)
qed

lemma ReadRequest_facts:
  assumes "disk_ok s" and "0 \<le> n" and "n < NumSectors" and "\<not> active (disk (kern s))"
  shows "\<exists>s'. ReadRequest n s = Inr (mem_bytes (dfile (disk (kern s))) (sector_pos n) 128, s') \<and> disk_ok s' \<and>
    active (disk (kern s')) \<and> dfile (disk (kern s')) = dfile (disk (kern s))"
proof -
  let ?s1 = "s\<lparr>kern := (kern s)\<lparr>disk := (disk (kern s))\<lparr>active := True\<rparr>\<rparr>\<rparr>"
  have "disk_ok ?s1" using assms(1) by (simp add: disk_ok_def)
  note u = UpdateLast_facts [OF this assms(2,3)]
  have "0 < ComputeLatency n False s" using ComputeLatency_facts(1) [OF assms(1-3), of False] by (simp add: RotationTime_def)
  with u assms(2-4) show ?thesis by (simp add: ReadRequest_def Schedule_def Let_def disk_ok_def)
qed

lemma HandleInterrupt_facts:
  "\<exists>s'. HandleInterrupt s = Inr s' \<and> \<not> active (disk (kern s')) \<and> dfile (disk (kern s')) = dfile (disk (kern s)) \<and>
     disk_ok s' = disk_ok s"
  by (simp add: HandleInterrupt_def Let_def disk_ok_def)

lemma sector_disjoint:
  assumes "0 \<le> n" "0 \<le> m" "n \<noteq> m" "length data = 128"
  shows "mem_bytes (mem_put f (sector_pos n) data) (sector_pos m) 128 = mem_bytes f (sector_pos m) 128"
proof -
  have "sector_pos m + i < sector_pos n \<or> sector_pos n + length data \<le> sector_pos m + i" if "i < 128" for i
    using assms that unfolding sector_pos_def SectorSize_def by (cases "n < m") (simp_all add: nat_mult_distrib, linarith+)
  then show ?thesis by (simp add: mem_bytes_def mem_put_other)
qed

definition sample_dev :: dev where
  "sample_dev =
     \<lparr>registers = (\<lambda>_. 0), mainMemory = (\<lambda>_. 0), tlb = None, pageTable = None, pageTables = (\<lambda>_. []), pageTableSize = 0,
      singleStep = False, level = IntOff, pending = [(50, new_PendingInterrupt DiskDone 0 50 DiskInt)], inHandler = False,
      yieldOnReturn = False, status = SystemMode, stats = new_Statistics\<lparr>totalTicks := 45\<rparr>,
      kern = \<lparr>timer = \<lparr>randomize = False\<rparr>,
        disk = \<lparr>dfile = (\<lambda>_. 0), active = False, lastSector = 0, bufferInit = 0, done_sem = 0\<rparr>,
        console = \<lparr>putBusy = False, incoming = EOF, readAvail_sem = 1, writeDone_sem = 2\<rparr>,
        network = \<lparr>ident = 0, chanceToWork = 1, sendBusy = False,
          inHdr = \<lparr>pkt_to = 0, pkt_from = 0, pkt_length = 0\<rparr>, inbox = [], messageAvailable_sem = 3, messageSent_sem = 4\<rparr>,
        host = \<lparr>randoms = (\<lambda>_. 7), drawn = 0, keyboard = [], display = [], socket_in = [], wire_out = []\<rparr>,
        ksyn = booted\<rparr>\<rparr>"

lemma sample_dev_facts:
  "disk_ok sample_dev" "dev_ok (kern sample_dev)" "pend_wf sample_dev" "load_ok True sample_dev" "status sample_dev = SystemMode"
  "\<not> active (disk (kern sample_dev))" "level sample_dev = IntOff" "totalTicks (stats sample_dev) = 45"
  "pending sample_dev = [(50, new_PendingInterrupt DiskDone 0 50 DiskInt)]"
  by (simp_all add: sample_dev_def disk_ok_def device_consts dev_ok_def pend_wf_def new_PendingInterrupt_def
      load_ok_def NumTotalRegs_def)

subsection \<open>The properties\<close>



text \<open>
  The latency of a disk request. Every request takes at least the time to transfer one sector and less than a full seek and a
  full rotation together; a request that is not served from the track buffer completes exactly when the
  head has passed the end of the requested sector.
\<close>

lemma disk_latency:
  assumes "disk_ok s" and "0 \<le> n" and "n < NumSectors"
  shows "RotationTime \<le> ComputeLatency n writing s \<and> ComputeLatency n writing s < 31 * SeekTime + 33 * RotationTime \<and>
    (writing \<or> ComputeLatency n writing s \<noteq> RotationTime \<longrightarrow>
      (totalTicks (stats s) + ComputeLatency n writing s) mod RotationTime = 0 \<and>
      (totalTicks (stats s) + ComputeLatency n writing s) div RotationTime mod SectorsPerTrack = (n + 1) mod SectorsPerTrack)"
  using ComputeLatency_facts [OF assms, of writing] by auto

text \<open>
  C16: a tick runs exactly the interrupts that are due. \<^verbatim>\<open>OneTick\<close> advances the clock by 10 ticks in
  kernel mode and by 1 in user mode, calls the handlers of all interrupts whose time has come in the order of their times,
  each once, leaves none that is due and loses none that is not, re-enables interrupts, and yields if a handler
  asked for it; in particular its loop ends although handlers schedule new interrupts.
\<close>

theorem due_interrupts_run_in_order:
  assumes "dev_ok (kern s)" and "pend_wf s" and "load_ok um s" and "status s \<noteq> IdleMode"
  shows "\<exists>s1 ps. sorted (map fst (due (tick s))) \<and>
    fire_all um dev_call (due (tick s)) (ChangeLevel IntOn IntOff (tick s)) = Inr s1 \<and>
    totalTicks (stats s1) = totalTicks (stats s) + (if status s = SystemMode then 10 else 1) \<and>
    due (s1\<lparr>pending := ps\<rparr>) = [] \<and> mset ps = mset (pending s1) \<and>
    OneTick um dev_call yield s = Some (let s2 = s1\<lparr>pending := ps, level := IntOn\<rparr> in
      if yieldOnReturn s2
      then rbind (yield (s2\<lparr>yieldOnReturn := False, status := SystemMode\<rparr>)) (\<lambda>s3. Inr (s3\<lparr>status := status s\<rparr>))
      else Inr s2)"
proof -
  let ?s = "ChangeLevel IntOn IntOff (tick s)"
  have "dev_ok (kern ?s)" "int_wf um ?s" "status ?s \<noteq> IdleMode" "status ?s = status s" "due ?s = due (tick s)"
    "totalTicks (stats ?s) = totalTicks (stats s) + (if status s = SystemMode then 10 else 1)"
    using assms by (simp_all add: ChangeLevel_def tick_def int_wf_def pend_wf_def load_ok_def due_def SystemTick_def UserTick_def)
  with device_handlers.run_due_fires [of ?s um] obtain s1 ps where
    1: "fire_all um dev_call (due (tick s)) ?s = Inr s1" "run_due um dev_call ?s = Some (Inr (s1\<lparr>pending := ps\<rparr>))"
      "mset ps = mset (pending s1)" "due (s1\<lparr>pending := ps\<rparr>) = []"
      "totalTicks (stats s1) = totalTicks (stats s) + (if status s = SystemMode then 10 else 1)" by auto
  have "sorted (map fst (pending (tick s)))" using assms(2) by (simp add: tick_def pend_wf_def)
  then have "sorted (map fst (due (tick s)))" by (simp add: due_def sorted_filter)
  with 1 show ?thesis
    by (intro exI [of _ s1] exI [of _ ps]) (simp add: OneTick_def ChangeLevel_def Let_def)
qed

lemma sample_dev_due: "map fst (due (tick sample_dev)) = [50]"
  by (simp add: due_def tick_def sample_dev_facts(5) SystemTick_def) (simp add: sample_dev_def new_Statistics_def)

theorem due_interrupts_run_in_order_witness:
  "\<exists>s1 s'. map fst (due (tick sample_dev)) = [50] \<and>
     fire_all True dev_call (due (tick sample_dev)) (ChangeLevel IntOn IntOff (tick sample_dev)) = Inr s1 \<and>
     totalTicks (stats s1) = 55 \<and> OneTick True dev_call Inr sample_dev = Some (Inr s')"
proof -
  obtain s1 ps where "fire_all True dev_call (due (tick sample_dev)) (ChangeLevel IntOn IntOff (tick sample_dev)) = Inr s1"
    "totalTicks (stats s1) = totalTicks (stats sample_dev) + (if status sample_dev = SystemMode then 10 else 1)"
    "OneTick True dev_call Inr sample_dev = Some (let s2 = s1\<lparr>pending := ps, level := IntOn\<rparr> in
      if yieldOnReturn s2
      then rbind (Inr (s2\<lparr>yieldOnReturn := False, status := SystemMode\<rparr>)) (\<lambda>s3. Inr (s3\<lparr>status := status sample_dev\<rparr>))
      else Inr s2)"
    using due_interrupts_run_in_order [of sample_dev True Inr] sample_dev_facts by fastforce
  then show ?thesis using sample_dev_due sample_dev_facts by (auto simp: Let_def)
qed

text \<open>
  C17: when no thread is ready the machine halts exactly if nothing is pending, or only the time-slice timer;
  otherwise the clock moves to the next interrupt, if it lies ahead, and handlers run.
\<close>

theorem idle_machine_halts_only_without_work:
  assumes "dev_ok (kern s)" and "int_wf um s"
  shows "if pending s = [] \<or> (\<exists>w p. pending s = [(w, p)] \<and> pi_type p = TimerInt)
    then \<exists>s'. Idle um dev_call s = Some (Inr (Halted s'))
    else \<exists>s'. Idle um dev_call s = Some (Inr (Resumed s')) \<and> status s' = SystemMode \<and> dev_ok (kern s') \<and>
      totalTicks (stats s') = max (totalTicks (stats s)) (fst (hd (pending s)))"
  using device_handlers.Idle_cases [OF assms] by (auto split: if_splits)

theorem idle_machine_halts_only_without_work_witness:
  "\<exists>s'. Idle True dev_call sample_dev = Some (Inr (Resumed s')) \<and> totalTicks (stats s') = 50"
proof -
  have "int_wf True sample_dev" using sample_dev_facts by (simp add: int_wf_def)
  from idle_machine_halts_only_without_work [OF sample_dev_facts(2) this] show ?thesis
    using sample_dev_facts by (auto simp: new_PendingInterrupt_def)
qed

text \<open>
  the network never waits for a packet to leave. \<^verbatim>\<open>Network::Send\<close> asserts that no packet is being sent but does not
  record that one is, so a second packet is accepted right after the first, although the interrupt
  that says that the next packet can be sent has not happened.
\<close>

lemma network_never_busy:
  assumes "Send hdr data s = Inr s'" and "0 < pkt_length hdr' \<and> pkt_length hdr' \<le> MaxPacketSize"
    and "pkt_from hdr' = ident (network (kern s))"
  shows "\<not> sendBusy (network (kern s')) \<and> (\<exists>s''. Send hdr' data' s' = Inr s'')"
proof -
  have n: "network (kern s') = network (kern s)" and busy: "\<not> sendBusy (network (kern s))"
    using assms(1) by (auto simp: Send_def Schedule_def Random_def Let_def rbind_eq_Inr_iff NetworkTime_def split: if_splits)
  have "\<exists>s''. Send hdr' data' s' = Inr s''"
    using assms(2,3) n busy by (auto simp: Send_def Schedule_def Random_def Let_def NetworkTime_def)
  with n busy show ?thesis by simp
qed

end
