(* ===== verification/Synch_Disk.thy ===== *)
theory Synch_Disk
  imports Devices
begin

text \<open>
  The synchronous disk of \<^verbatim>\<open>filesys/synchdisk.cc\<close>: \<^verbatim>\<open>ReadSector\<close> and \<^verbatim>\<open>WriteSector\<close> as the threads of the
  kernel execute them. Each call acquires the lock, issues a request to the disk, waits on the semaphore for the
  interrupt of the disk, and releases the lock. The step relation interleaves the calls of any number of threads with each other,
  with the interrupts of the disk, with the passing of time and with all other activity of the
  kernel that does not use the lock and the semaphore of the disk, which are private to the class.
\<close>

subsection \<open>The code\<close>

definition sd_lock :: nat where "sd_lock = 0"

datatype request = RdSector int | WrSector int "8 word list"

text \<open>Where a thread is inside \<^verbatim>\<open>ReadSector\<close> or \<^verbatim>\<open>WriteSector\<close>: the call it executes next.\<close>

datatype sd_pc = Outside | AtAcquire request | AtRequest request | AtP request | AtRelease request

fun issue :: "request \<Rightarrow> dev \<Rightarrow> dev result" where
  "issue (RdSector n) s = rbind (ReadRequest n s) (\<lambda>(data, s). Inr s)"
| "issue (WrSector n data) s = WriteRequest n data s"

fun request_ok :: "request \<Rightarrow> bool" where
  "request_ok (RdSector n) = (0 \<le> n \<and> n < NumSectors)"
| "request_ok (WrSector n data) = (0 \<le> n \<and> n < NumSectors)"

definition with_ksyn :: "ksync \<Rightarrow> dev \<Rightarrow> dev" where
  "with_ksyn k s = s\<lparr>kern := (kern s)\<lparr>ksyn := k\<rparr>\<rparr>"

abbreviation disk_done :: "int \<times> PendingInterrupt \<Rightarrow> bool" where
  "disk_done e \<equiv> pi_handler (snd e) = DiskDone"

abbreviation running :: "dev \<Rightarrow> nat \<Rightarrow> bool" where
  "running s t \<equiv> currentThread (ksyn (kern s)) = t \<and> tstatus (ksyn (kern s)) t = RUNNING"

inductive sd_step :: "dev \<times> (nat \<Rightarrow> sd_pc) \<Rightarrow> dev \<times> (nat \<Rightarrow> sd_pc) \<Rightarrow> bool" where
  enter: "running s t \<Longrightarrow> pc t = Outside \<Longrightarrow> request_ok r \<Longrightarrow> sd_step (s, pc) (s, pc(t := AtAcquire r))"
| acquire: "running s t \<Longrightarrow> pc t = AtAcquire r \<Longrightarrow> cont (ksyn (kern s)) t \<in> {Code, InAcquire sd_lock} \<Longrightarrow>
    do_Acquire sd_lock (ksyn (kern s)) = (e, k) \<Longrightarrow>
    sd_step (s, pc) (with_ksyn k s, if e = Acquired t sd_lock then pc(t := AtRequest r) else pc)"
| request: "running s t \<Longrightarrow> pc t = AtRequest r \<Longrightarrow> issue r s = Inr s' \<Longrightarrow> sd_step (s, pc) (s', pc(t := AtP r))"
| wait: "running s t \<Longrightarrow> pc t = AtP r \<Longrightarrow>
    cont (ksyn (kern s)) t \<in> {Code, InP (done_sem (disk (kern s)))} \<Longrightarrow>
    do_P (done_sem (disk (kern s))) (ksyn (kern s)) = (e, k) \<Longrightarrow>
    sd_step (s, pc) (with_ksyn k s, if e = Passed (done_sem (disk (kern s))) then pc(t := AtRelease r) else pc)"
| release: "running s t \<Longrightarrow> pc t = AtRelease r \<Longrightarrow> cont (ksyn (kern s)) t = Code \<Longrightarrow>
    sd_step (s, pc) (with_ksyn (Release sd_lock (ksyn (kern s))) s, pc(t := Outside))"
| done_interrupt: "pending s = ps @ (w, p) # qs \<Longrightarrow> disk_done (w, p) \<Longrightarrow> HandleInterrupt (s\<lparr>pending := ps @ qs\<rparr>) = Inr s' \<Longrightarrow>
    sd_step (s, pc) (s', pc)"
| other_kernel: "kstep (ksyn (kern s)) e k \<Longrightarrow>
    (\<And>t. e \<noteq> Acquired t sd_lock) \<Longrightarrow> (\<And>t. e \<noteq> Released t sd_lock) \<Longrightarrow>
    e \<noteq> Posted (done_sem (disk (kern s))) \<Longrightarrow> e \<noteq> Passed (done_sem (disk (kern s))) \<Longrightarrow>
    sd_step (s, pc) (with_ksyn k s, pc)"
| time: "0 \<le> d \<Longrightarrow> sd_step (s, pc) (s\<lparr>stats := (stats s)\<lparr>totalTicks := totalTicks (stats s) + d\<rparr>\<rparr>, pc)"

text \<open>\<^verbatim>\<open>SynchDisk::SynchDisk\<close>: a semaphore with value 0, a new lock, a new disk.\<close>

definition sd_init :: "dev \<Rightarrow> bool" where
  "sd_init s \<longleftrightarrow> disk_ok s \<and> \<not> active (disk (kern s)) \<and> filter disk_done (pending s) = [] \<and>
     sems (ksyn (kern s)) (done_sem (disk (kern s))) = new_Semaphore 0 \<and>
     (\<exists>g. locks (ksyn (kern s)) sd_lock = new_Lock g)"

inductive sd_reach :: "dev \<Rightarrow> dev \<times> (nat \<Rightarrow> sd_pc) \<Rightarrow> bool" for s0 where
  sd_start: "sd_init s0 \<Longrightarrow> sd_reach s0 (s0, \<lambda>_. Outside)"
| sd_next: "sd_reach s0 x \<Longrightarrow> sd_step x y \<Longrightarrow> sd_reach s0 y"

subsection \<open>The invariant\<close>

fun inside :: "sd_pc \<Rightarrow> bool" where
  "inside (AtRequest r) = True" | "inside (AtP r) = True" | "inside (AtRelease r) = True" | "inside _ = False"

fun pc_request :: "sd_pc \<Rightarrow> request option" where
  "pc_request Outside = None"
| "pc_request (AtAcquire r) = Some r" | "pc_request (AtRequest r) = Some r" | "pc_request (AtP r) = Some r" | "pc_request (AtRelease r) = Some r"

text \<open>
  The thread inside the critical section is the owner of the lock. The request is active as long as its
  interrupt is pending, and the semaphore holds one unit between the interrupt and the end of
  \<^verbatim>\<open>P\<close>; at all other times the disk is quiet.
\<close>

definition quiet :: "bool \<Rightarrow> nat \<Rightarrow> int \<Rightarrow> bool" where
  "quiet act n v \<longleftrightarrow> \<not> act \<and> n = 0 \<and> v = 0"

definition waiting :: "bool \<Rightarrow> nat \<Rightarrow> int \<Rightarrow> bool" where
  "waiting act n v \<longleftrightarrow> act \<and> n = 1 \<and> v = 0 \<or> \<not> act \<and> n = 0 \<and> v = 1"

fun sd_inv :: "bool \<times> nat option \<Rightarrow> (nat \<Rightarrow> sd_pc) \<Rightarrow> bool \<Rightarrow> nat \<Rightarrow> int \<Rightarrow> bool" where
  "sd_inv (True, None) pc act n v = False"
| "sd_inv (True, Some t) pc act n v =
     (inside (pc t) \<and> (\<forall>u. u \<noteq> t \<longrightarrow> \<not> inside (pc u)) \<and>
      (case pc t of AtP r \<Rightarrow> waiting act n v | _ \<Rightarrow> quiet act n v))"
| "sd_inv (False, x) pc act n v = ((\<forall>u. \<not> inside (pc u)) \<and> quiet act n v)"

definition reqs_ok :: "(nat \<Rightarrow> sd_pc) \<Rightarrow> bool" where
  "reqs_ok pc \<longleftrightarrow> (\<forall>t r. pc_request (pc t) = Some r \<longrightarrow> request_ok r)"

definition sd_ok :: "dev \<times> (nat \<Rightarrow> sd_pc) \<Rightarrow> bool" where
  "sd_ok x \<longleftrightarrow> (case x of (s, pc) \<Rightarrow>
     sd_inv (lock_state (ksyn (kern s)) sd_lock) pc (active (disk (kern s))) (length (filter disk_done (pending s)))
       (sem_value (sems (ksyn (kern s)) (done_sem (disk (kern s))))) \<and>
     disk_ok s \<and> reqs_ok pc)"

lemma sd_inv_inside: "sd_inv ls pc act n v \<Longrightarrow> inside (pc t) \<Longrightarrow> ls = (True, Some t)"
proof (cases "(ls, pc, act, n, v)" rule: sd_inv.cases)
  case (2 u)
  assume "sd_inv ls pc act n v" "inside (pc t)"
  then show ?thesis using 2 by (cases "t = u") auto
qed auto

lemma sd_inv_acquire:
  assumes inv: "sd_inv ls pc act n v" and pc: "pc t = AtAcquire r" and "fst ls \<longrightarrow> snd ls = Some t"
  shows "sd_inv (True, Some t) (pc(t := AtRequest r)) act n v"
proof -
  have "\<not> inside (pc t)" using pc by simp
  with assms(1,3) have "\<not> fst ls" by (cases ls) (auto elim: sd_inv.elims)
  then show ?thesis using inv by (cases ls) auto
qed

lemma sd_inv_request:
  assumes inv: "sd_inv ls pc act n v" and pc: "pc t = AtRequest r"
  shows "quiet act n v" "sd_inv ls (pc(t := AtP r)) True (Suc n) v"
proof -
  have ls: "ls = (True, Some t)" using sd_inv_inside [OF inv, of t] pc by simp
  then show q: "quiet act n v" using inv pc by simp
  show "sd_inv ls (pc(t := AtP r)) True (Suc n) v" using inv ls q by (simp add: quiet_def waiting_def)
qed

lemma sd_inv_wait:
  assumes inv: "sd_inv ls pc act n v" and pc: "pc t = AtP r" and "v \<noteq> 0"
  shows "sd_inv ls (pc(t := AtRelease r)) act n (v - 1)"
proof -
  have "ls = (True, Some t)" using sd_inv_inside [OF inv, of t] pc by simp
  then show ?thesis using assms by (auto simp: quiet_def waiting_def)
qed

lemma sd_inv_release:
  assumes inv: "sd_inv ls pc act n v" and pc: "pc t = AtRelease r"
  shows "snd ls = Some t" "sd_inv (False, None) (pc(t := Outside)) act n v"
proof -
  have ls: "ls = (True, Some t)" using sd_inv_inside [OF inv, of t] pc by simp
  then show "snd ls = Some t" by simp
  show "sd_inv (False, None) (pc(t := Outside)) act n v" using inv pc ls by auto
qed

lemma sd_inv_done:
  assumes "sd_inv ls pc act (Suc n) v"
  shows "sd_inv ls pc False n (v + 1)"
  using assms by (cases "(ls, pc, act, n, v)" rule: sd_inv.cases) (auto simp: quiet_def waiting_def split: sd_pc.splits)

lemma sd_inv_enter:
  assumes "sd_inv ls pc act n v" and "pc t = Outside"
  shows "sd_inv ls (pc(t := AtAcquire r)) act n v"
  using assms by (cases "(ls, pc, act, n, v)" rule: sd_inv.cases) (auto split: sd_pc.splits)

subsection \<open>Every step keeps it\<close>

lemma filter_sorted_ins: "length (filter P (sorted_ins w p xs)) = length (filter P xs) + (if P (w, p) then 1 else 0)"
proof -
  have "mset (filter P (sorted_ins w p xs)) = filter_mset P (add_mset (w, p) (mset xs))"
    by (simp add: sorted_ins_mset)
  then have "size (mset (filter P (sorted_ins w p xs))) = size (filter_mset P (add_mset (w, p) (mset xs)))" by (rule arg_cong)
  also have "\<dots> = size (filter_mset P (mset xs)) + (if P (w, p) then 1 else 0)" by simp
  finally show ?thesis by (simp flip: mset_filter)
qed

lemma UpdateLast_sel [simp]:
  "pending (UpdateLast n s) = pending s" "ksyn (kern (UpdateLast n s)) = ksyn (kern s)"
  "done_sem (disk (kern (UpdateLast n s))) = done_sem (disk (kern s))"
  by (simp_all add: UpdateLast_def Let_def split: prod.splits)

lemma issue_facts:
  assumes "disk_ok s" and "request_ok r" and "\<not> active (disk (kern s))"
  shows "\<exists>s'. issue r s = Inr s' \<and> disk_ok s' \<and> active (disk (kern s')) \<and> ksyn (kern s') = ksyn (kern s) \<and>
    done_sem (disk (kern s')) = done_sem (disk (kern s)) \<and>
    length (filter disk_done (pending s')) = Suc (length (filter disk_done (pending s)))"
proof (cases r)
  case (RdSector n)
  then have n: "0 \<le> n" "n < NumSectors" using assms(2) by auto
  let ?s1 = "s\<lparr>kern := (kern s)\<lparr>disk := (disk (kern s))\<lparr>active := True\<rparr>\<rparr>\<rparr>"
  have "disk_ok ?s1" using assms(1) by (simp add: disk_ok_def)
  note u = UpdateLast_facts [OF this n]
  have "0 < ComputeLatency n False s" using ComputeLatency_facts(1) [OF assms(1) n, of False] by (simp add: RotationTime_def)
  with u n assms(3) RdSector show ?thesis
    by (simp add: ReadRequest_def Schedule_def Let_def disk_ok_def filter_sorted_ins new_PendingInterrupt_def)
next
  case (WrSector n data)
  then have n: "0 \<le> n" "n < NumSectors" using assms(2) by auto
  let ?s1 = "s\<lparr>kern := (kern s)\<lparr>disk := (disk (kern s))\<lparr>dfile :=
    mem_put (dfile (disk (kern s))) (sector_pos n) (take 128 data), active := True\<rparr>\<rparr>\<rparr>"
  have "disk_ok ?s1" using assms(1) by (simp add: disk_ok_def)
  note u = UpdateLast_facts [OF this n]
  have "0 < ComputeLatency n True s" using ComputeLatency_facts(1) [OF assms(1) n, of True] by (simp add: RotationTime_def)
  with u n assms(3) WrSector show ?thesis
    by (simp add: WriteRequest_def Schedule_def Let_def disk_ok_def filter_sorted_ins new_PendingInterrupt_def)
qed

lemma with_ksyn_sel [simp]:
  "ksyn (kern (with_ksyn k s)) = k" "disk (kern (with_ksyn k s)) = disk (kern s)" "pending (with_ksyn k s) = pending s"
  "disk_ok (with_ksyn k s) = disk_ok s"
  by (simp_all add: with_ksyn_def disk_ok_def)

lemma do_Acquire_value: "do_Acquire l k = (e, k') \<Longrightarrow> sem_value (sems k' s) = sem_value (sems k s)"
  using do_Acquire_frame [of l k e k'] by simp

lemma reqs_ok_upd: "reqs_ok pc \<Longrightarrow> (\<And>r. pc_request x = Some r \<Longrightarrow> request_ok r) \<Longrightarrow> reqs_ok (pc(t := x))"
  by (simp add: reqs_ok_def)

lemma reqs_okD: "reqs_ok pc \<Longrightarrow> pc_request (pc t) = Some r \<Longrightarrow> request_ok r"
  by (simp add: reqs_ok_def)

declare sd_inv.simps [simp del]

lemma sd_step_ok: "sd_step x y \<Longrightarrow> sd_ok x \<Longrightarrow> sd_ok y"
proof (induction rule: sd_step.induct)
  case (enter s t pc r)
  then show ?case by (auto simp: sd_ok_def intro!: sd_inv_enter reqs_ok_upd)
next
  case (acquire s t pc r e k)
  note l = do_Acquire_lock [OF acquire(4), of sd_lock] and v = do_Acquire_value [OF acquire(4)]
    and fr = do_Acquire_frame [OF acquire(4)]
  show ?case
  proof (cases "e = Acquired t sd_lock")
    case True
    then have k: "lock_state k sd_lock = (True, Some t)" using l by (simp add: lock_effect_def)
    have "fst (lock_state (ksyn (kern s)) sd_lock) \<longrightarrow> snd (lock_state (ksyn (kern s)) sd_lock) = Some t"
      using l True by (simp add: lock_allowed_def)
    moreover have "reqs_ok (pc(t := AtRequest r))"
      using acquire(2,5) reqs_okD [of pc t r] by (auto simp: sd_ok_def intro!: reqs_ok_upd)
    ultimately show ?thesis
      using acquire(5) acquire(2) sd_inv_acquire [of "lock_state (ksyn (kern s)) sd_lock" pc _ _ _ t r] True v k by (simp add: sd_ok_def)
  next
    case False
    then have "e = Other" using fr acquire(1) by auto
    then show ?thesis using acquire(5) l v by (simp add: sd_ok_def lock_effect_def)
  qed
next
  case (request s t pc r s')
  then have inv: "sd_inv (lock_state (ksyn (kern s)) sd_lock) pc (active (disk (kern s)))
      (length (filter disk_done (pending s))) (sem_value (sems (ksyn (kern s)) (done_sem (disk (kern s)))))"
    and "disk_ok s" "reqs_ok pc" "request_ok r" using reqs_okD [of pc t r] by (auto simp: sd_ok_def)
  note q = sd_inv_request [OF inv request(2)]
  have "reqs_ok (pc(t := AtP r))" using \<open>reqs_ok pc\<close> \<open>request_ok r\<close> by (auto intro: reqs_ok_upd)
  with issue_facts [OF \<open>disk_ok s\<close> \<open>request_ok r\<close>] request(3) q show ?case by (auto simp: sd_ok_def quiet_def)
next
  case (wait s t pc r e k)
  have l: "lock_state k sd_lock = lock_state (ksyn (kern s)) sd_lock" using do_P_lock [OF wait(4)] by simp
  show ?case
  proof (cases "sem_value (sems (ksyn (kern s)) (done_sem (disk (kern s)))) = 0")
    case True
    then have "k = snd (Other, k)" "e = Other" "sem_value (sems k (done_sem (disk (kern s)))) = 0"
      using wait(4) do_P_zero [OF True] by auto
    then show ?thesis using wait(5) True l by (simp add: sd_ok_def)
  next
    case False
    have "reqs_ok (pc(t := AtRelease r))"
      using wait(2,5) reqs_okD [of pc t r] by (auto simp: sd_ok_def intro!: reqs_ok_upd)
    moreover have "e = Passed (done_sem (disk (kern s)))" "sem_value (sems k (done_sem (disk (kern s)))) =
        sem_value (sems (ksyn (kern s)) (done_sem (disk (kern s)))) - 1"
      using wait(4) do_P_pos [OF False] by auto
    ultimately show ?thesis using wait(5) l wait(2) False sd_inv_wait [of "lock_state (ksyn (kern s)) sd_lock" pc _ _ _ t r] by (simp add: sd_ok_def)
  qed
next
  case (release s t pc r)
  then have inv: "sd_inv (lock_state (ksyn (kern s)) sd_lock) pc (active (disk (kern s)))
      (length (filter disk_done (pending s))) (sem_value (sems (ksyn (kern s)) (done_sem (disk (kern s)))))"
    by (simp add: sd_ok_def)
  note q = sd_inv_release [OF inv release(2)]
  then have "isHeldByCurrentThread sd_lock (ksyn (kern s))" using release(1) by (simp add: isHeldByCurrentThread_def)
  then have "lock_state (Release sd_lock (ksyn (kern s))) sd_lock = (False, None)" by (simp add: Release_lock)
  moreover have "reqs_ok (pc(t := Outside))" using release(4) by (auto simp: sd_ok_def intro!: reqs_ok_upd)
  ultimately show ?case using release(4) q by (simp add: sd_ok_def)
next
  case (done_interrupt s ps w p qs s' pc)
  then show ?case
    using sd_inv_done [of _ pc _ "length (filter disk_done (ps @ qs))"]
    by (auto simp: sd_ok_def HandleInterrupt_def Let_def sem_V_value disk_ok_def)
next
  case (other_kernel s e k pc)
  have "lock_state k sd_lock = lock_state (ksyn (kern s)) sd_lock"
    using kstep_lock [OF other_kernel(1), of sd_lock] other_kernel(2,3) by (cases e) (auto simp: lock_effect_def)
  then show ?case using other_kernel(4-) kstep_value [OF other_kernel(1)] by (simp add: sd_ok_def)
next
  case (time d s pc)
  then show ?case by (simp add: sd_ok_def disk_ok_def)
qed

lemma sd_reach_ok: "sd_reach s0 x \<Longrightarrow> sd_ok x"
proof (induction rule: sd_reach.induct)
  case sd_start
  then show ?case by (auto simp: sd_ok_def sd_init_def reqs_ok_def sd_inv.simps new_Lock_def new_Semaphore_def quiet_def)
qed (rule sd_step_ok)

subsection \<open>The property\<close>

text \<open>
  C19: the synchronous disk never breaks the rule of the raw disk. Whatever the threads of the kernel do, when a thread inside
  \<^verbatim>\<open>ReadSector\<close> or \<^verbatim>\<open>WriteSector\<close> issues its request, the disk is idle and the request is accepted; at
  most one thread is between its acquisition of the lock and its release; and a thread that waits for a request that has been
  completed finds the semaphore positive, so the completion is not lost.
\<close>

theorem synchdisk_one_request_at_a_time:
  assumes "sd_reach s0 (s, pc)"
  shows "(\<forall>t r. pc t = AtRequest r \<longrightarrow> \<not> active (disk (kern s)) \<and> (\<exists>s'. issue r s = Inr s')) \<and>
    (\<forall>t u. inside (pc t) \<longrightarrow> inside (pc u) \<longrightarrow> t = u) \<and>
    (\<forall>t r. pc t = AtP r \<longrightarrow> \<not> active (disk (kern s)) \<longrightarrow>
       sem_value (sems (ksyn (kern s)) (done_sem (disk (kern s)))) = 1)"
proof -
  have inv: "sd_inv (lock_state (ksyn (kern s)) sd_lock) pc (active (disk (kern s)))
      (length (filter disk_done (pending s))) (sem_value (sems (ksyn (kern s)) (done_sem (disk (kern s)))))"
    and ok: "disk_ok s" "reqs_ok pc" using sd_reach_ok [OF assms] by (auto simp: sd_ok_def)
  have "\<not> active (disk (kern s)) \<and> (\<exists>s'. issue r s = Inr s')" if "pc t = AtRequest r" for t r
  proof -
    have "\<not> active (disk (kern s))" using sd_inv_request(1) [OF inv that] by (simp add: quiet_def)
    moreover have "request_ok r" using reqs_okD [OF ok(2), of t] that by simp
    ultimately show ?thesis using issue_facts [OF ok(1)] by blast
  qed
  moreover have "t = u" if "inside (pc t)" "inside (pc u)" for t u
    using sd_inv_inside [OF inv that(1)] sd_inv_inside [OF inv that(2)] by simp
  moreover have "sem_value (sems (ksyn (kern s)) (done_sem (disk (kern s)))) = 1"
    if "pc t = AtP r" "\<not> active (disk (kern s))" for t r
    using sd_inv_inside [OF inv, of t] inv that by (simp add: sd_inv.simps waiting_def)
  ultimately show ?thesis by blast
qed

lemma sample_sd: "sd_init (sample_dev\<lparr>pending := []\<rparr>)" "running (sample_dev\<lparr>pending := []\<rparr>) 0"
  "cont (ksyn (kern (sample_dev\<lparr>pending := []\<rparr>))) 0 = Code"
  "fst (do_Acquire sd_lock (ksyn (kern (sample_dev\<lparr>pending := []\<rparr>)))) = Acquired 0 sd_lock"
  using sample_dev_facts(1)
  by (simp_all add: sd_init_def disk_ok_def) (simp_all add: sample_dev_def krun_defs sd_lock_def)

theorem synchdisk_one_request_at_a_time_witness:
  "\<exists>s pc. sd_reach (sample_dev\<lparr>pending := []\<rparr>) (s, pc) \<and> pc 0 = AtRequest (RdSector 5) \<and> (\<exists>s'. issue (RdSector 5) s = Inr s')"
proof -
  let ?s = "sample_dev\<lparr>pending := []\<rparr>" and ?r = "RdSector 5"
  obtain k where k: "do_Acquire sd_lock (ksyn (kern ?s)) = (Acquired 0 sd_lock, k)"
    using sample_sd(4) by (metis prod.collapse)
  have "request_ok ?r" by (simp add: device_consts)
  then have "sd_reach ?s (?s, (\<lambda>_. Outside)(0 := AtAcquire ?r))"
    using sd_next [OF sd_start [OF sample_sd(1)] sd_step.enter [OF sample_sd(2)]] by simp
  from sd_next [OF this sd_step.acquire [OF sample_sd(2) _ _ k]] sample_sd(3)
  have reach: "sd_reach ?s (with_ksyn k ?s, (\<lambda>_. Outside)(0 := AtRequest ?r))" by simp
  have "\<exists>s'. issue ?r (with_ksyn k ?s) = Inr s'"
    using conjunct1 [OF synchdisk_one_request_at_a_time [OF reach], rule_format, of 0 ?r] by (simp del: issue.simps)
  moreover have "((\<lambda>_. Outside)(0 := AtRequest ?r)) 0 = AtRequest ?r" by simp
  ultimately show ?thesis using reach by blast
qed

end
