(* ===== verification/File_Header.thy ===== *)
theory File_Header
  imports Devices "HOL-Library.Multiset"
begin

text \<open>
  File headers: \<^verbatim>\<open>filesys/filehdr.cc\<close> and the blocks of pointers in \<^verbatim>\<open>filesys/IndirectPointerBlock.cc\<close>, in the
  build with \<^verbatim>\<open>FILESYS\<close>.

  The disk is a function from sector numbers to their bytes; \<open>ReadSector\<close> and \<open>WriteSector\<close> are what
  \<^verbatim>\<open>SynchDisk\<close> does for one thread (theory \<open>Synch_Disk\<close> shows that its requests are never refused), with the
  assertion of the disk on the sector number. The C++ objects are copied to and from a sector as they lie in memory:
  a sequence of little-endian 32-bit integers. An indirect block that is not in memory is \<open>None\<close>; following
  such a pointer is a fault.
\<close>

subsection \<open>Sectors and integers\<close>

type_synonym sectors = "nat \<Rightarrow> 8 word list"

definition ReadSector :: "int \<Rightarrow> sectors \<Rightarrow> 8 word list result" where
  "ReadSector n d = rbind (ASSERT (0 \<le> n \<and> n < NumSectors)) (\<lambda>_. Inr (d (nat n)))"

definition WriteSector :: "int \<Rightarrow> 8 word list \<Rightarrow> sectors \<Rightarrow> sectors result" where
  "WriteSector n data d =
     rbind (ASSERT (0 \<le> n \<and> n < NumSectors)) (\<lambda>_. Inr (d(nat n := take (nat SectorSize) data)))"

definition int_bytes :: "int \<Rightarrow> 8 word list" where
  "int_bytes x = bytes_le 4 (word_of_int x :: 32 word)"

definition bytes_int :: "8 word list \<Rightarrow> int" where
  "bytes_int bs = sint (word_le bs :: 32 word)"

definition ints_bytes :: "int list \<Rightarrow> 8 word list" where
  "ints_bytes xs = concat (map int_bytes xs)"

fun bytes_ints :: "8 word list \<Rightarrow> int list" where
  "bytes_ints (a # b # c # d # bs) = bytes_int [a, b, c, d] # bytes_ints bs"
| "bytes_ints _ = []"

subsection \<open>Indirect blocks\<close>

definition MaxIndirectPointers :: int where "MaxIndirectPointers = (SectorSize - 4) div 4"
definition NumDirect :: int where "NumDirect = 4"
definition NumInDirect :: int where "NumInDirect = (SectorSize - (2 * 4 + NumDirect * 4)) div 4"
definition PointersPerIndirect :: int where "PointersPerIndirect = (SectorSize - 4) div 4"
definition MaxFileSize :: int where "MaxFileSize = (NumDirect + NumInDirect * MaxIndirectPointers) * SectorSize"
definition FreeMapSector :: int where "FreeMapSector = 0"
definition DirectorySector :: int where "DirectorySector = 1"

lemma fs_consts [simp]:
  "MaxIndirectPointers = 31" "NumDirect = 4" "NumInDirect = 26" "PointersPerIndirect = 31" "MaxFileSize = 103680"
  "FreeMapSector = 0" "DirectorySector = 1" "NumSectors = 1024"
  by (simp_all add: MaxIndirectPointers_def NumDirect_def NumInDirect_def PointersPerIndirect_def MaxFileSize_def
      FreeMapSector_def DirectorySector_def NumSectors_def SectorsPerTrack_def NumTracks_def)

record IndirectPointerBlock =
  ipb_numSectors :: int
  ipb_dataSectors :: "int list"

definition new_IndirectPointerBlock :: IndirectPointerBlock where
  "new_IndirectPointerBlock = \<lparr>ipb_numSectors = 0, ipb_dataSectors = replicate (nat MaxIndirectPointers) 0\<rparr>"

definition ipb_FetchFrom :: "int \<Rightarrow> sectors \<Rightarrow> IndirectPointerBlock result" where
  "ipb_FetchFrom sector d =
     rbind (ReadSector sector d) (\<lambda>bs.
     case bytes_ints bs of
       n # xs \<Rightarrow> Inr \<lparr>ipb_numSectors = n, ipb_dataSectors = xs\<rparr>
     | [] \<Rightarrow> Inl OutOfBounds)"

definition ipb_WriteBack :: "int \<Rightarrow> IndirectPointerBlock \<Rightarrow> sectors \<Rightarrow> sectors result" where
  "ipb_WriteBack sector b d = WriteSector sector (ints_bytes (ipb_numSectors b # ipb_dataSectors b)) d"

definition ipb_ByteToSector :: "int \<Rightarrow> IndirectPointerBlock \<Rightarrow> int result" where
  "ipb_ByteToSector sector b = aget (ipb_dataSectors b) (sector sdiv SectorSize)"

definition PutSector :: "int \<Rightarrow> IndirectPointerBlock \<Rightarrow> IndirectPointerBlock result" where
  "PutSector sector b =
     rbind (aset (ipb_dataSectors b) (ipb_numSectors b) sector) (\<lambda>xs.
     Inr (b\<lparr>ipb_dataSectors := xs, ipb_numSectors := ipb_numSectors b + 1\<rparr>))"

definition ipb_Deallocate :: "IndirectPointerBlock \<Rightarrow> bitmap \<Rightarrow> (IndirectPointerBlock \<times> bitmap) result" where
  "ipb_Deallocate b bm =
     rbind (for_each [0..ipb_numSectors b - 1] (\<lambda>i bm.
        rbind (aget (ipb_dataSectors b) (ipb_numSectors b)) (\<lambda>s. Clear bm s)) bm) (\<lambda>bm.
     Inr (b\<lparr>ipb_numSectors := 0\<rparr>, bm))"

subsection \<open>File headers\<close>

record FileHeader =
  numBytes :: int
  numSectors :: int
  dataSectors :: "int list"
  indirectSector :: "int list"
  indirectPointers :: "IndirectPointerBlock option list"

text \<open>\<^verbatim>\<open>new FileHeader\<close> followed by \<^verbatim>\<open>bzero\<close>, as in \<^verbatim>\<open>FileSystem::Create\<close>.\<close>

definition zero_FileHeader :: FileHeader where
  "zero_FileHeader =
     \<lparr>numBytes = 0, numSectors = 0, dataSectors = replicate 4 0, indirectSector = replicate 26 0,
      indirectPointers = replicate 26 None\<rparr>"

definition the_block :: "FileHeader \<Rightarrow> int \<Rightarrow> IndirectPointerBlock result" where
  "the_block h i =
     rbind (aget (indirectPointers h) i) (\<lambda>p. case p of None \<Rightarrow> Inl NullPointer | Some b \<Rightarrow> Inr b)"

definition set_block :: "FileHeader \<Rightarrow> int \<Rightarrow> IndirectPointerBlock \<Rightarrow> FileHeader result" where
  "set_block h i b = rbind (aset (indirectPointers h) i (Some b)) (\<lambda>ps. Inr (h\<lparr>indirectPointers := ps\<rparr>))"

text \<open>The inner loop of \<^verbatim>\<open>Allocate\<close>: \<open>k\<close> sectors into one block.\<close>

fun fill_block :: "nat \<Rightarrow> IndirectPointerBlock \<Rightarrow> bitmap \<Rightarrow> (IndirectPointerBlock \<times> bitmap) result" where
  "fill_block 0 b bm = Inr (b, bm)"
| "fill_block (Suc k) b bm =
     rbind (Find bm) (\<lambda>(newSec, bm). rbind (PutSector newSec b) (\<lambda>b. fill_block k b bm))"

function allocate_loop :: "int \<Rightarrow> nat \<Rightarrow> FileHeader \<Rightarrow> bitmap \<Rightarrow> (FileHeader \<times> bitmap) result" where
  "allocate_loop i n h bm =
     (if n = 0 then Inr (h, bm)
      else if i < NumDirect then
        rbind (Find bm) (\<lambda>(s, bm).
        rbind (aset (dataSectors h) i s) (\<lambda>xs.
        allocate_loop (i + 1) (n - 1) (h\<lparr>dataSectors := xs\<rparr>) bm))
      else
        rbind (set_block h (i - NumDirect) new_IndirectPointerBlock) (\<lambda>h.
        rbind (Find bm) (\<lambda>(s, bm).
        rbind (aset (indirectSector h) (i - NumDirect) s) (\<lambda>xs.
        let h = h\<lparr>indirectSector := xs\<rparr>; k = min n (nat MaxIndirectPointers) in
        rbind (the_block h (i - NumDirect)) (\<lambda>b.
        rbind (fill_block k b bm) (\<lambda>(b, bm).
        rbind (set_block h (i - NumDirect) b) (\<lambda>h.
        allocate_loop (i + 1) (n - k) h bm)))))))"
  by pat_completeness auto

termination
  by (relation "measure (\<lambda>(i, n, h, bm). n)") auto

declare allocate_loop.simps [simp del]

text \<open>
  \<^verbatim>\<open>MaxFileSize\<close> is unsigned, so a negative size is rejected with the too large ones.
\<close>

definition Allocate :: "bitmap \<Rightarrow> int \<Rightarrow> FileHeader \<Rightarrow> (bool \<times> FileHeader \<times> bitmap) result" where
  "Allocate freeMap fileSize h =
     (if fileSize < 0 \<or> fileSize > MaxFileSize then Inr (False, h, freeMap)
      else
        let h = h\<lparr>numBytes := fileSize, numSectors := divRoundUp fileSize SectorSize\<rparr> in
        rbind (NumClear freeMap) (\<lambda>c.
        if c < numSectors h then Inr (False, h, freeMap)
        else rbind (allocate_loop 0 (nat (numSectors h)) h freeMap) (\<lambda>(h, bm). Inr (True, h, bm))))"

definition Deallocate :: "FileHeader \<Rightarrow> bitmap \<Rightarrow> (FileHeader \<times> bitmap) result" where
  "Deallocate h freeMap =
     rbind (for_each [0..numSectors h - 1] (\<lambda>i bm.
        if numSectors h < NumDirect then
          rbind (aget (dataSectors h) i) (\<lambda>s.
          rbind (Test bm s) (\<lambda>marked.
          rbind (ASSERT marked) (\<lambda>_. Clear bm s)))
        else Inr bm) freeMap) (\<lambda>bm.
     if numSectors h > NumDirect then
       let indirects = divRoundUp (numSectors h - NumDirect) PointersPerIndirect in
       for_each [0..indirects - 1] (\<lambda>i (h, bm).
         rbind (the_block h i) (\<lambda>b.
         rbind (ipb_Deallocate b bm) (\<lambda>(b, bm).
         rbind (set_block h i b) (\<lambda>h.
         rbind (aget (indirectSector h) i) (\<lambda>s.
         rbind (Clear bm s) (\<lambda>bm. Inr (h, bm))))))) (h, bm)
     else Inr (h, bm))"

text \<open>The part of the object that is kept on disk, \<^verbatim>\<open>HdrSize\<close> bytes.\<close>

definition hdr_ints :: "FileHeader \<Rightarrow> int list" where
  "hdr_ints h = numBytes h # numSectors h # dataSectors h @ indirectSector h"

definition FetchFrom :: "int \<Rightarrow> FileHeader \<Rightarrow> sectors \<Rightarrow> FileHeader result" where
  "FetchFrom sector h d =
     rbind (ReadSector sector d) (\<lambda>bs.
     let xs = bytes_ints bs in
     rbind (aget xs 0) (\<lambda>nb. rbind (aget xs 1) (\<lambda>ns.
     let h = h\<lparr>numBytes := nb, numSectors := ns, dataSectors := take 4 (drop 2 xs), indirectSector := drop 6 xs\<rparr> in
     if numSectors h > NumDirect then
       for_each [0..divRoundUp (numSectors h - NumDirect) PointersPerIndirect - 1] (\<lambda>i h.
         rbind (aget (indirectSector h) i) (\<lambda>s.
         if s \<noteq> 0 then rbind (ipb_FetchFrom s d) (set_block h i) else Inr h)) h
     else Inr h)))"

definition WriteBack :: "int \<Rightarrow> FileHeader \<Rightarrow> sectors \<Rightarrow> sectors result" where
  "WriteBack sector h d =
     rbind (WriteSector sector (ints_bytes (hdr_ints h)) d) (\<lambda>d.
     if numSectors h > NumDirect then
       for_each [0..divRoundUp (numSectors h - NumDirect) PointersPerIndirect - 1] (\<lambda>i d.
         rbind (aget (indirectSector h) i) (\<lambda>s.
         if s \<noteq> 0 then rbind (the_block h i) (\<lambda>b. ipb_WriteBack s b d) else Inr d)) d
     else Inr d)"

text \<open>
  \<^verbatim>\<open>PointersPerIndirect\<close> is unsigned: a negative difference is taken modulo \<open>2\<^sup>32\<close> before
  the division, and the quotient is an index outside the array.
\<close>

definition ByteToSector :: "int \<Rightarrow> FileHeader \<Rightarrow> int result" where
  "ByteToSector offset h =
     (let sector = offset sdiv SectorSize in
      if sector < NumDirect then aget (dataSectors h) sector
      else
        let relSec = ((numSectors h - NumDirect) mod 2 ^ 32) div PointersPerIndirect;
            newOff = offset - SectorSize * NumDirect in
        rbind (the_block h relSec) (\<lambda>b. ipb_ByteToSector newOff b))"

definition FileLength :: "FileHeader \<Rightarrow> int" where
  "FileLength h = numBytes h"

definition setNumBytes :: "int \<Rightarrow> FileHeader \<Rightarrow> FileHeader" where
  "setNumBytes newBytes h = h\<lparr>numBytes := newBytes\<rparr>"

subsection \<open>Integers in sectors\<close>

definition int32 :: "int \<Rightarrow> bool" where
  "int32 x \<longleftrightarrow> - (2 ^ 31) \<le> x \<and> x < 2 ^ 31"

lemma length_int_bytes [simp]: "length (int_bytes x) = 4"
  by (simp add: int_bytes_def)

lemma bytes_int_int_bytes: "int32 x \<Longrightarrow> bytes_int (int_bytes x) = x"
  by (simp add: int_bytes_def bytes_int_def word_le_bytes_le int32_def signed_take_bit_int_eq_self sint_sbintrunc')

lemma int_bytes_bytes_int: "length bs = 4 \<Longrightarrow> int_bytes (bytes_int bs) = bs"
  by (simp add: int_bytes_def bytes_int_def bytes_le_word_le)

lemma bytes_ints_append: "length bs = 4 \<Longrightarrow> bytes_ints (bs @ cs) = bytes_int bs # bytes_ints cs"
  by (auto simp: length_Suc_conv numeral_eq_Suc)

lemma bytes_ints_ints_bytes: "\<forall>x\<in>set xs. int32 x \<Longrightarrow> bytes_ints (ints_bytes xs) = xs"
  by (induction xs) (simp_all add: ints_bytes_def bytes_ints_append bytes_int_int_bytes)

lemma length_ints_bytes: "length (ints_bytes xs) = 4 * length xs"
  by (induction xs) (simp_all add: ints_bytes_def)

lemma ReadSector_ok: "0 \<le> n \<Longrightarrow> n < 1024 \<Longrightarrow> ReadSector n d = Inr (d (nat n))"
  by (simp add: ReadSector_def)

lemma WriteSector_ok:
  "0 \<le> n \<Longrightarrow> n < 1024 \<Longrightarrow> length bs = 128 \<Longrightarrow> WriteSector n bs d = Inr (d(nat n := bs))"
  by (simp add: WriteSector_def SectorSize_def)

subsection \<open>The layout of a file\<close>

text \<open>
  \<open>hdr_layout h ds ind\<close>: the header describes a file whose data sectors are \<open>ds\<close>, in the order of the
  file, and whose indirect blocks are kept in the sectors \<open>ind\<close>. The first four data sectors are direct, the
  others are in blocks of 31.
\<close>

definition ipb_of :: "int list \<Rightarrow> IndirectPointerBlock" where
  "ipb_of xs = \<lparr>ipb_numSectors = int (length xs), ipb_dataSectors = xs @ replicate (31 - length xs) 0\<rparr>"

definition blocks :: "nat \<Rightarrow> nat" where
  "blocks n = (n - 4 + 30) div 31"

definition block_part :: "nat \<Rightarrow> int list \<Rightarrow> int list" where
  "block_part k ds = take 31 (drop (4 + 31 * k) ds)"

definition hdr_part :: "FileHeader \<Rightarrow> int list \<Rightarrow> int list \<Rightarrow> bool" where
  "hdr_part h ds ind \<longleftrightarrow>
     length (dataSectors h) = 4 \<and> length (indirectSector h) = 26 \<and> length (indirectPointers h) = 26 \<and>
     (\<forall>i < min 4 (length ds). dataSectors h ! i = ds ! i) \<and>
     length ind = blocks (length ds) \<and> length ind \<le> 26 \<and>
     (\<forall>k < length ind. indirectSector h ! k = ind ! k \<and> indirectPointers h ! k = Some (ipb_of (block_part k ds)))"

definition hdr_layout :: "FileHeader \<Rightarrow> int list \<Rightarrow> int list \<Rightarrow> bool" where
  "hdr_layout h ds ind \<longleftrightarrow> numSectors h = int (length ds) \<and> hdr_part h ds ind"

text \<open>\<open>took bm xs bm'\<close>: the sectors \<open>xs\<close>, all different and all free, have been taken.\<close>

definition took :: "bitmap \<Rightarrow> int list \<Rightarrow> bitmap \<Rightarrow> bool" where
  "took bm xs bm' \<longleftrightarrow> bm_wf bm' \<and> numBits bm' = numBits bm \<and> distinct xs \<and>
     set xs \<subseteq> {0..<numBits bm} - marked bm \<and> marked bm' = marked bm \<union> set xs"

definition free_sectors :: "bitmap \<Rightarrow> int" where
  "free_sectors bm = numBits bm - int (card (marked bm))"

lemma took_nil: "bm_wf bm \<Longrightarrow> took bm [] bm"
  by (simp add: took_def)

lemma took_append: "took bm xs bm1 \<Longrightarrow> took bm1 ys bm2 \<Longrightarrow> took bm (xs @ ys) bm2"
  by (auto simp: took_def)

lemma took_mset: "took bm xs bm' \<Longrightarrow> mset xs = mset ys \<Longrightarrow> took bm ys bm'"
  using mset_eq_setD [of xs ys] mset_eq_imp_distinct_iff [of xs ys] by (simp add: took_def)

lemma took_wf: "took bm xs bm' \<Longrightarrow> bm_wf bm'"
  by (simp add: took_def)

lemma took_free:
  assumes "took bm xs bm'" shows "free_sectors bm' = free_sectors bm - int (length xs)"
proof -
  have "card (marked bm \<union> set xs) = card (marked bm) + card (set xs)"
    using assms by (intro card_Un_disjoint) (auto simp: took_def)
  with assms show ?thesis by (simp add: took_def free_sectors_def distinct_card)
qed

lemma alloc_n_took:
  assumes "bm_wf bm" "int n \<le> free_sectors bm"
  obtains xs bm' where "alloc_n Find n bm = Inr (xs, bm')" "length xs = n" "took bm xs bm'"
  using bitmap_slots.alloc_n_ok [of bm n] assms unfolding took_def free_sectors_def by blast

lemma Find_took:
  assumes "bm_wf bm" "0 < free_sectors bm"
  obtains s bm' where "Find bm = Inr (s, bm')" "took bm [s] bm'"
proof -
  have "marked bm \<noteq> {0..<numBits bm}"
    using assms by (auto simp: free_sectors_def bm_wf_def split: if_splits)
  then obtain s bm' where "Find bm = Inr (s, bm')" "in_range bm s" "s \<notin> marked bm" "bm_wf bm'"
    "numBits bm' = numBits bm" "marked bm' = insert s (marked bm)"
    using Find_first_clear [OF assms(1)] by metis
  then show ?thesis by (intro that [of s bm']) (auto simp: took_def in_range_def)
qed

subsection \<open>Allocation\<close>

lemma length_ipb_of: "length xs \<le> 31 \<Longrightarrow> length (ipb_dataSectors (ipb_of xs)) = 31"
  by (simp add: ipb_of_def)

lemma new_block: "new_IndirectPointerBlock = ipb_of []"
  by (simp add: new_IndirectPointerBlock_def ipb_of_def)

lemma PutSector_ok: "length xs < 31 \<Longrightarrow> PutSector s (ipb_of xs) = Inr (ipb_of (xs @ [s]))"
  by (simp add: PutSector_def ipb_of_def list_update_append Suc_diff_Suc [symmetric])

lemma fill_block_ok:
  "length xs + k \<le> 31 \<Longrightarrow>
     fill_block k (ipb_of xs) bm = rbind (alloc_n Find k bm) (\<lambda>(ss, bm). Inr (ipb_of (xs @ ss), bm))"
  by (induction k arbitrary: xs bm)
    (auto simp: PutSector_ok rbind_assoc case_prod_unfold intro!: rbind_cong)

lemma blocks_simps:
  "n \<le> 4 \<Longrightarrow> blocks n = 0"
  "0 < k \<Longrightarrow> k \<le> 31 \<Longrightarrow> blocks (4 + 31 * m + k) = Suc m"
  "blocks (4 + 31 * m) = m"
proof -
  show "n \<le> 4 \<Longrightarrow> blocks n = 0" by (simp add: blocks_def)
  show "blocks (4 + 31 * m) = m" by (simp add: blocks_def)
  assume "0 < k" "k \<le> 31"
  then show "blocks (4 + 31 * m + k) = Suc m"
    by (simp add: blocks_def div_nat_eqI)
qed

lemma blocks_mono: "n \<le> m \<Longrightarrow> blocks n \<le> blocks m"
  by (simp add: blocks_def div_le_mono)

lemma hdr_part_direct:
  assumes "hdr_part h ds []" "length ds < 4"
  shows "hdr_part (h\<lparr>dataSectors := (dataSectors h)[length ds := s]\<rparr>) (ds @ [s]) []"
  using assms by (auto simp: hdr_part_def blocks_simps nth_append nth_list_update)

lemma block_part_append:
  "k < m \<Longrightarrow> length ds = 4 + 31 * m \<Longrightarrow> block_part k (ds @ ss) = block_part k ds"
  by (simp add: block_part_def)

lemma block_part_last:
  "length ds = 4 + 31 * m \<Longrightarrow> length ss \<le> 31 \<Longrightarrow> block_part m (ds @ ss) = ss"
  by (simp add: block_part_def)

lemma hdr_part_block:
  assumes h: "hdr_part h ds ind" and ds: "length ds = 4 + 31 * m" and m: "m < 26"
    and ss: "0 < length ss" "length ss \<le> 31"
  shows "hdr_part (h\<lparr>indirectSector := (indirectSector h)[m := s],
      indirectPointers := (indirectPointers h)[m := Some (ipb_of ss)]\<rparr>) (ds @ ss) (ind @ [s])"
proof -
  have len: "length ind = m" using h ds by (simp add: hdr_part_def blocks_simps)
  have "indirectPointers h ! k = Some (ipb_of (block_part k (ds @ ss)))" "indirectSector h ! k = ind ! k"
    if "k < m" for k
    using that h ds len by (simp_all add: hdr_part_def block_part_append)
  moreover have "\<forall>i<4. dataSectors h ! i = (ds @ ss) ! i"
    using h ds by (simp add: hdr_part_def nth_append)
  moreover have "blocks (length (ds @ ss)) = Suc m"
    using ds ss by (simp add: blocks_simps)
  ultimately show ?thesis
    using h m len ds ss block_part_last [OF ds ss(2)]
    by (auto simp: hdr_part_def nth_append less_Suc_eq nth_list_update)
qed

lemma direct_step:
  assumes h: "hdr_part h ds []" and ds: "length ds < 4" and n: "0 < n"
    and bm: "bm_wf bm" "0 < free_sectors bm"
  obtains s bm1 where "took bm [s] bm1"
    "allocate_loop (int (length ds)) n h bm =
       allocate_loop (int (length ds) + 1) (n - 1) (h\<lparr>dataSectors := (dataSectors h)[length ds := s]\<rparr>) bm1"
proof -
  obtain s bm1 where "Find bm = Inr (s, bm1)" "took bm [s] bm1"
    using Find_took [OF bm] .
  moreover have "length (dataSectors h) = 4" using h by (simp add: hdr_part_def)
  ultimately show ?thesis
    using ds n by (intro that [of s bm1]) (simp_all add: allocate_loop.simps [of "int (length ds)" n])
qed

lemma block_step:
  assumes h: "hdr_part h ds ind" and m: "m < 26" and n: "0 < n"
    and bm: "bm_wf bm" "int (min n 31) < free_sectors bm"
  obtains s ss bm1 where "took bm (s # ss) bm1" "length ss = min n 31"
    "allocate_loop (4 + int m) n h bm =
       allocate_loop (4 + int (Suc m)) (n - min n 31) (h\<lparr>indirectSector := (indirectSector h)[m := s],
         indirectPointers := (indirectPointers h)[m := Some (ipb_of ss)]\<rparr>) bm1"
proof -
  obtain s bm0 where s: "Find bm = Inr (s, bm0)" "took bm [s] bm0"
    using Find_took [OF bm(1)] bm(2) by auto
  obtain ss bm1 where ss: "alloc_n Find (min n 31) bm0 = Inr (ss, bm1)" "length ss = min n 31" "took bm0 ss bm1"
    using alloc_n_took [OF took_wf [OF s(2)], of "min n 31"] took_free [OF s(2)] bm(2) by auto
  have len: "length (indirectSector h) = 26" "length (indirectPointers h) = 26"
    using h by (simp_all add: hdr_part_def)
  have "allocate_loop (4 + int m) n h bm =
      allocate_loop (4 + int (Suc m)) (n - min n 31) (h\<lparr>indirectSector := (indirectSector h)[m := s],
         indirectPointers := (indirectPointers h)[m := Some (ipb_of ss)]\<rparr>) bm1"
    using m n len s(1) ss(1)
    by (subst allocate_loop.simps)
      (simp add: set_block_def the_block_def new_block fill_block_ok Let_def add.commute)
  then show ?thesis
    using took_append [OF s(2) ss(3)] ss(2) by (intro that) auto
qed

text \<open>\<open>hdr_from h ss ts h'\<close>: the entries of \<open>h'\<close> are those of \<open>h\<close> or new sectors.\<close>

definition hdr_from :: "FileHeader \<Rightarrow> int list \<Rightarrow> int list \<Rightarrow> FileHeader \<Rightarrow> bool" where
  "hdr_from h ss ts h' \<longleftrightarrow> numBytes h' = numBytes h \<and> numSectors h' = numSectors h \<and>
     set (dataSectors h') \<subseteq> set (dataSectors h) \<union> set ss \<and> set (indirectSector h') \<subseteq> set (indirectSector h) \<union> set ts"

lemma hdr_from_refl: "hdr_from h ss ts h"
  by (auto simp: hdr_from_def)

lemma hdr_from_trans: "hdr_from h ss ts h1 \<Longrightarrow> hdr_from h1 ss' ts' h2 \<Longrightarrow> hdr_from h (ss @ ss') (ts @ ts') h2"
  by (auto simp: hdr_from_def)

lemma allocate_blocks:
  assumes "hdr_part h ds ind" "length ds = 4 + 31 * m" "m + blocks (4 + n) \<le> 26"
    and "bm_wf bm" "int (n + blocks (4 + n)) \<le> free_sectors bm"
  shows "\<exists>h' bm' ss ts. allocate_loop (4 + int m) n h bm = Inr (h', bm') \<and> hdr_part h' (ds @ ss) (ind @ ts) \<and>
    length ss = n \<and> length ts = blocks (4 + n) \<and> took bm (ss @ ts) bm' \<and>
    hdr_from h ss ts h'"
  using assms
proof (induction n arbitrary: m h ds ind bm rule: less_induct)
  case (less n)
  show ?case
  proof (cases "n = 0")
    case True
    with less.prems show ?thesis
      by (auto simp: allocate_loop.simps [of _ 0] took_nil blocks_simps hdr_from_refl)
  next
    case False
    define k where "k = min n 31"
    have k: "0 < k" "k \<le> 31" "k \<le> n" using False by (auto simp: k_def)
    have b: "blocks (4 + n) = Suc (blocks (4 + (n - k)))"
      using False by (cases "n \<le> 31") (auto simp: k_def blocks_def le_div_geq)
    have m: "m < 26" using b less.prems(3) by simp
    obtain s ss bm1 where s: "took bm (s # ss) bm1" "length ss = k"
      "allocate_loop (4 + int m) n h bm = allocate_loop (4 + int (Suc m)) (n - k)
         (h\<lparr>indirectSector := (indirectSector h)[m := s],
            indirectPointers := (indirectPointers h)[m := Some (ipb_of ss)]\<rparr>) bm1" (is "_ = allocate_loop _ _ ?h _")
    proof (rule block_step [OF less.prems(1) m, of n bm])
      show "0 < n" "bm_wf bm" using False less.prems(4) by simp_all
      show "int (min n 31) < free_sectors bm" using less.prems(5) b k by (simp add: k_def)
    qed (simp_all add: k_def)
    have added: "hdr_from h ss [s] ?h" using set_update_subset_insert by (fastforce simp: hdr_from_def)
    have h1: "hdr_part ?h (ds @ ss) (ind @ [s])"
      by (rule hdr_part_block [OF less.prems(1,2) m]) (use s(2) k in simp_all)
    show ?thesis
    proof (cases "n - k = 0")
      case True
      have "mset (s # ss) = mset (ss @ [s])" by simp
      with True h1 s k b added show ?thesis
        by (intro exI [of _ ?h] exI [of _ bm1] exI [of _ ss] exI [of _ "[s]"])
          (auto simp: allocate_loop.simps [of _ 0] blocks_simps intro: took_mset)
    next
      case more: False
      then have "k = 31" by (simp add: k_def)
      then have "length (ds @ ss) = 4 + 31 * Suc m" using s(2) less.prems(2) by simp
      moreover have "int (n - k + blocks (4 + (n - k))) \<le> free_sectors bm1"
        using less.prems(5) took_free [OF s(1)] s(2) b k by simp
      ultimately obtain h' bm' ss' ts' where r:
        "allocate_loop (4 + int (Suc m)) (n - k) ?h bm1 = Inr (h', bm')"
        "hdr_part h' ((ds @ ss) @ ss') ((ind @ [s]) @ ts')" "length ss' = n - k"
        "length ts' = blocks (4 + (n - k))" "took bm1 (ss' @ ts') bm'"
        "hdr_from ?h ss' ts' h'"
        using less.IH [OF _ h1, of "n - k" "Suc m" bm1] k less.prems(3) b took_wf [OF s(1)] by auto
      have "took bm ((ss @ ss') @ s # ts') bm'"
        by (rule took_mset [OF took_append [OF s(1) r(5)]]) simp
      moreover have "hdr_from h (ss @ ss') (s # ts') h'" using hdr_from_trans [OF added r(6)] by simp
      ultimately show ?thesis using r(1-5) s b k
        by (intro exI [of _ h'] exI [of _ bm'] exI [of _ "ss @ ss'"] exI [of _ "s # ts'"]) simp
    qed
  qed
qed

lemma allocate_direct:
  assumes "hdr_part h ds []" "length ds \<le> 4" "blocks (length ds + n) \<le> 26"
    and "bm_wf bm" "int (n + blocks (length ds + n)) \<le> free_sectors bm"
  shows "\<exists>h' bm' ss ts. allocate_loop (int (length ds)) n h bm = Inr (h', bm') \<and> hdr_part h' (ds @ ss) ts \<and>
    length ss = n \<and> length ts = blocks (length ds + n) \<and> took bm (ss @ ts) bm' \<and>
    hdr_from h ss ts h'"
  using assms
proof (induction "4 - length ds" arbitrary: n h ds bm)
  case 0
  then have "length ds = 4" by simp
  then show ?case
    using allocate_blocks [OF 0(2), of 0 n bm] 0 by simp
next
  case (Suc d)
  then have ds: "length ds < 4" by simp
  show ?case
  proof (cases n)
    case 0
    with Suc.prems show ?thesis by (auto simp: allocate_loop.simps [of _ 0] took_nil blocks_simps hdr_from_refl)
  next
    case (Suc n')
    obtain s bm1 where s: "took bm [s] bm1" "allocate_loop (int (length ds)) n h bm =
        allocate_loop (int (length ds) + 1) (n - 1) (h\<lparr>dataSectors := (dataSectors h)[length ds := s]\<rparr>) bm1"
        (is "_ = allocate_loop _ _ ?h _")
      using direct_step [OF \<open>hdr_part h ds []\<close> ds, of n bm] Suc Suc.prems by auto
    have d: "d = 4 - length (ds @ [s])" using Suc.hyps(2) by simp
    obtain h' bm' ss ts where r: "allocate_loop (int (length (ds @ [s]))) n' ?h bm1 = Inr (h', bm')"
      "hdr_part h' ((ds @ [s]) @ ss) ts" "length ss = n'" "length ts = blocks (length (ds @ [s]) + n')"
      "took bm1 (ss @ ts) bm'" "hdr_from ?h ss ts h'"
      using Suc.hyps(1) [OF d, of ?h n' bm1] hdr_part_direct [OF \<open>hdr_part h ds []\<close> ds, of s] Suc
        Suc.hyps(2) Suc.prems ds took_wf [OF s(1)] took_free [OF s(1)] by auto
    moreover have "hdr_from h [s] [] ?h" using set_update_subset_insert by (fastforce simp: hdr_from_def)
    from hdr_from_trans [OF this r(6)] have "hdr_from h (s # ss) ts h'" by simp
    ultimately show ?thesis using s Suc took_append [OF s(1) r(5)]
      by (intro exI [of _ h'] exI [of _ bm'] exI [of _ "s # ss"] exI [of _ ts]) (simp add: add.commute)
  qed
qed

lemma nat_divRoundUp_31: "j div 31 + (if 0 < j mod 31 then 1 else 0) = (j + 30) div 31" for j :: nat
  by (cases "j mod 31 = 0") (auto simp: div_add1_eq [of j 30] mod_eq_0_iff_dvd intro!: le_div_geq [symmetric])

lemma divRoundUp_blocks:
  assumes "4 < n" shows "divRoundUp (int n - 4) 31 = int (blocks n)"
proof -
  have "int (n - 4) mod 31 = int ((n - 4) mod 31)" by (simp add: zmod_int)
  then have "divRoundUp (int (n - 4)) 31 = int ((n - 4) div 31 + (if 0 < (n - 4) mod 31 then 1 else 0))"
    unfolding divRoundUp_def by (simp add: sdiv_nonneg smod_nonneg zdiv_int del: of_nat_diff)
  then show ?thesis using assms by (simp add: nat_divRoundUp_31 blocks_def of_nat_diff)
qed

lemma blocks_max: "n \<le> 810 \<Longrightarrow> blocks n \<le> 26"
  using blocks_mono [of n 810] by (simp add: blocks_def)

definition hdr_shape :: "FileHeader \<Rightarrow> bool" where
  "hdr_shape h \<longleftrightarrow>
     length (dataSectors h) = 4 \<and> length (indirectSector h) = 26 \<and> length (indirectPointers h) = 26"

lemma hdr_part_empty: "hdr_shape h \<Longrightarrow> hdr_part h [] []"
  by (simp add: hdr_part_def hdr_shape_def blocks_simps)

lemma file_sectors_bound:
  assumes "0 \<le> sz" "sz \<le> 103680"
  shows "0 \<le> divRoundUp sz 128" "divRoundUp sz 128 \<le> 810"
  using divRoundUp_nonneg [of sz 128] divRoundUp_tight [of sz 128] assms by simp_all

lemma Allocate_ok:
  assumes h: "hdr_shape h" and bm: "bm_wf bm" and sz: "0 \<le> sz" "sz \<le> MaxFileSize"
    and n: "n = nat (divRoundUp sz SectorSize)" and room: "int (n + blocks n) \<le> free_sectors bm"
  shows "\<exists>h' bm' ds ind. Allocate bm sz h = Inr (True, h', bm') \<and> hdr_layout h' ds ind \<and> numBytes h' = sz \<and>
    length ds = n \<and> length ind = blocks n \<and> took bm (ds @ ind) bm' \<and>
    set (dataSectors h') \<subseteq> set (dataSectors h) \<union> set ds \<and> set (indirectSector h') \<subseteq> set (indirectSector h) \<union> set ind"
proof -
  let ?h = "h\<lparr>numBytes := sz, numSectors := divRoundUp sz SectorSize\<rparr>"
  have n': "divRoundUp sz 128 = int n" "n \<le> 810"
    using file_sectors_bound [of sz] sz n by simp_all
  have "hdr_part ?h [] []" using h by (intro hdr_part_empty) (simp add: hdr_shape_def)
  then obtain h' bm' ss ts where "allocate_loop 0 n ?h bm = Inr (h', bm')" "hdr_part h' ss ts"
    "length ss = n" "length ts = blocks n" "took bm (ss @ ts) bm'"
    "hdr_from ?h ss ts h'"
    using allocate_direct [of ?h "[]" n bm] bm room n' blocks_max [of n] by auto
  moreover have "\<not> numBits bm - int (card (marked bm)) < int n"
    using room by (simp add: free_sectors_def)
  ultimately show ?thesis
    using sz n' bm by (intro exI [of _ h'] exI [of _ bm'] exI [of _ ss] exI [of _ ts])
      (simp add: Allocate_def NumClear_ok Let_def hdr_layout_def hdr_from_def)
qed

text \<open>Sizes and disks that are refused: nothing is taken from the map.\<close>

lemma Allocate_refused:
  assumes "bm_wf bm"
  shows "sz < 0 \<or> MaxFileSize < sz \<Longrightarrow> Allocate bm sz h = Inr (False, h, bm)"
    and "0 \<le> sz \<Longrightarrow> sz \<le> MaxFileSize \<Longrightarrow> free_sectors bm < divRoundUp sz SectorSize \<Longrightarrow>
      \<exists>h'. Allocate bm sz h = Inr (False, h', bm)"
  using assms by (auto simp: Allocate_def NumClear_ok free_sectors_def Let_def)

subsection \<open>Headers on disk\<close>

definition ipb_ints :: "IndirectPointerBlock \<Rightarrow> int list" where
  "ipb_ints b = ipb_numSectors b # ipb_dataSectors b"

definition on_disk :: "sectors \<Rightarrow> int \<Rightarrow> FileHeader \<Rightarrow> int list \<Rightarrow> int list \<Rightarrow> bool" where
  "on_disk d sector h ds ind \<longleftrightarrow>
     hdr_layout h ds ind \<and> (\<forall>x\<in>set (hdr_ints h) \<union> set ds. int32 x) \<and>
     set (sector # ind) \<subseteq> {0..<NumSectors} \<and> 0 \<notin> set ind \<and>
     d (nat sector) = ints_bytes (hdr_ints h) \<and>
     (\<forall>k < length ind. d (nat (ind ! k)) = ints_bytes (ipb_ints (ipb_of (block_part k ds))))"

lemma length_block_part: "length (block_part k ds) \<le> 31"
  by (simp add: block_part_def)

lemma ipb_ints_32:
  assumes "\<forall>x\<in>set ds. int32 x"
  shows "length (ipb_ints (ipb_of (block_part k ds))) = 32"
    and "\<forall>x\<in>set (ipb_ints (ipb_of (block_part k ds))). int32 x"
proof -
  have "set (block_part k ds) \<subseteq> set ds"
    unfolding block_part_def by (meson order_trans set_drop_subset set_take_subset)
  with assms length_block_part [of k ds] show "\<forall>x\<in>set (ipb_ints (ipb_of (block_part k ds))). int32 x"
    by (auto simp: ipb_ints_def ipb_of_def int32_def)
qed (use length_block_part [of k ds] in \<open>simp add: ipb_ints_def ipb_of_def\<close>)

lemma ipb_FetchFrom_ok:
  assumes "0 \<le> s" "s < 1024" "\<forall>x\<in>set ds. int32 x"
    and "d (nat s) = ints_bytes (ipb_ints (ipb_of (block_part k ds)))"
  shows "ipb_FetchFrom s d = Inr (ipb_of (block_part k ds))"
  using assms ipb_ints_32(2) [OF assms(3), of k]
  by (simp add: ipb_FetchFrom_def ReadSector_ok bytes_ints_ints_bytes ipb_ints_def)

lemma hdr_ints_inj:
  assumes "hdr_ints x = hdr_ints h" "hdr_shape x" "hdr_shape h"
  shows "numBytes x = numBytes h \<and> numSectors x = numSectors h \<and> dataSectors x = dataSectors h \<and>
    indirectSector x = indirectSector h"
  using assms by (simp add: hdr_ints_def hdr_shape_def)

text \<open>The loops over the indirect blocks, with the conditions on the number of sectors resolved.\<close>

lemma FetchFrom_loop:
  assumes disk: "on_disk d sector h ds ind"
  shows "FetchFrom sector h0 d =
    for_each [0..int (length ind) - 1] (\<lambda>i h. rbind (aget (indirectSector h) i) (\<lambda>s.
      if s \<noteq> 0 then rbind (ipb_FetchFrom s d) (set_block h i) else Inr h))
      (h0\<lparr>numBytes := numBytes h, numSectors := numSectors h, dataSectors := dataSectors h,
         indirectSector := indirectSector h\<rparr>)" (is "_ = for_each _ ?body ?h")
proof -
  have "\<forall>x\<in>set (hdr_ints h). int32 x" "d (nat sector) = ints_bytes (hdr_ints h)" "0 \<le> sector" "sector < 1024"
    using disk by (simp_all add: on_disk_def)
  then have "bytes_ints (d (nat sector)) = hdr_ints h" "ReadSector sector d = Inr (d (nat sector))"
    by (simp_all add: bytes_ints_ints_bytes ReadSector_ok)
  moreover have "hdr_shape h" using disk by (simp add: on_disk_def hdr_layout_def hdr_part_def hdr_shape_def)
  ultimately have "FetchFrom sector h0 d =
      (if 4 < numSectors h then for_each [0..divRoundUp (numSectors h - 4) 31 - 1] ?body ?h else Inr ?h)"
    by (simp add: FetchFrom_def hdr_ints_def hdr_shape_def Let_def)
  moreover have "numSectors h = int (length ds)" "length ind = blocks (length ds)"
    using disk by (simp_all add: on_disk_def hdr_layout_def hdr_part_def)
  ultimately show ?thesis
    using divRoundUp_blocks [of "length ds"] blocks_simps(1) [of "length ds"]
    by (cases "4 < length ds") simp_all
qed

lemma WriteBack_loop:
  assumes lay: "hdr_layout h ds ind" and sector: "0 \<le> sector" "sector < NumSectors"
  shows "WriteBack sector h d =
    for_each [0..int (length ind) - 1] (\<lambda>i d. rbind (aget (indirectSector h) i) (\<lambda>s.
      if s \<noteq> 0 then rbind (the_block h i) (\<lambda>b. ipb_WriteBack s b d) else Inr d))
      (d(nat sector := ints_bytes (hdr_ints h)))" (is "_ = for_each _ ?body ?d")
proof -
  have "WriteBack sector h d =
      (if 4 < numSectors h then for_each [0..divRoundUp (numSectors h - 4) 31 - 1] ?body ?d else Inr ?d)"
    using lay sector
    by (simp add: WriteBack_def WriteSector_ok length_ints_bytes hdr_layout_def hdr_part_def hdr_ints_def)
  moreover have "numSectors h = int (length ds)" "length ind = blocks (length ds)"
    using lay by (simp_all add: hdr_layout_def hdr_part_def)
  ultimately show ?thesis
    using divRoundUp_blocks [of "length ds"] blocks_simps(1) [of "length ds"]
    by (cases "4 < length ds") simp_all
qed

lemma FetchFrom_ok:
  assumes disk: "on_disk d sector h ds ind" and h0: "length (indirectPointers h0) = 26"
  shows "\<exists>h'. FetchFrom sector h0 d = Inr h' \<and> hdr_layout h' ds ind \<and> hdr_ints h' = hdr_ints h"
proof -
  let ?h = "h0\<lparr>numBytes := numBytes h, numSectors := numSectors h, dataSectors := dataSectors h,
    indirectSector := indirectSector h\<rparr>"
  let ?I = "\<lambda>i h'. hdr_ints h' = hdr_ints h \<and> hdr_shape h' \<and>
    (\<forall>k < nat i. indirectPointers h' ! k = Some (ipb_of (block_part k ds)))"
  let ?body = "\<lambda>i h. rbind (aget (indirectSector h) i) (\<lambda>s.
    if s \<noteq> 0 then rbind (ipb_FetchFrom s d) (set_block h i) else Inr h)"
  have lay: "hdr_layout h ds ind" "hdr_shape h" and len: "length ind = blocks (length ds)" "length ind \<le> 26"
    using disk by (auto simp: on_disk_def hdr_layout_def hdr_part_def hdr_shape_def)
  note inj = hdr_ints_inj [OF _ _ lay(2)]
  have "\<exists>h'. for_each [0..int (length ind) - 1] ?body ?h = Inr h' \<and> ?I (int (length ind)) h'"
  proof (rule for_loop_invariant [where I = ?I])
    show "?I 0 ?h" using lay(2) h0 by (simp add: hdr_ints_def hdr_shape_def)
  next
    fix i x assume i: "0 \<le> i" "i < int (length ind)" and x: "?I i x"
    define k where "k = nat i"
    have k: "i = int k" "k < length ind" using i by (auto simp: k_def)
    have "indirectSector x ! k = ind ! k"
      using inj [of x] x lay(1) k by (auto simp: hdr_layout_def hdr_part_def)
    moreover have "ind ! k \<in> set ind" using k by simp
    then have "0 \<le> ind ! k" "ind ! k < 1024" "ind ! k \<noteq> 0" using disk by (auto simp: on_disk_def)
    moreover have "ipb_FetchFrom (ind ! k) d = Inr (ipb_of (block_part k ds))"
      using calculation disk k by (intro ipb_FetchFrom_ok) (auto simp: on_disk_def)
    ultimately have "?body i x = Inr (x\<lparr>indirectPointers :=
        (indirectPointers x)[k := Some (ipb_of (block_part k ds))]\<rparr>)" (is "_ = Inr ?x'")
      using x k len(2) by (simp add: hdr_shape_def set_block_def)
    moreover have "?I (i + 1) ?x'"
      using x k len(2) by (simp add: hdr_shape_def hdr_ints_def nth_list_update less_Suc_eq nat_add_distrib)
    ultimately show "\<exists>x'. ?body i x = Inr x' \<and> ?I (i + 1) x'" by blast
  qed simp
  then obtain h' where h': "for_each [0..int (length ind) - 1] ?body ?h = Inr h'" "?I (int (length ind)) h'"
    by blast
  have "hdr_layout h' ds ind"
    using inj [of h'] h'(2) lay by (auto simp: hdr_layout_def hdr_part_def hdr_shape_def)
  moreover have "FetchFrom sector h0 d = Inr h'"
    using h'(1) by (simp only: FetchFrom_loop [OF disk])
  ultimately show ?thesis using h'(2) by blast
qed

lemma WriteBack_ok:
  assumes lay: "hdr_layout h ds ind" and ints: "\<forall>x\<in>set (hdr_ints h) \<union> set ds. int32 x"
    and range: "set (sector # ind) \<subseteq> {0..<NumSectors}" and nz: "0 \<notin> set ind" and dist: "distinct (sector # ind)"
  shows "\<exists>d'. WriteBack sector h d = Inr d' \<and> on_disk d' sector h ds ind \<and>
    (\<forall>s. s \<notin> nat ` set (sector # ind) \<longrightarrow> d' s = d s)"
proof -
  let ?blk = "\<lambda>k. ints_bytes (ipb_ints (ipb_of (block_part k ds)))"
  let ?d = "d(nat sector := ints_bytes (hdr_ints h))"
  let ?I = "\<lambda>i d'. (\<forall>k < nat i. d' (nat (ind ! k)) = ?blk k) \<and>
    (\<forall>s. s \<notin> nat ` set ind \<longrightarrow> d' s = ?d s)"
  let ?body = "\<lambda>i d. rbind (aget (indirectSector h) i) (\<lambda>s.
    if s \<noteq> 0 then rbind (the_block h i) (\<lambda>b. ipb_WriteBack s b d) else Inr d)"
  have inj: "nat (ind ! k) = nat (ind ! m) \<Longrightarrow> k = m" if "k < length ind" "m < length ind" for k m
  proof -
    assume "nat (ind ! k) = nat (ind ! m)"
    moreover have "0 \<le> ind ! k" "0 \<le> ind ! m" using range that by (auto dest: nth_mem)
    ultimately have "ind ! k = ind ! m" by simp
    then show ?thesis using dist that by (simp add: nth_eq_iff_index_eq)
  qed
  have "\<exists>d'. for_each [0..int (length ind) - 1] ?body ?d = Inr d' \<and> ?I (int (length ind)) d'"
  proof (rule for_loop_invariant [where I = ?I])
    fix i d' assume i: "0 \<le> i" "i < int (length ind)" and d': "?I i d'"
    define k where "k = nat i"
    have k: "i = int k" "k < length ind" using i by (auto simp: k_def)
    have "ind ! k \<in> set ind" using k by simp
    then have "0 \<le> ind ! k" "ind ! k < 1024" "ind ! k \<noteq> 0" using range nz by auto
    then have "?body i d' = Inr (d'(nat (ind ! k) := ?blk k))" (is "_ = Inr ?d'")
      using lay k ipb_ints_32(1) [of ds k] ints
      by (simp add: hdr_layout_def hdr_part_def the_block_def ipb_WriteBack_def WriteSector_ok length_ints_bytes
          ipb_ints_def)
    moreover have "?I (i + 1) ?d'"
    proof (intro conjI allI impI)
      fix m assume "m < nat (i + 1)"
      then show "?d' (nat (ind ! m)) = ?blk m"
        using d' k inj [of k m] by (cases "m = k") (auto simp: nat_add_distrib)
    qed (use d' \<open>ind ! k \<in> set ind\<close> in auto)
    ultimately show "\<exists>d''. ?body i d' = Inr d'' \<and> ?I (i + 1) d''" by blast
  qed simp_all
  then obtain d' where d': "WriteBack sector h d = Inr d'" "?I (int (length ind)) d'"
    using WriteBack_loop [OF lay, of sector d] range by auto
  have sec: "nat sector \<notin> nat ` set ind"
  proof
    assume "nat sector \<in> nat ` set ind"
    then obtain x where "x \<in> set ind" "nat sector = nat x" by blast
    then have "x = sector" using range by (auto simp: eq_nat_nat_iff)
    with \<open>x \<in> set ind\<close> dist show False by simp
  qed
  then have "on_disk d' sector h ds ind"
    using d'(2) lay ints range nz by (simp add: on_disk_def)
  with d' sec show ?thesis by auto
qed

subsection \<open>Finding a byte\<close>

lemma ByteToSector_direct:
  assumes "hdr_layout h ds ind" "0 \<le> off" "off < 512" "nat (off div 128) < length ds"
  shows "ByteToSector off h = Inr (ds ! nat (off div 128))"
proof -
  have "off div 128 < 4" "0 \<le> off div 128" using assms by auto
  with assms show ?thesis
    by (simp add: ByteToSector_def sdiv_nonneg hdr_layout_def hdr_part_def nat_less_iff)
qed

lemma block_part_nth:
  "i < 31 \<Longrightarrow> 4 + 31 * k + i < length ds \<Longrightarrow>
     ipb_dataSectors (ipb_of (block_part k ds)) ! i = ds ! (4 + 31 * k + i)"
  by (auto simp: block_part_def ipb_of_def nth_append)

text \<open>Beyond the direct sectors the code always looks into block \<open>(n - 4) div 31\<close> of a file of \<open>n\<close> sectors.\<close>

lemma ByteToSector_indirect:
  assumes lay: "hdr_layout h ds ind" and off: "512 \<le> off"
    and r: "r = (length ds - 4) div 31" and i: "i = nat ((off - 512) div 128)"
    and lt: "i < 31" "4 + 31 * r + i < length ds"
  shows "ByteToSector off h = Inr (ds ! (4 + 31 * r + i))"
proof -
  have "4 \<le> off div 128" "0 \<le> (off - 512) div 128" using off by auto
  then have i': "(off - 512) div 128 = int i" using i by simp
  have len: "length ds \<le> 810"
  proof (rule ccontr)
    assume "\<not> length ds \<le> 810"
    then have "blocks 811 \<le> blocks (length ds)" by (intro blocks_mono) simp
    with lay show False by (simp add: hdr_layout_def hdr_part_def blocks_def)
  qed
  have "(int (length ds) - 4) mod 2 ^ 32 div 31 = int r"
    using lt len r by (simp add: zdiv_int of_nat_diff)
  moreover have "r < length ind"
  proof -
    have "length ds - 4 - 31 * r = (length ds - 4) mod 31" using r by (simp add: minus_mult_div_eq_mod)
    then have "length ds - 4 - 31 * r \<le> 31" by simp
    then have "blocks (4 + 31 * r + (length ds - 4 - 31 * r)) = Suc r"
      using lt(2) by (intro blocks_simps(2)) linarith+
    with lay lt show ?thesis by (simp add: hdr_layout_def hdr_part_def)
  qed
  then have "the_block h (int r) = Inr (ipb_of (block_part r ds))"
    using lay by (simp add: the_block_def hdr_layout_def hdr_part_def)
  moreover have "numSectors h = int (length ds)" using lay by (simp add: hdr_layout_def)
  ultimately have "ByteToSector off h = ipb_ByteToSector (off - 512) (ipb_of (block_part r ds))"
    using off \<open>4 \<le> off div 128\<close> by (simp add: ByteToSector_def sdiv_nonneg Let_def)
  then show ?thesis
    using off i' lt length_ipb_of [OF length_block_part, of r ds] block_part_nth [of i r ds]
    by (simp add: ipb_ByteToSector_def sdiv_nonneg)
qed

lemma ByteToSector_small:
  assumes lay: "hdr_layout h ds ind" and len: "length ds \<le> 34" and off: "0 \<le> off" "nat (off div 128) < length ds"
  shows "ByteToSector off h = Inr (ds ! nat (off div 128))"
proof (cases "off < 512")
  case True
  then show ?thesis using ByteToSector_direct [OF lay] off by simp
next
  case False
  let ?i = "nat ((off - 512) div 128)"
  have "off div 128 = 4 + (off - 512) div 128" "0 \<le> (off - 512) div 128" using False by auto
  then have i: "nat (off div 128) = 4 + ?i" by (simp add: nat_add_distrib)
  have "(length ds - 4) div 31 = 0" using len by simp
  with ByteToSector_indirect [OF lay, of off 0 ?i] False i off len show ?thesis by simp
qed

subsection \<open>Deallocation\<close>

lemma ipb_Deallocate_partial:
  assumes bm: "bm_wf bm" "0 < numBits bm" and xs: "0 < length xs" "length xs < 31"
  shows "\<exists>b bm'. ipb_Deallocate (ipb_of xs) bm = Inr (b, bm') \<and> bm_wf bm' \<and> numBits bm' = numBits bm \<and>
    marked bm' = marked bm - {0}"
proof -
  let ?I = "\<lambda>i b. bm_wf b \<and> numBits b = numBits bm \<and> marked b = (if 0 < i then marked bm - {0} else marked bm)"
  let ?body = "\<lambda>i b. rbind (aget (ipb_dataSectors (ipb_of xs)) (ipb_numSectors (ipb_of xs))) (\<lambda>s. Clear b s)"
  have slot: "aget (ipb_dataSectors (ipb_of xs)) (ipb_numSectors (ipb_of xs)) = Inr 0"
    using xs by (simp add: ipb_of_def nth_append)
  have "\<exists>b. for_each [0..int (length xs) - 1] ?body bm = Inr b \<and> ?I (int (length xs)) b"
  proof (rule for_loop_invariant [where I = ?I])
    fix i :: int and b assume i: "0 \<le> i" and b: "?I i b"
    then obtain b' where "Clear b 0 = Inr b'" "bm_wf b'" "numBits b' = numBits b" "marked b' = marked b - {0}"
      using Clear_ok [of b 0] bm by (metis in_rangeI order_refl)
    then show "\<exists>b'. ?body i b = Inr b' \<and> ?I (i + 1) b'"
      using i b slot by auto
  qed (use bm in simp_all)
  then show ?thesis using xs by (auto simp: ipb_Deallocate_def ipb_of_def)
qed

lemma ipb_Deallocate_full: "length xs = 31 \<Longrightarrow> ipb_Deallocate (ipb_of xs) bm = Inl OutOfBounds"
  by (simp add: ipb_Deallocate_def ipb_of_def aget_out upto_rec1)

lemma for_each_skip: "for_each xs (\<lambda>i b. Inr b) bm = Inr bm"
  by (induction xs) simp_all

lemma Deallocate_small:
  assumes lay: "hdr_layout h ds ind" and len: "length ds < 4" and bm: "bm_wf bm" "set ds \<subseteq> marked bm" "distinct ds"
  shows "\<exists>bm'. Deallocate h bm = Inr (h, bm') \<and> bm_wf bm' \<and> numBits bm' = numBits bm \<and> marked bm' = marked bm - set ds"
proof -
  let ?I = "\<lambda>i b. bm_wf b \<and> numBits b = numBits bm \<and> marked b = marked bm - set (take (nat i) ds)"
  let ?body = "\<lambda>i b. rbind (aget (dataSectors h) i) (\<lambda>s.
    rbind (Test b s) (\<lambda>marked. rbind (ASSERT marked) (\<lambda>_. Clear b s)))"
  have "\<exists>b. for_each [0..int (length ds) - 1] ?body bm = Inr b \<and> ?I (int (length ds)) b"
  proof (rule for_loop_invariant [where I = ?I])
    fix i b assume i: "0 \<le> i" "i < int (length ds)" and b: "?I i b"
    define k where "k = nat i"
    have k: "i = int k" "k < length ds" using i by (auto simp: k_def)
    have "ds ! k \<notin> set (take k ds)"
      using bm(3) k by (auto simp: in_set_conv_nth nth_eq_iff_index_eq)
    moreover have "ds ! k \<in> marked bm" using bm(2) k by auto
    ultimately have m: "ds ! k \<in> marked b" using b k by simp
    then have r: "in_range b (ds ! k)" by (simp add: marked_def)
    obtain b' where "Clear b (ds ! k) = Inr b'" "bm_wf b'" "numBits b' = numBits b" "marked b' = marked b - {ds ! k}"
      using Clear_ok [OF _ r] b by blast
    moreover have "aget (dataSectors h) i = Inr (ds ! k)"
      using lay k len by (simp add: hdr_layout_def hdr_part_def)
    ultimately show "\<exists>b'. ?body i b = Inr b' \<and> ?I (i + 1) b'"
      using b k m r by (auto simp: Test_ok nat_add_distrib take_Suc_conv_app_nth)
  qed (use bm in simp_all)
  then show ?thesis using lay len by (auto simp: Deallocate_def hdr_layout_def)
qed

lemma Deallocate_large:
  assumes lay: "hdr_layout h ds ind" and len: "4 < length ds"
  shows "length ds < 35 \<Longrightarrow> bm_wf bm \<Longrightarrow> 0 < numBits bm \<Longrightarrow> set ind \<subseteq> marked bm \<Longrightarrow>
      \<exists>h' bm'. Deallocate h bm = Inr (h', bm') \<and> bm_wf bm' \<and> marked bm' = marked bm - {0, ind ! 0}"
    and "35 \<le> length ds \<Longrightarrow> Deallocate h bm = Inl OutOfBounds"
proof -
  let ?b = "ipb_of (block_part 0 ds)"
  let ?body = "\<lambda>i (h, bm).
         rbind (the_block h i) (\<lambda>b.
         rbind (ipb_Deallocate b bm) (\<lambda>(b, bm).
         rbind (set_block h i b) (\<lambda>h.
         rbind (aget (indirectSector h) i) (\<lambda>s.
         rbind (Clear bm s) (\<lambda>bm. Inr (h, bm))))))"
  have ns: "numSectors h = int (length ds)" "length ind = blocks (length ds)" using lay
    by (simp_all add: hdr_layout_def hdr_part_def)
  have "0 < blocks (length ds)" using len blocks_mono [of 5 "length ds"] by (simp add: blocks_def)
  with lay ns have b: "the_block h 0 = Inr ?b" "indirectSector h ! 0 = ind ! 0" "0 < length ind"
    "0 < length (indirectSector h)" "0 < length (indirectPointers h)"
    by (auto simp: hdr_layout_def hdr_part_def the_block_def)
  have run: "Deallocate h bm = for_each [0..int (blocks (length ds)) - 1] ?body (h, bm)"
    using len ns divRoundUp_blocks [OF len] by (simp add: Deallocate_def for_each_skip)
  show "Deallocate h bm = Inl OutOfBounds" if "35 \<le> length ds"
  proof -
    have "ipb_Deallocate ?b bm = Inl OutOfBounds"
      using that by (intro ipb_Deallocate_full) (simp add: block_part_def)
    with run b(1) \<open>0 < blocks (length ds)\<close> show ?thesis by (simp add: upto_rec1)
  qed
  assume *: "length ds < 35" "bm_wf bm" "0 < numBits bm" "set ind \<subseteq> marked bm"
  have part: "0 < length (block_part 0 ds)" "length (block_part 0 ds) < 31"
    using *(1) len by (simp_all add: block_part_def)
  obtain b' bm1 where 1: "ipb_Deallocate ?b bm = Inr (b', bm1)" "bm_wf bm1" "numBits bm1 = numBits bm"
    "marked bm1 = marked bm - {0}"
    using ipb_Deallocate_partial [OF *(2,3) part] by blast
  have "ind ! 0 \<in> marked bm" using * b(3) by auto
  then have "in_range bm1 (ind ! 0)" using 1(3) by (simp add: marked_def in_range_def)
  then obtain bm2 where "Clear bm1 (ind ! 0) = Inr bm2" "bm_wf bm2" "marked bm2 = marked bm1 - {ind ! 0}"
    using Clear_ok [OF 1(2)] by metis
  moreover have "blocks (length ds) = 1"
    using blocks_simps(2) [of "length ds - 4" 0] * len by simp
  ultimately show "\<exists>h' bm'. Deallocate h bm = Inr (h', bm') \<and> bm_wf bm' \<and> marked bm' = marked bm - {0, ind ! 0}"
    using run b 1 by (auto simp: set_block_def)
qed

subsection \<open>Properties\<close>

definition sample_map :: bitmap where
  "sample_map = \<lparr>numBits = 64, numWords = 2, map_words = [1, 0]\<rparr>"

lemma sample_map_facts: "bm_wf sample_map" "marked sample_map = {0}" "numBits sample_map = 64"
proof -
  show "bm_wf sample_map" by (simp add: bm_wf_def sample_map_def BitsInWord_def divRoundUp_def)
  have "bit_at sample_map i \<longleftrightarrow> i = 0" if "0 \<le> i" "i < 64" for i
  proof (cases "i < 32")
    case True
    with that show ?thesis by (auto simp: bit_at_def sample_map_def bit_1_iff)
  next
    case False
    with that have "i div 32 = 1" by auto
    with False show ?thesis by (auto simp: bit_at_def sample_map_def)
  qed
  then show "marked sample_map = {0}" by (auto simp: marked_def in_range_def sample_map_def)
  show "numBits sample_map = 64" by (simp add: sample_map_def)
qed

definition sample_hdr :: FileHeader where
  "sample_hdr = zero_FileHeader\<lparr>numBytes := 600, numSectors := 5, dataSectors := [2, 3, 4, 5],
     indirectSector := 7 # replicate 25 0, indirectPointers := Some (ipb_of [6]) # replicate 25 None\<rparr>"

lemma sample_hdr_layout: "hdr_layout sample_hdr [2, 3, 4, 5, 6] [7]"
  by (simp add: hdr_layout_def hdr_part_def sample_hdr_def zero_FileHeader_def blocks_def block_part_def All_less_Suc)



text \<open>
  The test for free sectors does not count the indirect blocks: with five free sectors a file of five sectors is
  accepted, its fifth data sector is the \<open>-1\<close> of a full map.
\<close>

lemma Allocate_overcommits:
  "(case Allocate \<lparr>numBits = 5, numWords = 1, map_words = [0]\<rparr> 640 zero_FileHeader of
      Inl _ \<Rightarrow> False | Inr (ok, h, bm) \<Rightarrow> ok \<and> ByteToSector 512 h = Inr (-1))"
  by code_simp

text \<open>
  C21: headers survive the disk. Writing a header back and fetching it, into an object with arbitrary contents, gives a
  header with the same fields that describes the same data sectors and indirect blocks; the only sectors written are
  the header's own and those of its indirect blocks.
\<close>

theorem header_roundtrip:
  assumes "hdr_layout h ds ind" and "\<forall>x\<in>set (hdr_ints h) \<union> set ds. int32 x"
    and "set (sector # ind) \<subseteq> {0..<NumSectors}" and "0 \<notin> set ind" and "distinct (sector # ind)"
    and "length (indirectPointers h0) = 26"
  shows "\<exists>d' h'. WriteBack sector h d = Inr d' \<and> FetchFrom sector h0 d' = Inr h' \<and>
    hdr_layout h' ds ind \<and> hdr_ints h' = hdr_ints h \<and> (\<forall>s. s \<notin> nat ` set (sector # ind) \<longrightarrow> d' s = d s)"
  using WriteBack_ok [OF assms(1-5), of d] FetchFrom_ok [OF _ assms(6)] by blast

theorem header_roundtrip_witness:
  "\<exists>d' h'. WriteBack 9 sample_hdr (\<lambda>_. []) = Inr d' \<and> FetchFrom 9 zero_FileHeader d' = Inr h' \<and>
     hdr_layout h' [2, 3, 4, 5, 6] [7] \<and> hdr_ints h' = hdr_ints sample_hdr"
  using header_roundtrip [OF sample_hdr_layout, of 9 zero_FileHeader "\<lambda>_. []"]
  by (auto simp: hdr_ints_def sample_hdr_def zero_FileHeader_def int32_def)

text \<open>
  C22: \<^verbatim>\<open>FileHeader::ByteToSector\<close>. For a file of at most 34 sectors, and for the first four sectors of every
  file, it finds the data sector that holds the byte. In a longer file of \<open>n\<close> sectors the block is chosen by the
  length of the file and not by the offset: byte \<open>off\<close> is looked up in block \<open>r = (n - 4) div 31\<close>, at the entry that it
  has in block 0, so that for \<open>r > 0\<close> the bytes of block 0 are read from and written to the sectors of block \<open>r\<close>.
\<close>

theorem ByteToSector_finds_sector:
  assumes "hdr_layout h ds ind" and "0 \<le> off" and "nat (off div SectorSize) < length ds"
  shows "(length ds \<le> 34 \<or> off < NumDirect * SectorSize \<longrightarrow> ByteToSector off h = Inr (ds ! nat (off div SectorSize))) \<and>
    (\<forall>r i. r = (length ds - 4) div 31 \<and> i < 31 \<and> off div SectorSize = int (4 + i) \<and> 4 + 31 * r + i < length ds \<longrightarrow>
       ByteToSector off h = Inr (ds ! (4 + 31 * r + i)))"
proof -
  have "ByteToSector off h = Inr (ds ! (4 + 31 * r + i))"
    if "r = (length ds - 4) div 31" "i < 31" "off div 128 = int (4 + i)" "4 + 31 * r + i < length ds" for r i
  proof -
    have "512 \<le> off" "(off - 512) div 128 = int i" using that(3) by auto
    with that show ?thesis by (intro ByteToSector_indirect [OF assms(1)]) auto
  qed
  with assms show ?thesis by (auto simp: ByteToSector_small ByteToSector_direct)
qed

theorem ByteToSector_finds_sector_witness:
  "ByteToSector 300 sample_hdr = Inr 4 \<and> ByteToSector 599 sample_hdr = Inr 6"
  using ByteToSector_finds_sector [OF sample_hdr_layout, of 300] ByteToSector_finds_sector [OF sample_hdr_layout, of 599]
  by simp

text \<open>
  C23: what \<^verbatim>\<open>FileHeader::Deallocate\<close> gives back. For a file of fewer than four sectors, exactly its sectors. For a
  file of four sectors, nothing. For five to 34 sectors none of the data sectors: it clears the sector of the indirect
  block and sector 0, which holds the header of the free map itself. From 35 sectors on it reads outside the array of
  the first indirect block.
\<close>

theorem Deallocate_effect:
  assumes "hdr_layout h ds ind" and "bm_wf bm" and "0 < numBits bm" and "set (ds @ ind) \<subseteq> marked bm"
    and "distinct (ds @ ind)"
  shows "(length ds < 4 \<longrightarrow> (\<exists>bm'. Deallocate h bm = Inr (h, bm') \<and> marked bm' = marked bm - set ds)) \<and>
    (length ds = 4 \<longrightarrow> Deallocate h bm = Inr (h, bm)) \<and>
    (4 < length ds \<and> length ds < 35 \<longrightarrow>
       (\<exists>h' bm'. Deallocate h bm = Inr (h', bm') \<and> marked bm' = marked bm - {FreeMapSector, ind ! 0})) \<and>
    (35 \<le> length ds \<longrightarrow> Deallocate h bm = Inl OutOfBounds)"
proof -
  have sub: "set ds \<subseteq> marked bm" "set ind \<subseteq> marked bm" "distinct ds" using assms(4,5) by auto
  have "Deallocate h bm = Inr (h, bm)" if "length ds = 4"
    using assms(1) that by (simp add: Deallocate_def hdr_layout_def for_each_skip)
  moreover have "\<exists>bm'. Deallocate h bm = Inr (h, bm') \<and> marked bm' = marked bm - set ds" if "length ds < 4"
    using Deallocate_small [OF assms(1) that assms(2) sub(1,3)] by blast
  moreover have "\<exists>h' bm'. Deallocate h bm = Inr (h', bm') \<and> marked bm' = marked bm - {FreeMapSector, ind ! 0}"
    if "4 < length ds" "length ds < 35"
    using Deallocate_large(1) [OF assms(1) that assms(2,3) sub(2)] unfolding fs_consts by blast
  moreover have "Deallocate h bm = Inl OutOfBounds" if "35 \<le> length ds"
    using Deallocate_large(2) [OF assms(1) _ that] that by simp
  ultimately show ?thesis by blast
qed

theorem Deallocate_effect_witness:
  "\<exists>h' bm'. Deallocate sample_hdr (sample_map\<lparr>map_words := [255, 0]\<rparr>) = Inr (h', bm') \<and> 2 \<in> marked bm' \<and> 0 \<notin> marked bm'"
proof -
  let ?bm = "sample_map\<lparr>map_words := [255, 0]\<rparr>"
  have wf: "bm_wf ?bm" by (simp add: bm_wf_def sample_map_def BitsInWord_def divRoundUp_def)
  have "bit (255 :: 32 word) k" if "k < 8" for k
    using that by (auto simp: numeral_eq_Suc less_Suc_eq)
  then have "{2, 3, 4, 5, 6, 7} \<subseteq> marked ?bm"
    by (simp add: marked_def in_range_def bit_at_def sample_map_def)
  with Deallocate_effect [OF sample_hdr_layout wf] show ?thesis
    by (auto simp: sample_map_def)
qed

end
