(* ===== verification/Open_File.thy ===== *)
theory Open_File
  imports File_Header
begin

text \<open>
  Open files: \<^verbatim>\<open>filesys/openfile.cc\<close> in the build with \<^verbatim>\<open>FILESYS\<close>, \<^verbatim>\<open>FileHeader::ExtendFile\<close> of
  \<^verbatim>\<open>filesys/filehdr.cc\<close>, which opens the file of the free map, and the two operations of \<^verbatim>\<open>userprog/bitmap.cc\<close> that
  keep a bitmap in a file.

  A write past the end extends the file, which rewrites the free map, which is a file: \<open>WriteAt\<close> is recursive,
  and the recursion need not end when the header of the free map is damaged. It is a partial function whose value
  \<open>None\<close> stands for a call that does not return. What \<^verbatim>\<open>new\<close> leaves in objects and buffers
  that have no constructor is the argument \<open>u\<close>, a record \<open>fresh\<close>.

  The lemmas show that inside its sectors a file is an array of bytes. The last part shows what happens at its end.
\<close>

record fresh =
  fresh_words :: "nat \<Rightarrow> 32 word"
  fresh_hdr :: FileHeader
  fresh_bytes :: "nat \<Rightarrow> 8 word"

record OpenFile =
  hdr :: FileHeader
  seekPosition :: int
  hdrSector :: int

subsection \<open>Reading\<close>

definition new_OpenFile :: "fresh \<Rightarrow> int \<Rightarrow> sectors \<Rightarrow> OpenFile result" where
  "new_OpenFile u sector d =
     rbind (FetchFrom sector (fresh_hdr u) d) (\<lambda>h. Inr \<lparr>hdr = h, seekPosition = 0, hdrSector = sector\<rparr>)"

definition Seek :: "int \<Rightarrow> OpenFile \<Rightarrow> OpenFile" where
  "Seek position f = f\<lparr>seekPosition := position\<rparr>"

definition Length :: "OpenFile \<Rightarrow> int" where
  "Length f = FileLength (hdr f)"

text \<open>\<^verbatim>\<open>bcopy\<close> out of and into a buffer.\<close>

definition copy_out :: "8 word list \<Rightarrow> int \<Rightarrow> int \<Rightarrow> 8 word list result" where
  "copy_out buf off n =
     (if 0 \<le> off \<and> 0 \<le> n \<and> off + n \<le> int (length buf) then Inr (take (nat n) (drop (nat off) buf))
      else Inl OutOfBounds)"

definition copy_in :: "8 word list \<Rightarrow> int \<Rightarrow> 8 word list \<Rightarrow> int \<Rightarrow> 8 word list result" where
  "copy_in buf off src n =
     (if 0 \<le> off \<and> 0 \<le> n \<and> off + n \<le> int (length buf) \<and> n \<le> int (length src)
      then Inr (take (nat off) buf @ take (nat n) src @ drop (nat (off + n)) buf)
      else Inl OutOfBounds)"

definition read_sectors :: "FileHeader \<Rightarrow> int \<Rightarrow> int \<Rightarrow> sectors \<Rightarrow> 8 word list result" where
  "read_sectors h first_sector last_sector d =
     for_each [first_sector..last_sector] (\<lambda>i buf.
       rbind (ByteToSector (i * SectorSize) h) (\<lambda>s.
       rbind (ReadSector s d) (\<lambda>bs. Inr (buf @ bs)))) []"

text \<open>The number returned, and the bytes copied to the caller's buffer.\<close>

definition ReadAt :: "OpenFile \<Rightarrow> int \<Rightarrow> int \<Rightarrow> sectors \<Rightarrow> (int \<times> 8 word list) result" where
  "ReadAt f n position d =
     (if n \<le> 0 \<or> position \<ge> FileLength (hdr f) then Inr (0, [])
      else
        let first_sector = divRoundDown position SectorSize;
            last_sector = divRoundDown (position + n - 1) SectorSize in
        rbind (read_sectors (hdr f) first_sector last_sector d) (\<lambda>buf.
        rbind (copy_out buf (position - first_sector * SectorSize) n) (\<lambda>bs. Inr (n, bs))))"

definition Read :: "OpenFile \<Rightarrow> int \<Rightarrow> sectors \<Rightarrow> (int \<times> 8 word list \<times> OpenFile) result" where
  "Read f n d =
     rbind (ReadAt f n (seekPosition f) d) (\<lambda>(result, bs).
     Inr (result, bs, f\<lparr>seekPosition := seekPosition f + result\<rparr>))"

subsection \<open>A bitmap in a file\<close>

definition words_bytes :: "32 word list \<Rightarrow> 8 word list" where
  "words_bytes ws = concat (map (bytes_le 4) ws)"

fun bytes_words :: "8 word list \<Rightarrow> 32 word list" where
  "bytes_words (a # b # c # d # bs) = word_le [a, b, c, d] # bytes_words bs"
| "bytes_words _ = []"

definition bm_FetchFrom :: "OpenFile \<Rightarrow> bitmap \<Rightarrow> sectors \<Rightarrow> bitmap result" where
  "bm_FetchFrom file bm d =
     rbind (ReadAt file (numWords bm * 4) 0 d) (\<lambda>(n, bs).
     rbind (copy_in (words_bytes (map_words bm)) 0 bs n) (\<lambda>bs.
     Inr (bm\<lparr>map_words := bytes_words bs\<rparr>)))"

subsection \<open>Extending a header\<close>

text \<open>The loop of \<^verbatim>\<open>ExtendFile\<close>: its index \<open>i\<close> does not change.\<close>

function extend_loop :: "int \<Rightarrow> nat \<Rightarrow> FileHeader \<Rightarrow> bitmap \<Rightarrow> (FileHeader \<times> bitmap) result" where
  "extend_loop i n h bm =
     (if n = 0 then Inr (h, bm)
      else if i < NumDirect then
        rbind (Find bm) (\<lambda>(s, bm).
        rbind (aset (dataSectors h) i s) (\<lambda>xs.
        extend_loop i (n - 1) (h\<lparr>dataSectors := xs, numSectors := numSectors h + 1\<rparr>) bm))
      else
        rbind (set_block h (i - NumDirect) new_IndirectPointerBlock) (\<lambda>h.
        let k = min n (nat MaxIndirectPointers) in
        rbind (the_block h (i - NumDirect)) (\<lambda>b.
        rbind (fill_block k b bm) (\<lambda>(b, bm).
        rbind (set_block h (i - NumDirect) b) (\<lambda>h.
        extend_loop i (n - k) (h\<lparr>numSectors := numSectors h + int k\<rparr>) bm)))))"
  by pat_completeness auto

termination
  by (relation "measure (\<lambda>(i, n, h, bm). n)") auto

declare extend_loop.simps [simp del]

text \<open>
  \<^verbatim>\<open>ExtendFile\<close> up to the point where it writes the free map back: refused (\<open>None\<close>), or the open free map
  file, the map to write to it and the extended header.
\<close>

definition extend_hdr :: "fresh \<Rightarrow> FileHeader \<Rightarrow> int \<Rightarrow> sectors \<Rightarrow>
    ((OpenFile \<times> bitmap \<times> FileHeader) option) result" where
  "extend_hdr u h sectorsToAllocate d =
     (let n = sectorsToAllocate - numSectors h in
      if n \<le> 0 then Inr None
      else
        rbind (new_OpenFile u FreeMapSector d) (\<lambda>freeMapFile.
        rbind (BitMap (fresh_words u) NumSectors) (\<lambda>freeMap.
        rbind (bm_FetchFrom freeMapFile freeMap d) (\<lambda>freeMap.
        rbind (NumClear freeMap) (\<lambda>c.
        if c < n then Inr None
        else rbind (extend_loop (numSectors h) (nat n) h freeMap) (\<lambda>(h, freeMap).
             Inr (Some (freeMapFile, freeMap, h))))))))"

subsection \<open>Writing\<close>

text \<open>
  The steps that the three cases share: the partial sectors at the two ends are read into the buffer, the new bytes are
  copied over them, and the sectors are written.
\<close>

definition read_ends :: "OpenFile \<Rightarrow> int \<Rightarrow> int \<Rightarrow> int \<Rightarrow> int \<Rightarrow> 8 word list \<Rightarrow> sectors \<Rightarrow> 8 word list result" where
  "read_ends f first_sector last_sector n position buf d =
     (let firstAligned = (position = first_sector * SectorSize);
          lastAligned = (position + n = (last_sector + 1) * SectorSize) in
      rbind (if \<not> firstAligned then
               rbind (ReadAt f SectorSize (first_sector * SectorSize) d) (\<lambda>(k, bs). copy_in buf 0 bs k)
             else Inr buf) (\<lambda>buf.
      if \<not> lastAligned \<and> (first_sector \<noteq> last_sector \<or> firstAligned) then
        rbind (ReadAt f SectorSize (last_sector * SectorSize) d) (\<lambda>(k, bs).
        copy_in buf ((last_sector - first_sector) * SectorSize) bs k)
      else Inr buf))"

definition write_sectors :: "FileHeader \<Rightarrow> int \<Rightarrow> int \<Rightarrow> 8 word list \<Rightarrow> sectors \<Rightarrow> sectors result" where
  "write_sectors h first_sector last_sector buf d =
     for_each [first_sector..last_sector] (\<lambda>i d.
       rbind (ByteToSector (i * SectorSize) h) (\<lambda>s.
       WriteSector s (drop (nat ((i - first_sector) * SectorSize)) buf) d)) d"

definition write_range ::
    "OpenFile \<Rightarrow> 8 word list \<Rightarrow> int \<Rightarrow> int \<Rightarrow> int \<Rightarrow> int \<Rightarrow> 8 word list \<Rightarrow> sectors \<Rightarrow> sectors result" where
  "write_range f from n position first_sector last_sector buf d =
     rbind (read_ends f first_sector last_sector n position buf d) (\<lambda>buf.
     rbind (copy_in buf (position - first_sector * SectorSize) from n) (\<lambda>buf.
     write_sectors (hdr f) first_sector last_sector buf d))"

text \<open>The file length rounded up to whole sectors.\<close>

definition padded_length :: "OpenFile \<Rightarrow> int" where
  "padded_length f =
     (let fileLength = FileLength (hdr f) in
      if fileLength smod SectorSize \<noteq> 0 then fileLength + (SectorSize - fileLength smod SectorSize) else fileLength)"

text \<open>Cases 2 and 3 after the header has been extended.\<close>

definition write_past :: "OpenFile \<Rightarrow> 8 word list \<Rightarrow> int \<Rightarrow> int \<Rightarrow> int \<Rightarrow> sectors \<Rightarrow> (int \<times> OpenFile \<times> sectors) result" where
  "write_past f from n position start d =
     (let first_sector = divRoundDown start SectorSize;
          last_sector = divRoundDown (position + n - 1) SectorSize;
          buf = replicate (nat ((1 + last_sector - first_sector) * SectorSize)) 0 in
      rbind (write_range f from n position first_sector last_sector buf d) (\<lambda>d.
      let f = f\<lparr>hdr := setNumBytes (n + start) (hdr f)\<rparr> in
      rbind (WriteBack (hdrSector f) (hdr f) d) (\<lambda>d. Inr (n, f, d))))"

partial_function (option) WriteAt :: "fresh \<Rightarrow> OpenFile \<Rightarrow> 8 word list \<Rightarrow> int \<Rightarrow> int \<Rightarrow>
    sectors \<Rightarrow> (int \<times> OpenFile \<times> sectors) result option" where
  "WriteAt u f from n position d =
     (case ByteToSector 0 (hdr f) of
        Inl e \<Rightarrow> Some (Inl e)
      | Inr first_file_sector \<Rightarrow>
          if position + n \<le> padded_length f then
            (let first_sector = divRoundDown position SectorSize;
                 last_sector = divRoundDown (position + n - 1) SectorSize;
                 buf = map (fresh_bytes u) [0..<nat ((1 + last_sector - first_sector) * SectorSize)] in
             Some (rbind (write_range f from n position first_sector last_sector buf d) (\<lambda>d. Inr (n, f, d))))
          else
            (let start = (if position < padded_length f then position else padded_length f);
                 sectors = 1 + divRoundDown (position + n - 1) SectorSize - divRoundDown start SectorSize in
             case extend_hdr u (hdr f) sectors d of
               Inl e \<Rightarrow> Some (Inl e)
             | Inr None \<Rightarrow> Some (write_past f from n position start d)
             | Inr (Some (freeMapFile, freeMap, h)) \<Rightarrow>
                 Option.bind
                   (WriteAt u freeMapFile (words_bytes (map_words freeMap)) (numWords freeMap * 4) 0 d)
                   (\<lambda>r. case r of
                       Inl e \<Rightarrow> Some (Inl e)
                     | Inr (k, freeMapFile, d) \<Rightarrow> Some (write_past (f\<lparr>hdr := h\<rparr>) from n position start d))))"

definition Write :: "fresh \<Rightarrow> OpenFile \<Rightarrow> 8 word list \<Rightarrow> int \<Rightarrow> sectors \<Rightarrow> (int \<times> OpenFile \<times> sectors) result option" where
  "Write u f from n d =
     map_option (\<lambda>r. rbind r (\<lambda>(result, f, d).
        Inr (result, f\<lparr>seekPosition := seekPosition f + result\<rparr>, d))) (WriteAt u f from n (seekPosition f) d)"

definition bm_WriteBack :: "fresh \<Rightarrow> OpenFile \<Rightarrow> bitmap \<Rightarrow> sectors \<Rightarrow> (OpenFile \<times> sectors) result option" where
  "bm_WriteBack u file bm d =
     map_option (\<lambda>r. rbind r (\<lambda>(k, file, d). Inr (file, d)))
       (WriteAt u file (words_bytes (map_words bm)) (numWords bm * 4) 0 d)"

definition ExtendFile :: "fresh \<Rightarrow> FileHeader \<Rightarrow> int \<Rightarrow> sectors \<Rightarrow> (bool \<times> FileHeader \<times> sectors) result option" where
  "ExtendFile u h sectorsToAllocate d =
     (case extend_hdr u h sectorsToAllocate d of
        Inl e \<Rightarrow> Some (Inl e)
      | Inr None \<Rightarrow> Some (Inr (False, h, d))
      | Inr (Some (freeMapFile, freeMap, h)) \<Rightarrow>
          map_option (\<lambda>r. rbind r (\<lambda>(freeMapFile, d). Inr (True, h, d))) (bm_WriteBack u freeMapFile freeMap d))"

text \<open>
  Cases 2 and 3 in terms of \<^verbatim>\<open>ExtendFile\<close>. The code compares its result, a boolean, with \<open>-1\<close>, so that the assertion
  for a full disk never fires.
\<close>

lemma WriteAt_extends:
  assumes "ByteToSector 0 (hdr f) = Inr s" and "padded_length f < position + n"
    and "start = (if position < padded_length f then position else padded_length f)"
  shows "WriteAt u f from n position d =
    Option.bind (ExtendFile u (hdr f)
        (1 + divRoundDown (position + n - 1) SectorSize - divRoundDown start SectorSize) d)
      (\<lambda>r. Some (rbind r (\<lambda>(ok, h, d).
         rbind (ASSERT ((if ok then 1 else 0) \<noteq> (- 1 :: int))) (\<lambda>_.
         write_past (f\<lparr>hdr := h\<rparr>) from n position start d))))"
proof -
  let ?n = "1 + divRoundDown (position + n - 1) SectorSize - divRoundDown start SectorSize"
  have unf: "WriteAt u f from n position d =
    (case extend_hdr u (hdr f) ?n d of
       Inl e \<Rightarrow> Some (Inl e)
     | Inr None \<Rightarrow> Some (write_past f from n position start d)
     | Inr (Some (freeMapFile, freeMap, h)) \<Rightarrow>
         Option.bind
           (WriteAt u freeMapFile (words_bytes (map_words freeMap)) (numWords freeMap * 4) 0 d)
           (\<lambda>r. case r of
               Inl e \<Rightarrow> Some (Inl e)
             | Inr (k, freeMapFile, d) \<Rightarrow> Some (write_past (f\<lparr>hdr := h\<rparr>) from n position start d)))"
    using assms(2) by (subst WriteAt.simps) (simp only: assms(1,3) sum.case Let_def linorder_not_le [symmetric] if_False)
  show ?thesis
  proof (cases "extend_hdr u (hdr f) ?n d")
    case (Inr x)
    show ?thesis
    proof (cases x)
      case (Some y)
      obtain fm bm h where y: "y = (fm, bm, h)" by (cases y)
      show ?thesis
        using Inr Some y unfolding unf ExtendFile_def bm_WriteBack_def
        by (cases "WriteAt u fm (words_bytes (map_words bm)) (numWords bm * 4) 0 d")
          (auto simp: rbind_def split: sum.split)
    qed (use Inr unf in \<open>simp add: ExtendFile_def\<close>)
  qed (use unf in \<open>simp add: ExtendFile_def\<close>)
qed

subsection \<open>The bytes of a file\<close>

definition file_bytes :: "int list \<Rightarrow> sectors \<Rightarrow> 8 word list" where
  "file_bytes ds d = concat (map (\<lambda>s. d (nat s)) ds)"

definition data_ok :: "int list \<Rightarrow> sectors \<Rightarrow> bool" where
  "data_ok ds d \<longleftrightarrow> distinct ds \<and> set ds \<subseteq> {0..<NumSectors} \<and> (\<forall>s\<in>set ds. length (d (nat s)) = 128)"

definition file_ok :: "OpenFile \<Rightarrow> int list \<Rightarrow> int list \<Rightarrow> sectors \<Rightarrow> bool" where
  "file_ok f ds ind d \<longleftrightarrow>
     hdr_layout (hdr f) ds ind \<and> 0 < length ds \<and> length ds \<le> 34 \<and> data_ok ds d \<and>
     128 * (int (length ds) - 1) < numBytes (hdr f) \<and> numBytes (hdr f) \<le> 128 * int (length ds)"

lemma file_bytes_Cons: "file_bytes (s # ds) d = d (nat s) @ file_bytes ds d"
  by (simp add: file_bytes_def)

lemma file_bytes_append: "file_bytes (xs @ ys) d = file_bytes xs d @ file_bytes ys d"
  by (simp add: file_bytes_def)

lemma length_file_bytes: "\<forall>s\<in>set ds. length (d (nat s)) = 128 \<Longrightarrow> length (file_bytes ds d) = 128 * length ds"
  by (induction ds) (simp_all add: file_bytes_def)

lemma file_bytes_cong: "(\<And>s. s \<in> set ds \<Longrightarrow> d' (nat s) = d (nat s)) \<Longrightarrow> file_bytes ds d' = file_bytes ds d"
  by (induction ds) (simp_all add: file_bytes_def)

lemma file_bytes_split:
  assumes "data_ok ds d"
  shows "take (128 * k) (file_bytes ds d) = file_bytes (take k ds) d"
    and "drop (128 * k) (file_bytes ds d) = file_bytes (drop k ds) d"
proof -
  have *: "\<forall>s\<in>set ds. length (d (nat s)) = 128" using assms by (simp add: data_ok_def)
  then have len: "length (file_bytes (take k ds) d) = 128 * min k (length ds)"
    by (subst length_file_bytes) (auto dest: in_set_takeD)
  have "file_bytes (take k ds) d @ file_bytes (drop k ds) d = file_bytes ds d"
    by (simp only: file_bytes_append [symmetric] append_take_drop_id)
  then have eq: "file_bytes (take k ds) d = take (128 * min k (length ds)) (file_bytes ds d)"
    "file_bytes (drop k ds) d = drop (128 * min k (length ds)) (file_bytes ds d)"
    unfolding append_eq_conv_conj len by simp_all
  show "take (128 * k) (file_bytes ds d) = file_bytes (take k ds) d"
    and "drop (128 * k) (file_bytes ds d) = file_bytes (drop k ds) d"
    unfolding eq using length_file_bytes [OF *] by (cases "k \<le> length ds"; simp add: min_def)+
qed

lemma file_window:
  assumes "data_ok ds d"
  shows "file_bytes (take k (drop a ds)) d = take (128 * k) (drop (128 * a) (file_bytes ds d))"
proof -
  have "data_ok (drop a ds) d" using assms by (auto simp: data_ok_def dest: in_set_dropD)
  then show ?thesis by (simp only: file_bytes_split [OF assms] file_bytes_split(1))
qed

lemma data_ok_nth:
  assumes "data_ok ds d" "k < length ds"
  shows "0 \<le> ds ! k" "ds ! k < 1024" "length (d (nat (ds ! k))) = 128"
proof -
  have "ds ! k \<in> {0..<1024}"
    using assms(1) nth_mem [OF assms(2)] unfolding data_ok_def fs_consts by blast
  then show "0 \<le> ds ! k" "ds ! k < 1024" by simp_all
  show "length (d (nat (ds ! k))) = 128" using assms by (simp add: data_ok_def)
qed

lemma data_ok_upd:
  assumes "data_ok ds d" "length bs = 128"
  shows "data_ok ds (d(s := bs))"
  using assms by (simp add: data_ok_def)

lemma file_bytes_upd:
  assumes ok: "data_ok ds d" and k: "k < length ds"
  shows "file_bytes ds (d(nat (ds ! k) := bs)) =
    take (128 * k) (file_bytes ds d) @ bs @ drop (128 * Suc k) (file_bytes ds d)"
proof -
  let ?d = "d(nat (ds ! k) := bs)"
  have same: "?d (nat s) = d (nat s)" if "s \<in> set ds" "s \<noteq> ds ! k" for s
  proof -
    have "0 \<le> s" using that(1) ok by (auto simp: data_ok_def)
    with that(2) data_ok_nth(1) [OF ok k] show ?thesis by (simp add: eq_nat_nat_iff)
  qed
  have split: "ds = take k ds @ ds ! k # drop (Suc k) ds" using k by (rule id_take_nth_drop)
  have "file_bytes ds ?d = file_bytes (take k ds @ ds ! k # drop (Suc k) ds) ?d"
    by (rule arg_cong [OF split])
  then have "file_bytes ds ?d = file_bytes (take k ds) ?d @ bs @ file_bytes (drop (Suc k) ds) ?d"
    by (simp only: file_bytes_append file_bytes_Cons fun_upd_same)
  moreover have "distinct (take k ds @ ds ! k # drop (Suc k) ds)"
    using ok split by (simp only: data_ok_def)
  then have "file_bytes (take k ds) ?d = file_bytes (take k ds) d"
    "file_bytes (drop (Suc k) ds) ?d = file_bytes (drop (Suc k) ds) d"
    by (intro file_bytes_cong same; auto dest: in_set_takeD in_set_dropD)+
  ultimately show ?thesis
    by (simp only: file_bytes_split [OF ok])
qed

subsection \<open>Reading inside a file\<close>

lemma file_sector:
  assumes "file_ok f ds ind d" "k < length ds"
  shows "ByteToSector (int k * 128) (hdr f) = Inr (ds ! k)"
  using assms by (subst ByteToSector_small [of _ ds ind]) (auto simp: file_ok_def)

lemma file_bytes_snoc:
  assumes "k < length ds" "a \<le> k"
  shows "file_bytes (take (Suc k - a) (drop a ds)) d = file_bytes (take (k - a) (drop a ds)) d @ d (nat (ds ! k))"
  using assms by (simp add: Suc_diff_le take_Suc_conv_app_nth file_bytes_append) (simp add: file_bytes_def)

lemma read_sectors_ok:
  assumes f: "file_ok f ds ind d" and ab: "a \<le> b" "b < length ds"
  shows "read_sectors (hdr f) (int a) (int b) d = Inr (file_bytes (take (Suc b - a) (drop a ds)) d)"
proof -
  let ?body = "\<lambda>i buf. rbind (ByteToSector (i * SectorSize) (hdr f)) (\<lambda>s.
       rbind (ReadSector s d) (\<lambda>bs. Inr (buf @ bs)))"
  let ?I = "\<lambda>i buf. buf = file_bytes (take (nat i - a) (drop a ds)) d"
  have "\<exists>buf. for_each [int a..int (Suc b) - 1] ?body [] = Inr buf \<and> ?I (int (Suc b)) buf"
  proof (rule for_range_invariant [where I = ?I])
    fix i buf assume i: "int a \<le> i" "i < int (Suc b)" and buf: "?I i buf"
    define k where "k = nat i"
    have k: "i = int k" "k < length ds" "a \<le> k" using i ab by (auto simp: k_def)
    have "data_ok ds d" using f by (simp add: file_ok_def)
    then have "?body i buf = Inr (buf @ d (nat (ds ! k)))"
      using file_sector [OF f k(2)] data_ok_nth [of ds d k] k by (simp add: ReadSector_ok)
    then show "\<exists>buf'. ?body i buf = Inr buf' \<and> ?I (i + 1) buf'"
      using file_bytes_snoc [OF k(2,3)] buf k(1) by (simp add: nat_add_distrib)
  qed (use ab in \<open>simp_all add: file_bytes_def\<close>)
  then show ?thesis by (simp add: read_sectors_def nat_add_distrib)
qed

lemma sector_split:
  assumes "0 \<le> p" obtains a o' where "divRoundDown p SectorSize = int a" "p = 128 * int a + int o'" "o' < 128"
proof (rule that [of "nat (p div 128)" "nat (p mod 128)"])
  show "divRoundDown p SectorSize = int (nat (p div 128))"
    using assms by (simp add: divRoundDown_def sdiv_nonneg pos_imp_zdiv_nonneg_iff)
  show "p = 128 * int (nat (p div 128)) + int (nat (p mod 128))"
    using assms by (simp add: pos_imp_zdiv_nonneg_iff)
  show "nat (p mod 128) < 128" by (simp add: nat_less_iff)
qed

text \<open>A request inside the file covers the sectors \<open>a\<close> to \<open>b\<close> and starts at byte \<open>o'\<close> of the first.\<close>

lemma request_split:
  assumes "0 \<le> p" "0 < n" "p + n \<le> 128 * int m"
  obtains a b o' where "divRoundDown p SectorSize = int a" "divRoundDown (p + n - 1) SectorSize = int b"
    "p = 128 * int a + int o'" "o' < 128" "a \<le> b" "b < m" "o' + nat n \<le> 128 * (Suc b - a)"
    "128 * (b - a) < o' + nat n"
proof -
  obtain a o1 where a: "divRoundDown p SectorSize = int a" "p = 128 * int a + int o1" "o1 < 128"
    using sector_split [OF assms(1)] .
  obtain b o2 where b: "divRoundDown (p + n - 1) SectorSize = int b" "p + n - 1 = 128 * int b + int o2" "o2 < 128"
    using sector_split [of "p + n - 1"] assms by auto
  have "a \<le> b" "b < m" using a b assms by linarith+
  moreover have "o1 + nat n \<le> 128 * (Suc b - a)" "128 * (b - a) < o1 + nat n"
    using a b assms(2) \<open>a \<le> b\<close> by (simp_all add: nat_le_iff)
  ultimately show ?thesis using a b by (intro that)
qed

lemma window_take:
  assumes "o' + n \<le> m" shows "take n (drop o' (take m (drop k xs))) = take n (drop (k + o') xs)"
  using assms by (simp add: drop_take min_def add.commute)

lemma ReadAt_inside:
  assumes f: "file_ok f ds ind d" and p: "0 \<le> p" "p < numBytes (hdr f)" "0 < n" "p + n \<le> 128 * int (length ds)"
  shows "ReadAt f n p d = Inr (n, take (nat n) (drop (nat p) (file_bytes ds d)))"
proof -
  obtain a b o' where r: "divRoundDown p SectorSize = int a" "divRoundDown (p + n - 1) SectorSize = int b"
    "p = 128 * int a + int o'" "o' < 128" "a \<le> b" "b < length ds" "o' + nat n \<le> 128 * (Suc b - a)"
    using request_split [OF p(1,3,4)] by metis
  have ok: "data_ok ds d" using f by (simp add: file_ok_def)
  note win = file_window [OF ok, of "Suc b - a" a]
  have "length (file_bytes ds d) = 128 * length ds"
    using ok by (intro length_file_bytes) (simp add: data_ok_def)
  then have len: "length (file_bytes (take (Suc b - a) (drop a ds)) d) = 128 * (Suc b - a)"
    unfolding win using r(5,6) by simp
  have "copy_out (file_bytes (take (Suc b - a) (drop a ds)) d) (p - int a * 128) n =
      Inr (take (nat n) (drop o' (file_bytes (take (Suc b - a) (drop a ds)) d)))"
    using r(3,7) p(3) len by (simp add: copy_out_def nat_le_iff)
  also have "take (nat n) (drop o' (file_bytes (take (Suc b - a) (drop a ds)) d)) =
      take (nat n) (drop (nat p) (file_bytes ds d))"
    unfolding win window_take [OF r(7)] using r(3) by (simp add: nat_add_distrib nat_mult_distrib)
  finally show ?thesis
    using p r(1,2) read_sectors_ok [OF f r(5,6)] by (simp add: ReadAt_def FileLength_def Let_def)
qed

subsection \<open>Writing inside a file\<close>

lemma length_file: "file_ok f ds ind d \<Longrightarrow> length (file_bytes ds d) = 128 * length ds"
  by (intro length_file_bytes) (simp add: file_ok_def data_ok_def)

lemma write_chunk:
  assumes buf: "length buf = 128 * (Suc b - a)" and k: "a \<le> k" "k \<le> b" and c: "128 * Suc b \<le> length c"
    and now: "x = take (128 * a) c @ take (128 * (k - a)) buf @ drop (128 * k) c"
  shows "take (128 * k) x @ take 128 (drop (128 * (k - a)) buf) @ drop (128 * Suc k) x =
    take (128 * a) c @ take (128 * (Suc k - a)) buf @ drop (128 * Suc k) c"
proof -
  let ?A = "take (128 * a) c @ take (128 * (k - a)) buf"
  have "128 * (k - a) \<le> length buf" using buf k by simp
  then have len: "length ?A = 128 * k" using k c by simp
  have x: "x = ?A @ drop (128 * k) c" using now by simp
  have "take (128 * k) (A @ drop (128 * k) c) = A"
    "drop (128 * Suc k) (A @ drop (128 * k) c) = drop (128 * Suc k) c" if "length A = 128 * k" for A
    using that by simp_all
  from this [OF len] have "take (128 * k) x = ?A" "drop (128 * Suc k) x = drop (128 * Suc k) c"
    by (simp_all only: x)
  moreover have "take (128 * (Suc k - a)) buf = take (128 * (k - a)) buf @ take 128 (drop (128 * (k - a)) buf)"
    using k by (simp add: take_add [symmetric] Suc_diff_le add.commute)
  ultimately show ?thesis by simp
qed

lemma write_sectors_ok:
  assumes f: "file_ok f ds ind d" and ab: "a \<le> b" "b < length ds" and buf: "length buf = 128 * (Suc b - a)"
  shows "\<exists>d'. write_sectors (hdr f) (int a) (int b) buf d = Inr d' \<and> data_ok ds d' \<and>
    file_bytes ds d' = take (128 * a) (file_bytes ds d) @ buf @ drop (128 * Suc b) (file_bytes ds d) \<and>
    (\<forall>s. s \<notin> nat ` set ds \<longrightarrow> d' s = d s)"
proof -
  let ?c = "file_bytes ds d"
  let ?body = "\<lambda>i d. rbind (ByteToSector (i * SectorSize) (hdr f)) (\<lambda>s.
       WriteSector s (drop (nat ((i - int a) * SectorSize)) buf) d)"
  let ?I = "\<lambda>i d'. data_ok ds d' \<and>
    file_bytes ds d' = take (128 * a) ?c @ take (128 * (nat i - a)) buf @ drop (128 * nat i) ?c \<and>
    (\<forall>s. s \<notin> nat ` set ds \<longrightarrow> d' s = d s)"
  have "\<exists>d'. for_each [int a..int (Suc b) - 1] ?body d = Inr d' \<and> ?I (int (Suc b)) d'"
  proof (rule for_range_invariant [where I = ?I])
    fix i d' assume i: "int a \<le> i" "i < int (Suc b)" and d': "?I i d'"
    define k where "k = nat i"
    have k: "i = int k" "k < length ds" "a \<le> k" "k \<le> b" using i ab by (auto simp: k_def)
    let ?bs = "take 128 (drop (128 * (k - a)) buf)"
    have "nat ((i - int a) * 128) = 128 * (k - a)" using k by (simp add: nat_mult_distrib)
    then have run: "?body i d' = Inr (d'(nat (ds ! k) := ?bs))"
      using file_sector [OF f k(2)] data_ok_nth [of ds d' k] d' k by (simp add: WriteSector_def)
    have len: "length ?bs = 128" using buf k by simp
    have "file_bytes ds (d'(nat (ds ! k) := ?bs)) =
        take (128 * a) ?c @ take (128 * (Suc k - a)) buf @ drop (128 * Suc k) ?c"
      using write_chunk [OF buf k(3,4), of ?c "file_bytes ds d'"] d' k(1) ab length_file [OF f]
        file_bytes_upd [of ds d' k ?bs] k(2) by simp
    moreover have "nat (ds ! k) \<in> nat ` set ds" using k(2) by simp
    ultimately have "?I (i + 1) (d'(nat (ds ! k) := ?bs))"
      using d' k(1) len by (auto simp: nat_add_distrib data_ok_upd)
    with run show "\<exists>d''. ?body i d' = Inr d'' \<and> ?I (i + 1) d''" by blast
  qed (use ab f in \<open>simp_all add: file_ok_def\<close>)
  then show ?thesis using buf by (simp add: write_sectors_def nat_add_distrib)
qed

lemma copy_in_nth:
  assumes "off + k \<le> length buf" "k \<le> length src"
  shows "\<exists>buf'. copy_in buf (int off) src (int k) = Inr buf' \<and> length buf' = length buf \<and>
    (\<forall>i < length buf. buf' ! i = (if off \<le> i \<and> i < off + k then src ! (i - off) else buf ! i))"
  using assms by (auto simp: copy_in_def nth_append nat_add_distrib min_def)

lemma ReadAt_sector:
  assumes f: "file_ok f ds ind d" and k: "k < length ds"
  shows "ReadAt f 128 (int k * 128) d = Inr (128, take 128 (drop (128 * k) (file_bytes ds d)))"
proof -
  have "int k * 128 < numBytes (hdr f)" using f k by (auto simp: file_ok_def)
  then show ?thesis
    using ReadAt_inside [OF f, of "int k * 128" 128] k by (simp add: nat_mult_distrib mult.commute)
qed

lemma read_sector_into:
  assumes f: "file_ok f ds ind d" and k: "k < length ds" and off: "off + 128 \<le> length buf"
  shows "\<exists>buf'. rbind (ReadAt f SectorSize (int k * SectorSize) d) (\<lambda>(m, bs). copy_in buf (int off) bs m) = Inr buf' \<and>
    length buf' = length buf \<and>
    (\<forall>i < length buf. buf' ! i = (if off \<le> i \<and> i < off + 128 then file_bytes ds d ! (128 * k + (i - off)) else buf ! i))"
proof -
  let ?sec = "take 128 (drop (128 * k) (file_bytes ds d))"
  have len: "128 \<le> length ?sec" using k length_file [OF f] by simp
  have "?sec ! i = file_bytes ds d ! (128 * k + i)" if "i < 128" for i
    using that k length_file [OF f] by simp
  then show ?thesis
    using copy_in_nth [OF off len] ReadAt_sector [OF f k] by auto
qed

text \<open>
  After the partial sectors have been read, the buffer agrees with the file outside the bytes that are to be written.
\<close>

lemma read_ends_ok:
  assumes f: "file_ok f ds ind d" and ab: "a \<le> b" "b < length ds" and p: "p = 128 * int a + int o'" "o' < 128"
    and n: "o' + n \<le> 128 * (Suc b - a)" "128 * (b - a) < o' + n" and buf: "length buf = 128 * (Suc b - a)"
  shows "\<exists>buf'. read_ends f (int a) (int b) (int n) p buf d = Inr buf' \<and> length buf' = length buf \<and>
    (\<forall>i < length buf. i < o' \<or> o' + n \<le> i \<longrightarrow> buf' ! i = file_bytes ds d ! (128 * a + i))"
proof -
  let ?c = "file_bytes ds d"
  have al: "p = int a * SectorSize \<longleftrightarrow> o' = 0" "p + int n = (int b + 1) * SectorSize \<longleftrightarrow> o' + n = 128 * (Suc b - a)"
    using p(1) ab(1) by auto
  have ba: "(int b - int a) * SectorSize = int (128 * (b - a))" using ab by (simp add: of_nat_diff)
  let ?first = "if o' \<noteq> 0 then rbind (ReadAt f SectorSize (int a * SectorSize) d) (\<lambda>(k, bs). copy_in buf 0 bs k)
        else Inr buf"
  obtain buf1 where b1: "?first = Inr buf1" "length buf1 = length buf"
      "\<forall>i < 128. o' \<noteq> 0 \<longrightarrow> buf1 ! i = ?c ! (128 * a + i)"
  proof (cases "o' = 0")
    case False
    have a: "a < length ds" "0 + 128 \<le> length buf" using ab buf by simp_all
    obtain buf1 where "rbind (ReadAt f SectorSize (int a * SectorSize) d) (\<lambda>(m, bs). copy_in buf 0 bs m) = Inr buf1"
      "length buf1 = length buf" "\<forall>i < length buf. buf1 ! i = (if i < 128 then ?c ! (128 * a + i) else buf ! i)"
      using read_sector_into [OF f a] by auto
    with False a(2) that show ?thesis by auto
  qed (use that in auto)
  show ?thesis
  proof (cases "o' + n \<noteq> 128 * (Suc b - a) \<and> (a \<noteq> b \<or> o' = 0)")
    case True
    obtain buf2 where b2: "rbind (ReadAt f SectorSize (int b * SectorSize) d)
        (\<lambda>(m, bs). copy_in buf1 (int (128 * (b - a))) bs m) = Inr buf2" "length buf2 = length buf"
      "\<forall>i < length buf. buf2 ! i = (if 128 * (b - a) \<le> i \<and> i < 128 * (b - a) + 128 then
         ?c ! (128 * b + (i - 128 * (b - a))) else buf1 ! i)"
    proof -
      have "128 * (b - a) + 128 \<le> length buf1" using b1(2) buf ab by simp
      from read_sector_into [OF f ab(2) this] b1(2) that show ?thesis by auto
    qed
    have "read_ends f (int a) (int b) (int n) p buf d = Inr buf2"
      using True b1(1) b2(1) unfolding read_ends_def Let_def al ba by simp
    moreover have "buf2 ! i = ?c ! (128 * a + i)" if "i < length buf" "i < o' \<or> o' + n \<le> i" for i
    proof (cases "128 * (b - a) \<le> i")
      case True
      then have "128 * b + (i - 128 * (b - a)) = 128 * a + i" "i < 128 * (b - a) + 128"
        using ab that(1) buf by (simp_all add: Suc_diff_le)
      with b2(3) True that(1) buf ab show ?thesis by simp
    next
      case False
      then have "i < o'" using that n(2) by simp
      with b2(3) b1(3) that(1) p(2) False show ?thesis by simp
    qed
    ultimately show ?thesis using b2(2) by blast
  next
    case False
    then have "read_ends f (int a) (int b) (int n) p buf d = Inr buf1"
      using b1(1) unfolding read_ends_def Let_def al by auto
    moreover have "buf1 ! i = ?c ! (128 * a + i)" if "i < length buf" "i < o' \<or> o' + n \<le> i" for i
      using False b1(3) that p(2) buf n by auto
    ultimately show ?thesis using b1(2) by blast
  qed
qed

text \<open>What a write of \<open>bs\<close> at byte \<open>p\<close> makes of a sequence of bytes.\<close>

definition overwrite :: "nat \<Rightarrow> 8 word list \<Rightarrow> 8 word list \<Rightarrow> 8 word list" where
  "overwrite p bs c = take p c @ bs @ drop (p + length bs) c"

lemma overwrite_window:
  assumes c: "128 * Suc b \<le> length c" and ab: "a \<le> b" and o': "o' < 128" and n: "n \<le> length from"
    and fit: "o' + n \<le> 128 * (Suc b - a)" and buf: "length buf = 128 * (Suc b - a)"
    and new: "\<forall>i < length buf. buf ! i = (if o' \<le> i \<and> i < o' + n then from ! (i - o') else c ! (128 * a + i))"
  shows "take (128 * a) c @ buf @ drop (128 * Suc b) c = overwrite (128 * a + o') (take n from) c"
proof (rule nth_equalityI)
  have len: "length (take (128 * a) c) = 128 * a" "128 * a + length buf = 128 * Suc b"
    using c ab buf by simp_all
  show "length (take (128 * a) c @ buf @ drop (128 * Suc b) c) = length (overwrite (128 * a + o') (take n from) c)"
    using c len fit n buf by (simp add: overwrite_def)
  fix i assume "i < length (take (128 * a) c @ buf @ drop (128 * Suc b) c)"
  then have i: "i < length c" using c len by simp
  have spl: "overwrite (128 * a + o') (take n from) c ! i =
      (if 128 * a + o' \<le> i \<and> i < 128 * a + o' + n then from ! (i - (128 * a + o')) else c ! i)"
    using i n c len fit buf by (auto simp: overwrite_def nth_append min_def)
  consider "i < 128 * a" | "128 * a \<le> i" "i < 128 * Suc b" | "128 * Suc b \<le> i" by linarith
  then show "(take (128 * a) c @ buf @ drop (128 * Suc b) c) ! i = overwrite (128 * a + o') (take n from) c ! i"
  proof cases
    case 2
    then have "i - 128 * a < length buf" using len by simp
    with new 2 len spl show ?thesis by (auto simp: nth_append)
  qed (use spl len i fit buf in \<open>auto simp: nth_append\<close>)
qed

lemma write_range_inside:
  assumes f: "file_ok f ds ind d" and p: "0 \<le> p" "0 < n" "p + n \<le> 128 * int (length ds)" "n \<le> int (length from)"
    and buf: "length buf = nat ((1 + divRoundDown (p + n - 1) SectorSize - divRoundDown p SectorSize) * SectorSize)"
  shows "\<exists>d'. write_range f from n p (divRoundDown p SectorSize) (divRoundDown (p + n - 1) SectorSize) buf d = Inr d' \<and>
    data_ok ds d' \<and> file_bytes ds d' = overwrite (nat p) (take (nat n) from) (file_bytes ds d) \<and>
    (\<forall>s. s \<notin> nat ` set ds \<longrightarrow> d' s = d s)"
proof -
  obtain a b o' where r: "divRoundDown p SectorSize = int a" "divRoundDown (p + n - 1) SectorSize = int b"
    "p = 128 * int a + int o'" "o' < 128" "a \<le> b" "b < length ds" "o' + nat n \<le> 128 * (Suc b - a)"
    "128 * (b - a) < o' + nat n"
    using request_split [OF p(1,2,3)] .
  have len: "length buf = 128 * (Suc b - a)" using buf r(1,2,5) by (simp add: nat_mult_distrib)
  have n: "n = int (nat n)" using p(2) by simp
  obtain buf1 where b1: "read_ends f (int a) (int b) n p buf d = Inr buf1" "length buf1 = length buf"
    "\<forall>i < length buf. i < o' \<or> o' + nat n \<le> i \<longrightarrow> buf1 ! i = file_bytes ds d ! (128 * a + i)"
    using read_ends_ok [OF f r(5,6,3,4,7,8) len] n by auto
  obtain buf2 where b2: "copy_in buf1 (int o') from n = Inr buf2" "length buf2 = length buf"
    "\<forall>i < length buf. buf2 ! i = (if o' \<le> i \<and> i < o' + nat n then from ! (i - o') else buf1 ! i)"
    using copy_in_nth [of o' "nat n" buf1 "from"] b1(2) len r(7) p(2,4) n by auto
  obtain d' where d': "write_sectors (hdr f) (int a) (int b) buf2 d = Inr d'" "data_ok ds d'"
    "file_bytes ds d' = take (128 * a) (file_bytes ds d) @ buf2 @ drop (128 * Suc b) (file_bytes ds d)"
    "\<forall>s. s \<notin> nat ` set ds \<longrightarrow> d' s = d s"
    using write_sectors_ok [OF f r(5,6), of buf2] b2(2) len by auto
  have "\<forall>i < length buf2. buf2 ! i = (if o' \<le> i \<and> i < o' + nat n then from ! (i - o') else file_bytes ds d ! (128 * a + i))"
    using b2 b1(3) by auto
  then have "file_bytes ds d' = overwrite (128 * a + o') (take (nat n) from) (file_bytes ds d)"
    unfolding d'(3) using r(4,5,6,7) p(4) b2(2) len length_file [OF f]
    by (intro overwrite_window) simp_all
  moreover have "128 * a + o' = nat p" "p - int a * SectorSize = int o'" using r(3) by simp_all
  ultimately show ?thesis
    using d'(1,2,4) b1(1) b2(1) unfolding write_range_def r(1,2) by simp
qed

lemma round_up_128:
  fixes m n :: int
  assumes "128 * (m - 1) < n" "n \<le> 128 * m"
  shows "n + (if n mod 128 \<noteq> 0 then 128 - n mod 128 else 0) = 128 * m"
proof -
  define q r where "q = n div 128" and "r = n mod 128"
  have n: "n = 128 * q + r" "0 \<le> r" "r < 128" by (simp_all add: q_def r_def)
  moreover have "128 * m - 128 < n" using assms(1) by (simp add: right_diff_distrib)
  ultimately have "m - 1 < q + 1" "q \<le> m" using assms(2) by linarith+
  then have "q = m - 1 \<or> q = m" by linarith
  then show ?thesis using n assms unfolding r_def [symmetric] by auto
qed

lemma padded_length_ok:
  assumes f: "file_ok f ds ind d" shows "padded_length f = 128 * int (length ds)"
proof -
  let ?n = "numBytes (hdr f)"
  have r: "128 * (int (length ds) - 1) < ?n" "?n \<le> 128 * int (length ds)" using f by (auto simp: file_ok_def)
  moreover have "0 \<le> 128 * (int (length ds) - 1)" using f by (cases ds) (simp_all add: file_ok_def)
  ultimately have "0 \<le> ?n" by linarith
  then show ?thesis
    using round_up_128 [OF r] by (auto simp: padded_length_def FileLength_def smod_nonneg Let_def)
qed

text \<open>Inside its sectors, writing to a file replaces the bytes and touches no other sector.\<close>

lemma WriteAt_inside:
  assumes f: "file_ok f ds ind d" and p: "0 \<le> p" "0 < n" "p + n \<le> 128 * int (length ds)" "n \<le> int (length from)"
  shows "\<exists>d'. WriteAt u f from n p d = Some (Inr (n, f, d')) \<and> file_ok f ds ind d' \<and>
    file_bytes ds d' = overwrite (nat p) (take (nat n) from) (file_bytes ds d) \<and> (\<forall>s. s \<notin> nat ` set ds \<longrightarrow> d' s = d s)"
proof -
  let ?buf = "map (fresh_bytes u)
    [0..<nat ((1 + divRoundDown (p + n - 1) SectorSize - divRoundDown p SectorSize) * SectorSize)]"
  obtain d' where d': "write_range f from n p (divRoundDown p SectorSize) (divRoundDown (p + n - 1) SectorSize) ?buf d = Inr d'"
    "data_ok ds d'" "file_bytes ds d' = overwrite (nat p) (take (nat n) from) (file_bytes ds d)"
    "\<forall>s. s \<notin> nat ` set ds \<longrightarrow> d' s = d s"
    using write_range_inside [OF f p, of ?buf] by auto
  have "ByteToSector 0 (hdr f) = Inr (ds ! 0)" using file_sector [OF f, of 0] f by (simp add: file_ok_def)
  then have "WriteAt u f from n p d = Some (Inr (n, f, d'))"
    using p(3) padded_length_ok [OF f] d'(1) by (subst WriteAt.simps) (simp add: Let_def)
  moreover have "file_ok f ds ind d'" using f d'(2) by (simp add: file_ok_def)
  ultimately show ?thesis using d' by blast
qed

lemma overwrite_read: "p + length bs \<le> length c \<Longrightarrow> take (length bs) (drop p (overwrite p bs c)) = bs"
  by (simp add: overwrite_def)

lemma length_overwrite: "p + length bs \<le> length c \<Longrightarrow> length (overwrite p bs c) = length c"
  by (simp add: overwrite_def)

subsection \<open>Bitmaps in files\<close>

lemma bytes_words_append: "length bs = 4 \<Longrightarrow> bytes_words (bs @ cs) = word_le bs # bytes_words cs"
  by (auto simp: length_Suc_conv numeral_eq_Suc)

lemma bytes_words_words_bytes: "bytes_words (words_bytes ws) = ws"
  by (induction ws) (simp_all add: words_bytes_def bytes_words_append word_le_bytes_le)

lemma length_words_bytes: "length (words_bytes ws) = 4 * length ws"
  by (induction ws) (simp_all add: words_bytes_def)

definition disk_map :: "bitmap \<Rightarrow> bool" where
  "disk_map bm \<longleftrightarrow> bm_wf bm \<and> numBits bm = NumSectors"

lemma disk_map_words: "disk_map bm \<Longrightarrow> numWords bm = 32 \<and> length (map_words bm) = 32"
  by (auto simp: disk_map_def bm_wf_def BitsInWord_def divRoundUp_def)

text \<open>\<open>map_in_file ds d bm\<close>: the file with the data sectors \<open>ds\<close> starts with the words of \<open>bm\<close>.\<close>

definition map_in_file :: "int list \<Rightarrow> sectors \<Rightarrow> bitmap \<Rightarrow> bool" where
  "map_in_file ds d bm \<longleftrightarrow> take 128 (file_bytes ds d) = words_bytes (map_words bm)"

lemma file_ok_pos:
  assumes "file_ok f ds ind d" shows "0 < numBytes (hdr f)" "1 \<le> length ds"
proof -
  have "128 * (int (length ds) - 1) < numBytes (hdr f)" "0 \<le> 128 * (int (length ds) - 1)"
    using assms by (cases ds; simp add: file_ok_def)+
  then show "0 < numBytes (hdr f)" by (rule le_less_trans [rotated])
  show "1 \<le> length ds" using assms by (cases ds) (simp_all add: file_ok_def)
qed

lemma bm_WriteBack_ok:
  assumes f: "file_ok f ds ind d" and bm: "disk_map bm"
  shows "\<exists>d'. bm_WriteBack u f bm d = Some (Inr (f, d')) \<and> file_ok f ds ind d' \<and> map_in_file ds d' bm \<and>
    (\<forall>s. s \<notin> nat ` set ds \<longrightarrow> d' s = d s)"
proof -
  note w = disk_map_words [OF bm] and len = file_ok_pos(2) [OF f]
  have "(0 :: int) + 128 \<le> 128 * int (length ds)" using len by simp
  then obtain d' where "WriteAt u f (words_bytes (map_words bm)) 128 0 d = Some (Inr (128, f, d'))" "file_ok f ds ind d'"
    "file_bytes ds d' = overwrite 0 (take 128 (words_bytes (map_words bm))) (file_bytes ds d)"
    "\<forall>s. s \<notin> nat ` set ds \<longrightarrow> d' s = d s"
    using WriteAt_inside [OF f, of 0 128 "words_bytes (map_words bm)" u] w by (auto simp: length_words_bytes)
  moreover have "map_in_file ds d' bm"
    using calculation(3) w by (simp add: map_in_file_def overwrite_def length_words_bytes)
  ultimately show ?thesis using w by (simp add: bm_WriteBack_def)
qed

lemma bm_FetchFrom_ok:
  assumes f: "file_ok f ds ind d" and "map_in_file ds d bm" and bm: "disk_map bm" and bm0: "disk_map bm0"
  shows "bm_FetchFrom f bm0 d = Inr bm"
proof -
  have "0 + 128 \<le> 128 * int (length ds)" using file_ok_pos(2) [OF f] by simp
  then have "ReadAt f 128 0 d = Inr (128, words_bytes (map_words bm))"
    using ReadAt_inside [OF f, of 0 128] file_ok_pos(1) [OF f] assms(2) by (simp add: map_in_file_def)
  then have "bm_FetchFrom f bm0 d = Inr (bm0\<lparr>map_words := map_words bm\<rparr>)"
    using disk_map_words [OF bm] disk_map_words [OF bm0]
    by (simp add: bm_FetchFrom_def copy_in_def length_words_bytes bytes_words_words_bytes)
  also have "bm0\<lparr>map_words := map_words bm\<rparr> = bm"
    using disk_map_words [OF bm] disk_map_words [OF bm0] bm bm0 by (simp add: disk_map_def)
  finally show ?thesis .
qed

subsection \<open>Properties\<close>

definition sample_file :: OpenFile where
  "sample_file = \<lparr>hdr = sample_hdr, seekPosition = 0, hdrSector = 9\<rparr>"

definition sample_fresh :: fresh where
  "sample_fresh = \<lparr>fresh_words = (\<lambda>_. 0), fresh_hdr = zero_FileHeader, fresh_bytes = (\<lambda>_. 0)\<rparr>"

lemma sample_file_ok: "file_ok sample_file [2, 3, 4, 5, 6] [7] (\<lambda>_. replicate 128 0)"
  using sample_hdr_layout by (simp add: file_ok_def sample_file_def data_ok_def) (simp add: sample_hdr_def)





end
