(* ===== verification/Directories.thy ===== *)
theory Directories
  imports Open_File
begin

text \<open>
  The directory of \<^verbatim>\<open>filesys/directory.cc\<close> in the build with \<^verbatim>\<open>FILESYS\<close>: a table of entries with a name of at most nine
  characters and the sector of a file header, searched from the front, that grows by half when it is full.

  Names are C strings: bytes up to the first 0. An entry takes 20 bytes on disk, with the padding that the
  compiler puts after \<^verbatim>\<open>inUse\<close> and after the name; the padding is part of the model because it is written too.
  The lemmas show that a directory is a finite map from names to sectors, and that it survives the disk.
\<close>

definition FileNameMaxLen :: nat where "FileNameMaxLen = 9"

definition cstr :: "nat \<Rightarrow> 8 word list \<Rightarrow> 8 word list" where
  "cstr n s = takeWhile (\<lambda>c. c \<noteq> 0) (take n s)"

text \<open>\<^verbatim>\<open>!strncmp(a, b, n)\<close> and \<^verbatim>\<open>strncpy\<close>.\<close>

definition strncmp_equal :: "8 word list \<Rightarrow> 8 word list \<Rightarrow> nat \<Rightarrow> bool" where
  "strncmp_equal a b n \<longleftrightarrow> cstr n a = cstr n b"

definition strncpy :: "8 word list \<Rightarrow> 8 word list \<Rightarrow> nat \<Rightarrow> 8 word list" where
  "strncpy dst src n = cstr n src @ replicate (n - length (cstr n src)) 0 @ drop n dst"

record DirectoryEntry =
  inUse :: bool
  e_sector :: int
  e_name :: "8 word list"
  e_pad :: "8 word list"

record Directory =
  tableSize :: int
  table :: "DirectoryEntry list"

subsection \<open>Operations in memory\<close>

definition clear_inUse :: "int \<Rightarrow> DirectoryEntry list \<Rightarrow> DirectoryEntry list result" where
  "clear_inUse n t =
     for_each [0..n - 1] (\<lambda>i t. rbind (aget t i) (\<lambda>e. aset t i (e\<lparr>inUse := False\<rparr>))) t"

text \<open>\<open>es\<close> is what \<^verbatim>\<open>new DirectoryEntry[]\<close> leaves in the entries.\<close>

definition new_Directory :: "(nat \<Rightarrow> DirectoryEntry) \<Rightarrow> int \<Rightarrow> Directory result" where
  "new_Directory es sz =
     rbind (clear_inUse sz (map es [0..<nat sz])) (\<lambda>t. Inr \<lparr>tableSize = sz, table = t\<rparr>)"

fun find_index :: "DirectoryEntry list \<Rightarrow> 8 word list \<Rightarrow> int list \<Rightarrow> int result" where
  "find_index t nm [] = Inr (-1)"
| "find_index t nm (i # is) =
     rbind (aget t i) (\<lambda>e.
     if inUse e \<and> strncmp_equal (e_name e) nm FileNameMaxLen then Inr i else find_index t nm is)"

definition FindIndex :: "8 word list \<Rightarrow> Directory \<Rightarrow> int result" where
  "FindIndex nm dir = find_index (table dir) nm [0..tableSize dir - 1]"

definition dir_Find :: "8 word list \<Rightarrow> Directory \<Rightarrow> int result" where
  "dir_Find nm dir =
     rbind (FindIndex nm dir) (\<lambda>i.
     if i \<noteq> -1 then rbind (aget (table dir) i) (\<lambda>e. Inr (e_sector e)) else Inr (-1))"

definition put_entry :: "8 word list \<Rightarrow> int \<Rightarrow> DirectoryEntry \<Rightarrow> DirectoryEntry" where
  "put_entry nm newSector e =
     e\<lparr>inUse := True, e_name := strncpy (e_name e) nm FileNameMaxLen, e_sector := newSector\<rparr>"

text \<open>The loop of \<^verbatim>\<open>Add\<close> over the free entries: \<open>None\<close> when there is none.\<close>

fun add_free :: "8 word list \<Rightarrow> int \<Rightarrow> DirectoryEntry list \<Rightarrow> int list \<Rightarrow> DirectoryEntry list option result" where
  "add_free nm s t [] = Inr None"
| "add_free nm s t (i # is) =
     rbind (aget t i) (\<lambda>e.
     if \<not> inUse e then rbind (aset t i (put_entry nm s e)) (\<lambda>t. Inr (Some t)) else add_free nm s t is)"

definition zero_entry :: DirectoryEntry where
  "zero_entry = \<lparr>inUse = False, e_sector = 0, e_name = replicate 10 0, e_pad = replicate 5 0\<rparr>"

definition grow_table :: "DirectoryEntry list \<Rightarrow> int \<Rightarrow> int \<Rightarrow> DirectoryEntry list result" where
  "grow_table t oldTableSize newTableSize =
     for_each [0..newTableSize - 1] (\<lambda>i newTable.
       if i < oldTableSize then
         rbind (aget t i) (\<lambda>e. rbind (aget newTable i) (\<lambda>e'.
         aset newTable i (e'\<lparr>inUse := inUse e, e_sector := e_sector e,
           e_name := strncpy (e_name e') (e_name e) (FileNameMaxLen + 1)\<rparr>)))
       else rbind (aget newTable i) (\<lambda>e'. aset newTable i (e'\<lparr>inUse := False\<rparr>)))
       (replicate (nat newTableSize) zero_entry)"

text \<open>\<^verbatim>\<open>(int)(oldTableSize * 1.5)\<close> truncates.\<close>

definition Add :: "8 word list \<Rightarrow> int \<Rightarrow> Directory \<Rightarrow> (bool \<times> Directory) result" where
  "Add nm newSector dir =
     rbind (FindIndex nm dir) (\<lambda>i.
     if i \<noteq> -1 then Inr (False, dir)
     else rbind (add_free nm newSector (table dir) [0..tableSize dir - 1]) (\<lambda>added.
     case added of
       Some t \<Rightarrow> Inr (True, dir\<lparr>table := t\<rparr>)
     | None \<Rightarrow>
         let oldTableSize = tableSize dir; newTableSize = (oldTableSize * 3) sdiv 2 in
         rbind (grow_table (table dir) oldTableSize newTableSize) (\<lambda>t.
         rbind (aget t oldTableSize) (\<lambda>e.
         if \<not> inUse e then
           rbind (aset t oldTableSize (put_entry nm newSector e)) (\<lambda>t.
           Inr (True, dir\<lparr>tableSize := newTableSize, table := t\<rparr>))
         else Inr (False, dir\<lparr>tableSize := newTableSize, table := t\<rparr>)))))"

definition Remove :: "8 word list \<Rightarrow> Directory \<Rightarrow> (bool \<times> Directory) result" where
  "Remove nm dir =
     rbind (FindIndex nm dir) (\<lambda>i.
     if i = -1 then Inr (False, dir)
     else rbind (aget (table dir) i) (\<lambda>e.
          rbind (aset (table dir) i (e\<lparr>inUse := False\<rparr>)) (\<lambda>t. Inr (True, dir\<lparr>table := t\<rparr>))))"

text \<open>\<open>dir_List\<close> returns the names it prints, in order.\<close>

definition dir_List :: "Directory \<Rightarrow> 8 word list list result" where
  "dir_List dir =
     for_each [0..tableSize dir - 1] (\<lambda>i out.
       rbind (aget (table dir) i) (\<lambda>e. Inr (if inUse e then out @ [cstr 10 (e_name e)] else out))) []"

subsection \<open>Operations on disk\<close>

definition entry_bytes :: "DirectoryEntry \<Rightarrow> 8 word list" where
  "entry_bytes e =
     (if inUse e then 1 else 0) # take 3 (e_pad e) @ int_bytes (e_sector e) @ e_name e @ drop 3 (e_pad e)"

definition bytes_entry :: "8 word list \<Rightarrow> DirectoryEntry" where
  "bytes_entry bs =
     \<lparr>inUse = (hd bs \<noteq> 0), e_sector = bytes_int (take 4 (drop 4 bs)), e_name = take 10 (drop 8 bs),
      e_pad = take 3 (drop 1 bs) @ drop 18 bs\<rparr>"

definition table_bytes :: "DirectoryEntry list \<Rightarrow> 8 word list" where
  "table_bytes t = concat (map entry_bytes t)"

definition bytes_table :: "nat \<Rightarrow> 8 word list \<Rightarrow> DirectoryEntry list" where
  "bytes_table n bs = map (\<lambda>i. bytes_entry (take 20 (drop (20 * i) bs))) [0..<n]"

definition dir_FetchFrom :: "(nat \<Rightarrow> DirectoryEntry) \<Rightarrow> OpenFile \<Rightarrow> Directory \<Rightarrow> sectors \<Rightarrow> Directory result" where
  "dir_FetchFrom es f dir d =
     rbind (ReadAt f 4 0 d) (\<lambda>(k, bs).
     rbind (copy_in (int_bytes (tableSize dir)) 0 bs k) (\<lambda>bs.
     let n = bytes_int bs in
     rbind (clear_inUse n (map es [0..<nat n])) (\<lambda>t.
     rbind (ReadAt f (n * 20) 4 d) (\<lambda>(k, bs).
     rbind (copy_in (table_bytes t) 0 bs k) (\<lambda>bs.
     Inr (dir\<lparr>tableSize := n, table := bytes_table (nat n) bs\<rparr>))))))"

definition dir_WriteBack :: "fresh \<Rightarrow> OpenFile \<Rightarrow> Directory \<Rightarrow> sectors \<Rightarrow> (OpenFile \<times> sectors) result option" where
  "dir_WriteBack u f dir d =
     Option.bind (WriteAt u f (int_bytes (tableSize dir)) 4 0 d) (\<lambda>r.
     case r of
       Inl e \<Rightarrow> Some (Inl e)
     | Inr (k, f, d) \<Rightarrow>
         map_option (\<lambda>r. rbind r (\<lambda>(k, f, d). Inr (f, d)))
           (WriteAt u f (table_bytes (table dir)) (tableSize dir * 20) 4 d))"

subsection \<open>The invariant and the abstract value\<close>

definition dir_key :: "8 word list \<Rightarrow> 8 word list" where
  "dir_key nm = cstr FileNameMaxLen nm"

definition dir_pairs :: "DirectoryEntry list \<Rightarrow> (8 word list \<times> int) list" where
  "dir_pairs t = map (\<lambda>e. (dir_key (e_name e), e_sector e)) (filter inUse t)"

definition dir_abs :: "Directory \<Rightarrow> 8 word list \<rightharpoonup> int" where
  "dir_abs dir = map_of (dir_pairs (table dir))"

definition entry_ok :: "DirectoryEntry \<Rightarrow> bool" where
  "entry_ok e \<longleftrightarrow> length (e_name e) = 10 \<and> length (e_pad e) = 5"

definition dir_ok :: "Directory \<Rightarrow> bool" where
  "dir_ok dir \<longleftrightarrow> tableSize dir = int (length (table dir)) \<and> 2 \<le> length (table dir) \<and>
     (\<forall>e\<in>set (table dir). entry_ok e) \<and> distinct (map fst (dir_pairs (table dir)))"

definition names :: "8 word list \<Rightarrow> DirectoryEntry \<Rightarrow> bool" where
  "names nm e \<longleftrightarrow> inUse e \<and> dir_key (e_name e) = dir_key nm"

lemma strncmp_names: "inUse e \<and> strncmp_equal (e_name e) nm FileNameMaxLen \<longleftrightarrow> names nm e"
  by (simp add: names_def strncmp_equal_def dir_key_def)

lemma dir_pairs_simps [simp]:
  "dir_pairs [] = []" "dir_pairs (xs @ ys) = dir_pairs xs @ dir_pairs ys"
  "dir_pairs (e # t) = (if inUse e then (dir_key (e_name e), e_sector e) # dir_pairs t else dir_pairs t)"
  by (simp_all add: dir_pairs_def)

lemma dir_pairs_key: "dir_key nm \<in> fst ` set (dir_pairs t) \<longleftrightarrow> (\<exists>e\<in>set t. names nm e)"
  by (force simp: dir_pairs_def names_def)

text \<open>Both loops stop at the first entry of a kind.\<close>

lemma find_index_skip_list:
  "(\<forall>i\<in>set is. 0 \<le> i \<and> i < int (length t) \<and> \<not> names nm (t ! nat i)) \<Longrightarrow>
     find_index t nm (is @ js) = find_index t nm js"
  by (induction "is") (auto simp: strncmp_names)

lemma find_index_skip:
  "i \<le> length t \<Longrightarrow> \<forall>j<i. \<not> names nm (t ! j) \<Longrightarrow> find_index t nm ([0..int i - 1] @ js) = find_index t nm js"
  by (intro find_index_skip_list) (auto simp: nat_less_iff)

lemma add_free_skip_list:
  "(\<forall>i\<in>set is. 0 \<le> i \<and> i < int (length t) \<and> inUse (t ! nat i)) \<Longrightarrow>
     add_free nm s t (is @ js) = add_free nm s t js"
  by (induction "is") auto

lemma add_free_skip:
  "i \<le> length t \<Longrightarrow> \<forall>j<i. inUse (t ! j) \<Longrightarrow> add_free nm s t ([0..int i - 1] @ js) = add_free nm s t js"
  by (intro add_free_skip_list) (auto simp: nat_less_iff)

lemma range_split: "i < n \<Longrightarrow> [0..int n - 1] = [0..int i - 1] @ int i # [int i + 1..int n - 1]"
  by (rule upto_split3) simp_all

lemma FindIndex_absent:
  assumes "tableSize dir = int (length (table dir))" and "\<forall>e\<in>set (table dir). \<not> names nm e"
  shows "FindIndex nm dir = Inr (-1)"
  using find_index_skip [of "length (table dir)" "table dir" nm "[]"] assms by (simp add: FindIndex_def)

lemma FindIndex_present:
  assumes "tableSize dir = int (length (table dir))" and "i < length (table dir)" and "names nm (table dir ! i)"
    and "\<forall>j<i. \<not> names nm (table dir ! j)"
  shows "FindIndex nm dir = Inr (int i)"
  using assms by (simp add: FindIndex_def range_split find_index_skip strncmp_names)

lemma add_free_full:
  "\<forall>e\<in>set t. inUse e \<Longrightarrow> add_free nm s t [0..int (length t) - 1] = Inr None"
  using add_free_skip [of "length t" t nm s "[]"] by simp

lemma add_free_at:
  assumes "i < length t" and "\<not> inUse (t ! i)" and "\<forall>j<i. inUse (t ! j)"
  shows "add_free nm s t [0..int (length t) - 1] = Inr (Some (t[i := put_entry nm s (t ! i)]))"
  using assms by (simp add: range_split add_free_skip)

lemma first_such:
  assumes "\<exists>x\<in>set xs. P x" obtains i where "i < length xs" "P (xs ! i)" "\<forall>j<i. \<not> P (xs ! j)"
proof -
  obtain k where k: "k < length xs \<and> P (xs ! k)" using assms by (auto simp: in_set_conv_nth)
  define i where "i = (LEAST k. k < length xs \<and> P (xs ! k))"
  have "i < length xs \<and> P (xs ! i)" unfolding i_def by (rule LeastI) (rule k)
  moreover have "\<not> P (xs ! j)" if "j < i" for j
    using not_less_Least [of j "\<lambda>k. k < length xs \<and> P (xs ! k)"] that calculation by (auto simp: i_def)
  ultimately show ?thesis using that by blast
qed

lemma dir_abs_None: "dir_abs dir (dir_key nm) = None \<longleftrightarrow> (\<forall>e\<in>set (table dir). \<not> names nm e)"
  by (simp add: dir_abs_def map_of_eq_None_iff dir_pairs_key)

lemma dir_abs_nth:
  assumes "dir_ok dir" and "i < length (table dir)" and "names nm (table dir ! i)"
  shows "dir_abs dir (dir_key nm) = Some (e_sector (table dir ! i))"
proof -
  have "(dir_key nm, e_sector (table dir ! i)) \<in> set (dir_pairs (table dir))"
    using assms(2,3) by (force simp: dir_pairs_def names_def)
  then show ?thesis using assms(1) by (simp add: dir_abs_def dir_ok_def)
qed

subsection \<open>Each operation on the abstract value\<close>

lemma dir_Find_ok:
  assumes "dir_ok dir"
  shows "dir_Find nm dir = Inr (case dir_abs dir (dir_key nm) of None \<Rightarrow> -1 | Some s \<Rightarrow> s)"
proof (cases "\<exists>e\<in>set (table dir). names nm e")
  case True
  then obtain i where i: "i < length (table dir)" "names nm (table dir ! i)" "\<forall>j<i. \<not> names nm (table dir ! j)"
    by (rule first_such)
  with assms show ?thesis
    by (simp add: dir_Find_def FindIndex_present [OF _ i] dir_abs_nth [OF assms i(1,2)] dir_ok_def)
next
  case False
  with assms show ?thesis
    using dir_abs_None [of dir nm] by (simp add: dir_Find_def FindIndex_absent dir_ok_def)
qed

lemma update_split: "i < length t \<Longrightarrow> t = take i t @ t ! i # drop (Suc i) t \<and> t[i := e] = take i t @ e # drop (Suc i) t"
  by (simp add: id_take_nth_drop [symmetric] upd_conv_take_nth_drop)

lemma map_of_middle: "k \<notin> fst ` set xs \<Longrightarrow> map_of (xs @ (k, v) # ys) = (map_of (xs @ ys))(k \<mapsto> v)"
  by (induction xs) (auto simp: fun_eq_iff)

lemma map_of_absent: "k \<notin> fst ` set xs \<Longrightarrow> (map_of xs)(k := None) = map_of xs"
  by (simp add: fun_upd_idem map_of_eq_None_iff [THEN iffD2])

lemma Remove_ok:
  assumes "dir_ok dir"
  shows "\<exists>dir'. Remove nm dir = Inr (dir_abs dir (dir_key nm) \<noteq> None, dir') \<and> dir_ok dir' \<and>
    dir_abs dir' = (dir_abs dir)(dir_key nm := None) \<and>
    length (table dir') = length (table dir) \<and> e_sector ` set (table dir') \<subseteq> e_sector ` set (table dir)"
proof (cases "\<exists>e\<in>set (table dir). names nm e")
  case True
  then obtain i where i: "i < length (table dir)" "names nm (table dir ! i)" "\<forall>j<i. \<not> names nm (table dir ! j)"
    by (rule first_such)
  let ?t = "table dir" and ?e = "table dir ! i"
  let ?dir = "dir\<lparr>table := ?t[i := ?e\<lparr>inUse := False\<rparr>]\<rparr>"
  have run: "Remove nm dir = Inr (True, ?dir)"
    using assms i by (simp add: Remove_def FindIndex_present [OF _ i] dir_ok_def)
  obtain A B where t: "?t = A @ ?e # B" "?t[i := ?e\<lparr>inUse := False\<rparr>] = A @ ?e\<lparr>inUse := False\<rparr> # B"
    using update_split [OF i(1)] by blast
  have p: "dir_pairs ?t = dir_pairs A @ (dir_key nm, e_sector ?e) # dir_pairs B"
    using arg_cong [OF t(1), of dir_pairs] i(2) by (simp add: names_def)
  have p': "dir_pairs (?t[i := ?e\<lparr>inUse := False\<rparr>]) = dir_pairs A @ dir_pairs B" by (simp add: t(2))
  have key: "dir_key nm \<notin> fst ` set (dir_pairs A @ dir_pairs B)" "distinct (map fst (dir_pairs A @ dir_pairs B))"
    using assms unfolding dir_ok_def p by auto
  have "dir_abs ?dir = (dir_abs dir)(dir_key nm := None)"
    using map_of_middle [of "dir_key nm" "dir_pairs A" "e_sector ?e" "dir_pairs B"] map_of_absent [OF key(1)] key(1)
    by (simp add: dir_abs_def p p' image_Un)
  moreover have "dir_ok ?dir"
    using assms key(2) i(1) by (auto simp: dir_ok_def p' entry_ok_def dest!: set_update_subset_insert [THEN subsetD])
  moreover have "e_sector ` set (table ?dir) \<subseteq> e_sector ` set ?t"
    using i(1) by (auto dest!: set_update_subset_insert [THEN subsetD])
  ultimately show ?thesis using run dir_abs_nth [OF assms i(1,2)] by auto
next
  case False
  then have "dir_abs dir (dir_key nm) = None" using dir_abs_None by blast
  moreover have "Remove nm dir = Inr (False, dir)"
    using False assms by (simp add: Remove_def FindIndex_absent dir_ok_def)
  ultimately show ?thesis using assms by (intro exI [of _ dir]) auto
qed

lemma length_cstr: "length (cstr n s) \<le> n"
  unfolding cstr_def using length_takeWhile_le [of "\<lambda>c. c \<noteq> 0" "take n s"] by simp

lemma takeWhile_pad: "\<forall>c\<in>set xs. c \<noteq> 0 \<Longrightarrow> takeWhile (\<lambda>c. c \<noteq> 0) (xs @ replicate m 0 @ ys) =
    xs @ (if m = 0 then takeWhile (\<lambda>c. c \<noteq> 0) ys else [])" for xs :: "8 word list"
  by (cases m) (simp_all add: takeWhile_append2)

lemma prefix_takeWhile: "takeWhile P (take k xs) = take k (takeWhile P xs)"
proof (induction xs arbitrary: k)
  case (Cons x xs)
  then show ?case by (cases k) simp_all
qed simp

text \<open>What \<^verbatim>\<open>strncpy\<close> copied is what \<^verbatim>\<open>strncmp\<close> compares.\<close>

lemma cstr_strncpy:
  assumes "k \<le> n" shows "cstr k (strncpy dst src n) = cstr k src"
proof -
  define xs where "xs = cstr n src"
  have nz: "\<forall>c\<in>set (take k xs). c \<noteq> 0" by (auto simp: xs_def cstr_def dest!: in_set_takeD set_takeWhileD)
  have "take k (take n src) = take k src" using assms by (simp add: min_absorb1)
  then have eq: "cstr k src = take k xs"
    using prefix_takeWhile [of "\<lambda>c. c \<noteq> 0" k "take n src"] by (simp add: cstr_def xs_def)
  have len: "length xs \<le> n" unfolding xs_def by (rule length_cstr)
  have "take k (strncpy dst src n) = take k xs @ take (k - length xs) (replicate (n - length xs) 0 @ drop n dst)"
    by (simp add: strncpy_def xs_def [symmetric])
  also have "take (k - length xs) (replicate (n - length xs) 0 @ drop n dst) = replicate (k - length xs) 0 @ []"
    using assms by (simp add: min_absorb1 diff_le_mono)
  finally have "cstr k (strncpy dst src n) = take k xs"
    unfolding cstr_def [of k "strncpy dst src n"] using takeWhile_pad [OF nz, of "k - length xs" "[]"] by simp
  then show ?thesis by (simp only: eq)
qed

lemma length_strncpy: "n \<le> length dst \<Longrightarrow> length (strncpy dst src n) = length dst"
  using length_cstr [of n src] by (simp add: strncpy_def)

lemma put_entry_ok:
  assumes "entry_ok e"
  shows "entry_ok (put_entry nm s e)" "inUse (put_entry nm s e)" "e_sector (put_entry nm s e) = s"
    "dir_key (e_name (put_entry nm s e)) = dir_key nm"
  using assms by (simp_all add: put_entry_def entry_ok_def length_strncpy FileNameMaxLen_def dir_key_def cstr_strncpy)

text \<open>Filling a free entry of a table adds one pair.\<close>

lemma fill_entry:
  assumes ok: "\<forall>e\<in>set t. entry_ok e" and dist: "distinct (map fst (dir_pairs t))" and i: "i < length t" "\<not> inUse (t ! i)"
    and new: "\<forall>e\<in>set t. \<not> names nm e"
  shows "map_of (dir_pairs (t[i := put_entry nm s (t ! i)])) = (map_of (dir_pairs t))(dir_key nm \<mapsto> s)"
    and "distinct (map fst (dir_pairs (t[i := put_entry nm s (t ! i)])))"
    and "\<forall>e\<in>set (t[i := put_entry nm s (t ! i)]). entry_ok e"
proof -
  let ?e = "put_entry nm s (t ! i)"
  obtain A B where t: "t = A @ t ! i # B" "t[i := ?e] = A @ ?e # B" using update_split [OF i(1)] by blast
  note e = put_entry_ok [of "t ! i" nm s]
  have p: "dir_pairs t = dir_pairs A @ dir_pairs B" using arg_cong [OF t(1), of dir_pairs] i(2) by simp
  have p': "dir_pairs (t[i := ?e]) = dir_pairs A @ (dir_key nm, s) # dir_pairs B"
    using t(2) e ok i(1) by simp
  have "dir_key nm \<notin> fst ` set (dir_pairs t)" using new by (simp add: dir_pairs_key)
  then have key: "dir_key nm \<notin> fst ` set (dir_pairs A)" "dir_key nm \<notin> fst ` set (dir_pairs B)"
    by (auto simp: p)
  show "map_of (dir_pairs (t[i := ?e])) = (map_of (dir_pairs t))(dir_key nm \<mapsto> s)"
    unfolding p p' by (rule map_of_middle [OF key(1)])
  show "distinct (map fst (dir_pairs (t[i := ?e])))"
    using dist key unfolding p p' by auto
  show "\<forall>e\<in>set (t[i := ?e]). entry_ok e"
    using ok e(1) i(1) by (auto dest!: set_update_subset_insert [THEN subsetD])
qed

definition copy_entry :: "DirectoryEntry \<Rightarrow> DirectoryEntry" where
  "copy_entry e = zero_entry\<lparr>inUse := inUse e, e_sector := e_sector e,
     e_name := strncpy (replicate 10 0) (e_name e) (FileNameMaxLen + 1)\<rparr>"

lemma copy_entry_ok: "entry_ok (copy_entry e)" "inUse (copy_entry e) = inUse e" "e_sector (copy_entry e) = e_sector e"
  "dir_key (e_name (copy_entry e)) = dir_key (e_name e)"
  by (simp_all add: copy_entry_def entry_ok_def zero_entry_def length_strncpy FileNameMaxLen_def dir_key_def cstr_strncpy)

lemma dir_pairs_copy: "dir_pairs (map copy_entry t) = dir_pairs t"
  by (induction t) (simp_all add: copy_entry_ok)

lemma dir_pairs_zero: "dir_pairs (replicate n zero_entry) = []"
  by (induction n) (simp_all add: zero_entry_def)

lemma grow_table_ok:
  assumes "length t \<le> n"
  shows "grow_table t (int (length t)) (int n) = Inr (map copy_entry t @ replicate (n - length t) zero_entry)"
proof -
  let ?body = "\<lambda>i newTable.
       if i < int (length t) then
         rbind (aget t i) (\<lambda>e. rbind (aget newTable i) (\<lambda>e'.
         aset newTable i (e'\<lparr>inUse := inUse e, e_sector := e_sector e,
           e_name := strncpy (e_name e') (e_name e) (FileNameMaxLen + 1)\<rparr>)))
       else rbind (aget newTable i) (\<lambda>e'. aset newTable i (e'\<lparr>inUse := False\<rparr>))"
  let ?I = "\<lambda>i t'. length t' = n \<and>
    (\<forall>j<n. t' ! j = (if j < nat i \<and> j < length t then copy_entry (t ! j) else zero_entry))"
  have "\<exists>t'. for_each [0..int n - 1] ?body (replicate n zero_entry) = Inr t' \<and> ?I (int n) t'"
  proof (rule for_loop_invariant [where I = ?I])
    fix i t' assume i: "0 \<le> i" "i < int n" and t': "?I i t'"
    define k where "k = nat i"
    have k: "i = int k" "k < n" using i by (auto simp: k_def)
    then have z: "t' ! k = zero_entry" using t' by simp
    have "?body i t' = Inr (t'[k := (if k < length t then copy_entry (t ! k) else zero_entry)])"
      using t' k z by (cases "k < length t") (simp_all add: copy_entry_def, simp_all add: zero_entry_def)
    moreover have "?I (i + 1) (t'[k := (if k < length t then copy_entry (t ! k) else zero_entry)])"
      using t' k by (auto simp: nth_list_update nat_add_distrib less_Suc_eq)
    ultimately show "\<exists>t''. ?body i t' = Inr t'' \<and> ?I (i + 1) t''" by blast
  qed simp_all
  then obtain t' where t': "grow_table t (int (length t)) (int n) = Inr t'" "length t' = n"
    "\<forall>j<n. t' ! j = (if j < length t then copy_entry (t ! j) else zero_entry)"
    by (auto simp: grow_table_def)
  have "t' = map copy_entry t @ replicate (n - length t) zero_entry"
    using t' assms by (intro nth_equalityI) (auto simp: nth_append)
  with t'(1) show ?thesis by simp
qed

definition grown_size :: "Directory \<Rightarrow> nat" where
  "grown_size dir = (if \<exists>e\<in>set (table dir). \<not> inUse e then length (table dir) else 3 * length (table dir) div 2)"

lemma Add_ok:
  assumes "dir_ok dir"
  shows "\<exists>dir'. Add nm s dir = Inr (dir_abs dir (dir_key nm) = None, dir') \<and> dir_ok dir' \<and>
    dir_abs dir' = (if dir_abs dir (dir_key nm) = None then (dir_abs dir)(dir_key nm \<mapsto> s) else dir_abs dir) \<and>
    length (table dir') \<le> grown_size dir \<and> e_sector ` set (table dir') \<subseteq> {0, s} \<union> e_sector ` set (table dir)"
proof (cases "\<exists>e\<in>set (table dir). names nm e")
  case True
  then obtain i where i: "i < length (table dir)" "names nm (table dir ! i)" "\<forall>j<i. \<not> names nm (table dir ! j)"
    by (rule first_such)
  with assms show ?thesis
    by (auto simp: Add_def FindIndex_present [OF _ i] dir_abs_nth [OF assms i(1,2)] dir_ok_def grown_size_def)
next
  case new: False
  let ?t = "table dir" and ?n = "length (table dir)"
  have size: "tableSize dir = int ?n" "2 \<le> ?n" and ok: "\<forall>e\<in>set ?t. entry_ok e" "distinct (map fst (dir_pairs ?t))"
    using assms by (simp_all add: dir_ok_def)
  have absent: "dir_abs dir (dir_key nm) = None" using new dir_abs_None by blast
  have index: "FindIndex nm dir = Inr (-1)" using new size FindIndex_absent by blast
  show ?thesis
  proof (cases "\<exists>e\<in>set ?t. \<not> inUse e")
    case True
    then obtain i where i: "i < ?n" "\<not> inUse (?t ! i)" "\<forall>j<i. inUse (?t ! j)"
      using first_such [of ?t "\<lambda>e. \<not> inUse e"] by auto
    note fill = fill_entry [OF ok i(1,2), of nm s]
    have "Add nm s dir = Inr (True, dir\<lparr>table := ?t[i := put_entry nm s (?t ! i)]\<rparr>)"
      using size index add_free_at [OF i, of nm s] by (simp add: Add_def)
    moreover have "e_sector ` set (?t[i := put_entry nm s (?t ! i)]) \<subseteq> {0, s} \<union> e_sector ` set ?t"
      by (auto simp: put_entry_def dest!: set_update_subset_insert [THEN subsetD])
    ultimately show ?thesis
      using fill new size absent True by (simp add: dir_ok_def dir_abs_def grown_size_def)
  next
    case False
    let ?m = "3 * ?n div 2"
    define g where "g = map copy_entry ?t @ replicate (?m - ?n) zero_entry"
    have m: "?n < ?m" using size(2) by simp
    have div: "(tableSize dir * 3) sdiv 2 = int ?m" using size by (simp add: sdiv_nonneg zdiv_int mult.commute)
    have "entry_ok zero_entry" by (simp add: entry_ok_def zero_entry_def)
    then have g: "length g = ?m" "g ! ?n = zero_entry" "\<forall>e\<in>set g. entry_ok e" "dir_pairs g = dir_pairs ?t"
      using m by (auto simp: g_def nth_append copy_entry_ok dir_pairs_copy dir_pairs_zero)
    have grow: "grow_table ?t (int ?n) (int ?m) = Inr g" unfolding g_def using m by (intro grow_table_ok) simp
    have none: "\<forall>e\<in>set g. \<not> names nm e"
      using new dir_pairs_key [of nm g] dir_pairs_key [of nm ?t] by (simp only: g(4)) simp
    have dist: "distinct (map fst (dir_pairs g))" using ok(2) g(4) by simp
    have free: "?n < length g" "\<not> inUse (g ! ?n)" using g(1,2) m by (simp_all add: zero_entry_def)
    note fill = fill_entry [OF g(3) dist free none, of s]
    have "Add nm s dir = Inr (True, dir\<lparr>tableSize := int ?m, table := g[?n := put_entry nm s (g ! ?n)]\<rparr>)"
      using size(1) index add_free_full [of ?t nm s] False grow m g(1) free(2) div
      by (simp add: Add_def Let_def)
    moreover have "e_sector ` set g \<subseteq> {0} \<union> e_sector ` set ?t"
      by (auto simp: g_def copy_entry_ok) (simp add: zero_entry_def)
    then have "e_sector ` set (g[?n := put_entry nm s (g ! ?n)]) \<subseteq> {0, s} \<union> e_sector ` set ?t"
      using put_entry_ok(3) g(3) free(1)
      by (auto simp: put_entry_def dest!: set_update_subset_insert [THEN subsetD])
    ultimately show ?thesis
      using fill g(1,4) m size(2) absent False by (simp add: dir_ok_def dir_abs_def grown_size_def)
  qed
qed

subsection \<open>The directory as a map\<close>

datatype dir_op = OpFind "8 word list" | OpAdd "8 word list" int | OpRemove "8 word list"

datatype dir_out = Sector int | Done bool

fun dir_step :: "dir_op \<Rightarrow> Directory \<Rightarrow> (dir_out \<times> Directory) result option" where
  "dir_step (OpFind nm) dir = Some (rbind (dir_Find nm dir) (\<lambda>s. Inr (Sector s, dir)))"
| "dir_step (OpAdd nm s) dir = Some (rbind (Add nm s dir) (\<lambda>(ok, dir). Inr (Done ok, dir)))"
| "dir_step (OpRemove nm) dir = Some (rbind (Remove nm dir) (\<lambda>(ok, dir). Inr (Done ok, dir)))"

fun dir_spec :: "dir_op \<Rightarrow> (8 word list \<rightharpoonup> int) \<Rightarrow> dir_out \<times> (8 word list \<rightharpoonup> int)" where
  "dir_spec (OpFind nm) m = (Sector (case m (dir_key nm) of None \<Rightarrow> -1 | Some s \<Rightarrow> s), m)"
| "dir_spec (OpAdd nm s) m =
     (if m (dir_key nm) = None then (Done True, m(dir_key nm \<mapsto> s)) else (Done False, m))"
| "dir_spec (OpRemove nm) m = (Done (m (dir_key nm) \<noteq> None), m(dir_key nm := None))"

definition dir_rep :: "Directory \<Rightarrow> (8 word list \<rightharpoonup> int) \<Rightarrow> bool" where
  "dir_rep dir m \<longleftrightarrow> dir_ok dir \<and> dir_abs dir = m"

interpretation directory_map: implements dir_rep dir_step dir_spec
proof
  fix dir m op assume rep: "dir_rep dir m"
  then have ok: "dir_ok dir" and m: "m = dir_abs dir" by (auto simp: dir_rep_def)
  show "\<exists>dir'. dir_step op dir = Some (Inr (fst (dir_spec op m), dir')) \<and> dir_rep dir' (snd (dir_spec op m))"
  proof (cases op)
    case (OpFind nm)
    then show ?thesis using ok by (simp add: m dir_Find_ok dir_rep_def)
  next
    case (OpAdd nm s)
    then show ?thesis using Add_ok [OF ok, of nm s] by (auto simp: m dir_rep_def)
  next
    case (OpRemove nm)
    then show ?thesis using Remove_ok [OF ok, of nm] by (auto simp: m dir_rep_def)
  qed
qed

lemma clear_inUse_ok: "clear_inUse (int (length t)) t = Inr (map (inUse_update (\<lambda>_. False)) t)"
proof -
  let ?body = "\<lambda>i t. rbind (aget t i) (\<lambda>e. aset t i (e\<lparr>inUse := False\<rparr>))"
  let ?I = "\<lambda>i t'. length t' = length t \<and> (\<forall>j<length t. t' ! j = (if j < nat i then (t ! j)\<lparr>inUse := False\<rparr> else t ! j))"
  have "\<exists>t'. for_each [0..int (length t) - 1] ?body t = Inr t' \<and> ?I (int (length t)) t'"
    by (rule for_loop_invariant [where I = ?I]) (auto simp: nth_list_update nat_less_iff)
  then obtain t' where "clear_inUse (int (length t)) t = Inr t'" "length t' = length t"
    "\<forall>j<length t. t' ! j = (t ! j)\<lparr>inUse := False\<rparr>"
    by (auto simp: clear_inUse_def)
  moreover from this have "t' = map (inUse_update (\<lambda>_. False)) t" by (intro nth_equalityI) auto
  ultimately show ?thesis by simp
qed

lemma new_Directory_ok:
  assumes "\<forall>i. entry_ok (es i)" and "2 \<le> n"
  shows "\<exists>dir. new_Directory es n = Inr dir \<and> dir_rep dir Map.empty \<and> tableSize dir = n \<and>
    (\<forall>e\<in>set (table dir). \<not> inUse e \<and> (\<exists>i. e_sector e = e_sector (es i)))"
proof -
  let ?t = "map (inUse_update (\<lambda>_. False)) (map es [0..<nat n])"
  have "new_Directory es n = Inr \<lparr>tableSize = n, table = ?t\<rparr>"
    using clear_inUse_ok [of "map es [0..<nat n]"] assms(2) by (simp add: new_Directory_def)
  moreover have "dir_pairs ?t = []" by (simp add: dir_pairs_def filter_empty_conv)
  ultimately show ?thesis
    using assms by (auto simp: dir_rep_def dir_ok_def dir_abs_def entry_ok_def)
qed

subsection \<open>Directories on disk\<close>

lemma length_entry_bytes: "entry_ok e \<Longrightarrow> length (entry_bytes e) = 20"
  by (simp add: entry_bytes_def entry_ok_def)

lemma bytes_entry_bytes:
  assumes "entry_ok e" and "int32 (e_sector e)" shows "bytes_entry (entry_bytes e) = e"
proof -
  have "length (take 3 (e_pad e)) = 3" using assms by (simp add: entry_ok_def)
  then obtain a b c where p: "take 3 (e_pad e) = [a, b, c]"
    by (cases "take 3 (e_pad e)" rule: list.exhaust; cases "tl (take 3 (e_pad e))"; cases "tl (tl (take 3 (e_pad e)))")
      auto
  have "e_pad e = [a, b, c] @ drop 3 (e_pad e)" using p append_take_drop_id [of 3 "e_pad e"] by simp
  then show ?thesis
    using assms p by (intro DirectoryEntry.equality)
      (simp_all add: bytes_entry_def entry_bytes_def entry_ok_def bytes_int_int_bytes)
qed

lemma length_table_bytes: "\<forall>e\<in>set t. entry_ok e \<Longrightarrow> length (table_bytes t) = 20 * length t"
  by (induction t) (simp_all add: table_bytes_def length_entry_bytes)

lemma table_bytes_nth:
  "\<forall>e\<in>set t. entry_ok e \<Longrightarrow> i < length t \<Longrightarrow> take 20 (drop (20 * i) (table_bytes t)) = entry_bytes (t ! i)"
proof (induction t arbitrary: i)
  case (Cons e t)
  then show ?case by (cases i) (simp_all add: table_bytes_def length_entry_bytes)
qed simp

lemma bytes_table_bytes:
  assumes "\<forall>e\<in>set t. entry_ok e \<and> int32 (e_sector e)"
  shows "bytes_table (length t) (table_bytes t) = t"
  using assms by (intro nth_equalityI) (auto simp: bytes_table_def table_bytes_nth bytes_entry_bytes)

definition dir_bytes :: "Directory \<Rightarrow> 8 word list" where
  "dir_bytes dir = int_bytes (tableSize dir) @ table_bytes (table dir)"

text \<open>The directory is at the front of the file with the data sectors \<open>ds\<close>.\<close>

definition dir_in_file :: "int list \<Rightarrow> sectors \<Rightarrow> Directory \<Rightarrow> bool" where
  "dir_in_file ds d dir \<longleftrightarrow> take (length (dir_bytes dir)) (file_bytes ds d) = dir_bytes dir"

definition dir_fits :: "Directory \<Rightarrow> int list \<Rightarrow> bool" where
  "dir_fits dir ds \<longleftrightarrow> dir_ok dir \<and> (\<forall>e\<in>set (table dir). int32 (e_sector e)) \<and>
     4 + 20 * length (table dir) \<le> 128 * length ds \<and> length ds \<le> 34"

lemma dir_WriteBack_ok:
  assumes f: "file_ok f ds ind d" and dir: "dir_fits dir ds"
  shows "\<exists>d'. dir_WriteBack u f dir d = Some (Inr (f, d')) \<and> file_ok f ds ind d' \<and> dir_in_file ds d' dir \<and>
    (\<forall>s. s \<notin> nat ` set ds \<longrightarrow> d' s = d s)"
proof -
  let ?n = "length (table dir)" and ?c = "file_bytes ds d"
  have size: "tableSize dir = int ?n" "2 \<le> ?n" "4 + 20 * ?n \<le> 128 * length ds" "\<forall>e\<in>set (table dir). entry_ok e"
    using dir by (auto simp: dir_fits_def dir_ok_def)
  have len: "length (table_bytes (table dir)) = 20 * ?n" using size(4) by (rule length_table_bytes)
  have fit: "0 + 4 \<le> 128 * int (length ds)" "4 + int ?n * 20 \<le> 128 * int (length ds)" using size(2,3) by linarith+
  have ne: "table dir \<noteq> []" using size(2) by auto
  obtain d1 where d1: "WriteAt u f (int_bytes (int ?n)) 4 0 d = Some (Inr (4, f, d1))" "file_ok f ds ind d1"
    "file_bytes ds d1 = overwrite 0 (take 4 (int_bytes (int ?n))) ?c" "\<forall>s. s \<notin> nat ` set ds \<longrightarrow> d1 s = d s"
    using WriteAt_inside [OF f, of 0 4 "int_bytes (int ?n)" u] fit(1) by auto
  obtain d2 where d2: "WriteAt u f (table_bytes (table dir)) (int ?n * 20) 4 d1 = Some (Inr (int ?n * 20, f, d2))"
    "file_ok f ds ind d2"
    "file_bytes ds d2 = overwrite 4 (take (nat (int ?n * 20)) (table_bytes (table dir))) (file_bytes ds d1)"
    "\<forall>s. s \<notin> nat ` set ds \<longrightarrow> d2 s = d1 s"
    using WriteAt_inside [OF d1(2), of 4 "int ?n * 20" "table_bytes (table dir)" u] fit(2) ne len by auto
  have "nat (int ?n * 20) = 20 * ?n" by simp
  then have "file_bytes ds d2 = dir_bytes dir @ drop (4 + 20 * ?n) ?c"
    using d2(3) d1(3) len size(1) by (simp add: overwrite_def dir_bytes_def add.commute)
  then have "dir_in_file ds d2 dir" by (simp add: dir_in_file_def)
  with d1 d2 show ?thesis by (simp add: dir_WriteBack_def size(1))
qed

lemma dir_FetchFrom_ok:
  assumes f: "file_ok f ds ind d" and dir: "dir_fits dir ds" and here: "dir_in_file ds d dir"
    and long: "4 < numBytes (hdr f)" and es: "\<forall>i. entry_ok (es i)"
  shows "dir_FetchFrom es f dir0 d = Inr dir"
proof -
  let ?n = "length (table dir)" and ?c = "file_bytes ds d"
  have size: "tableSize dir = int ?n" "2 \<le> ?n" "4 + 20 * ?n \<le> 128 * length ds" "\<forall>e\<in>set (table dir). entry_ok e"
    "\<forall>e\<in>set (table dir). int32 (e_sector e)" "?n < 2 ^ 31"
    using dir by (auto simp: dir_fits_def dir_ok_def)
  have len: "length (table_bytes (table dir)) = 20 * ?n" using size(4) by (rule length_table_bytes)
  have fit: "0 + 4 \<le> 128 * int (length ds)" "4 + int ?n * 20 \<le> 128 * int (length ds)" using size(2,3) by linarith+
  have ne: "table dir \<noteq> []" using size(2) by auto
  have c: "take (4 + 20 * ?n) ?c = int_bytes (int ?n) @ table_bytes (table dir)"
    using here len size(1) by (simp add: dir_in_file_def dir_bytes_def)
  have "take 4 ?c = take 4 (take (4 + 20 * ?n) ?c)" by (simp add: min_def)
  also have "\<dots> = int_bytes (int ?n)" unfolding c by simp
  finally have r1: "ReadAt f 4 0 d = Inr (4, int_bytes (int ?n))"
    using ReadAt_inside [OF f, of 0 4] long fit(1) by simp
  have "take (20 * ?n) (drop 4 ?c) = drop 4 (take (4 + 20 * ?n) ?c)" by (simp add: drop_take)
  also have "\<dots> = table_bytes (table dir)" unfolding c by simp
  finally have r2: "ReadAt f (int ?n * 20) 4 d = Inr (int ?n * 20, table_bytes (table dir))"
    using ReadAt_inside [OF f, of 4 "int ?n * 20"] long fit(2) ne by (simp add: nat_mult_distrib mult.commute)
  let ?t0 = "map (inUse_update (\<lambda>_. False)) (map es [0..<?n])"
  have t0: "clear_inUse (int ?n) (map es [0..<?n]) = Inr ?t0" using clear_inUse_ok [of "map es [0..<?n]"] by simp
  have "length (table_bytes ?t0) = 20 * ?n"
    using es by (subst length_table_bytes) (auto simp: entry_ok_def)
  moreover have "bytes_int (int_bytes (int ?n)) = int ?n"
    using size(6) by (intro bytes_int_int_bytes) (simp add: int32_def)
  moreover have "bytes_table ?n (table_bytes (table dir)) = table dir" using size(4,5) by (intro bytes_table_bytes) auto
  ultimately show ?thesis
    using r1 r2 t0 len size(1) by (simp add: dir_FetchFrom_def copy_in_def Let_def)
qed

subsection \<open>Property\<close>

text \<open>
  C26: a directory is a map from names to sectors. On a new directory of at least two entries every sequence of lookups,
  additions and removals runs without a fault and returns what the same operations on a finite map return: a lookup
  gives the sector of the last addition of that name that was not removed, or \<open>-1\<close>; an addition fails exactly when
  the name is present, whatever the number of entries, because a full table grows. Names are compared on their first
  nine characters.
\<close>

theorem directory_is_a_map:
  assumes "\<forall>i. entry_ok (es i)" and "2 \<le> n"
  shows "\<exists>dir. new_Directory es n = Inr dir \<and>
    (\<forall>ops. \<exists>dir'. run_ops dir_step ops dir = Some (Inr (fst (run_spec dir_spec ops Map.empty), dir')) \<and>
       dir_ok dir' \<and> dir_abs dir' = snd (run_spec dir_spec ops Map.empty))"
proof -
  obtain dir where dir: "new_Directory es n = Inr dir" "dir_rep dir Map.empty"
    using new_Directory_ok [OF assms] by blast
  moreover have "\<exists>dir'. run_ops dir_step ops dir = Some (Inr (fst (run_spec dir_spec ops Map.empty), dir')) \<and>
       dir_ok dir' \<and> dir_abs dir' = snd (run_spec dir_spec ops Map.empty)" for ops
    using directory_map.run_simulates [OF dir(2), of ops] by (auto simp: dir_rep_def)
  ultimately show ?thesis by blast
qed

theorem directory_is_a_map_witness:
  "\<exists>dir dir'. new_Directory (\<lambda>_. zero_entry) 2 = Inr dir \<and>
     run_ops dir_step [OpAdd [65] 7, OpAdd [66] 8, OpAdd [67] 9, OpFind [67], OpRemove [65], OpFind [65]] dir =
       Some (Inr ([Done True, Done True, Done True, Sector 9, Done True, Sector (-1)], dir'))"
proof -
  have "\<forall>i :: nat. entry_ok zero_entry" by (simp add: entry_ok_def zero_entry_def)
  then obtain dir where dir: "new_Directory (\<lambda>_. zero_entry) 2 = Inr dir"
    "\<forall>ops. \<exists>dir'. run_ops dir_step ops dir = Some (Inr (fst (run_spec dir_spec ops Map.empty), dir'))"
    using directory_is_a_map [of "\<lambda>_. zero_entry" 2] by fast
  have "fst (run_spec dir_spec [OpAdd [65] 7, OpAdd [66] 8, OpAdd [67] 9, OpFind [67], OpRemove [65], OpFind [65]] Map.empty) =
      [Done True, Done True, Done True, Sector 9, Done True, Sector (-1)]"
    by (simp add: dir_key_def cstr_def FileNameMaxLen_def)
  with dir show ?thesis by metis
qed

text \<open>A table of one entry cannot grow: half of it is nothing, and the new entry is written past its end.\<close>

lemma single_entry_table_overruns:
  "Add [65] 7 \<lparr>tableSize = 1, table = [put_entry [66] 8 zero_entry]\<rparr> = Inl OutOfBounds"
  by code_simp

end
