(* ===== verification/File_System.thy ===== *)
theory File_System
  imports Directories
begin

text \<open>
  \<^verbatim>\<open>filesys/filesys.cc\<close>: formatting a disk and creating, opening and removing files by name. The component composes
  the others: the free map is a bitmap in the file whose header is in sector 0, the directory is a table in the
  file whose header is in sector 1, and both are fetched before and written back after every change.

  The invariant \<open>fs_ok\<close> ties the two open files to what is on the disk. The properties follow a file system from the
  format to the creation of files and their lookup by name.
\<close>

definition NumDirEntries :: int where "NumDirEntries = 4"
definition FreeMapFileSize :: int where "FreeMapFileSize = NumSectors div 8"
definition DirectoryFileSize :: int where "DirectoryFileSize = 20 * NumDirEntries"

record FileSystem =
  freeMapFile :: OpenFile
  directoryFile :: OpenFile

definition open_files :: "fresh \<Rightarrow> sectors \<Rightarrow> FileSystem result" where
  "open_files u d =
     rbind (new_OpenFile u FreeMapSector d) (\<lambda>m.
     rbind (new_OpenFile u DirectorySector d) (\<lambda>f. Inr \<lparr>freeMapFile = m, directoryFile = f\<rparr>))"

definition new_FileSystem ::
    "fresh \<Rightarrow> (nat \<Rightarrow> DirectoryEntry) \<Rightarrow> bool \<Rightarrow> sectors \<Rightarrow> (FileSystem \<times> sectors) result option" where
  "new_FileSystem u es format d =
     (if format then
        obind (returns (BitMap (fresh_words u) NumSectors)) (\<lambda>freeMap.
        obind (returns (new_Directory es NumDirEntries)) (\<lambda>directory.
        obind (returns (Mark freeMap FreeMapSector)) (\<lambda>freeMap.
        obind (returns (Mark freeMap DirectorySector)) (\<lambda>freeMap.
        obind (returns (Allocate freeMap FreeMapFileSize (fresh_hdr u))) (\<lambda>(ok, mapHdr, freeMap).
        obind (returns (ASSERT ok)) (\<lambda>_.
        obind (returns (Allocate freeMap DirectoryFileSize (fresh_hdr u))) (\<lambda>(ok, dirHdr, freeMap).
        obind (returns (ASSERT ok)) (\<lambda>_.
        obind (returns (WriteBack FreeMapSector mapHdr d)) (\<lambda>d.
        obind (returns (WriteBack DirectorySector dirHdr d)) (\<lambda>d.
        obind (returns (open_files u d)) (\<lambda>fs.
        obind (bm_WriteBack u (freeMapFile fs) freeMap d) (\<lambda>(m, d).
        obind (dir_WriteBack u (directoryFile fs) directory d) (\<lambda>(f, d).
        returns (Inr (\<lparr>freeMapFile = m, directoryFile = f\<rparr>, d)))))))))))))))
      else returns (rbind (open_files u d) (\<lambda>fs. Inr (fs, d))))"

definition fetch_directory :: "(nat \<Rightarrow> DirectoryEntry) \<Rightarrow> FileSystem \<Rightarrow> sectors \<Rightarrow> Directory result" where
  "fetch_directory es fs d =
     rbind (new_Directory es NumDirEntries) (\<lambda>directory. dir_FetchFrom es (directoryFile fs) directory d)"

definition fetch_map :: "fresh \<Rightarrow> FileSystem \<Rightarrow> sectors \<Rightarrow> bitmap result" where
  "fetch_map u fs d =
     rbind (BitMap (fresh_words u) NumSectors) (\<lambda>freeMap. bm_FetchFrom (freeMapFile fs) freeMap d)"

definition fs_Create :: "fresh \<Rightarrow> (nat \<Rightarrow> DirectoryEntry) \<Rightarrow> 8 word list \<Rightarrow> int \<Rightarrow> FileSystem \<Rightarrow> sectors \<Rightarrow>
    (bool \<times> FileSystem \<times> sectors) result option" where
  "fs_Create u es nm initialSize fs d =
     obind (returns (fetch_directory es fs d)) (\<lambda>directory.
     obind (returns (FetchFrom DirectorySector (fresh_hdr u) d)) (\<lambda>dirHdr.
     obind (returns (dir_Find nm directory)) (\<lambda>found.
     if found \<noteq> -1 then returns (Inr (False, fs, d))
     else
       obind (returns (fetch_map u fs d)) (\<lambda>freeMap.
       obind (returns (Find freeMap)) (\<lambda>(sector, freeMap).
       if sector = -1 then returns (Inr (False, fs, d))
       else
         obind (returns (Add nm sector directory)) (\<lambda>(added, directory).
         if \<not> added then returns (Inr (False, fs, d))
         else
           obind (returns (Allocate freeMap initialSize zero_FileHeader)) (\<lambda>(ok, h, freeMap).
           if \<not> ok then returns (Inr (False, fs, d))
           else
             obind (bm_WriteBack u (freeMapFile fs) freeMap d) (\<lambda>(m, d).
             obind (returns (WriteBack sector h d)) (\<lambda>d.
             obind (dir_WriteBack u (directoryFile fs) directory d) (\<lambda>(f, d).
             obind (returns (FetchFrom DirectorySector dirHdr d)) (\<lambda>_.
             returns (Inr (True, \<lparr>freeMapFile = m, directoryFile = f\<rparr>, d)))))))))))))"

definition fs_Open :: "fresh \<Rightarrow> (nat \<Rightarrow> DirectoryEntry) \<Rightarrow> 8 word list \<Rightarrow> FileSystem \<Rightarrow> sectors \<Rightarrow> OpenFile option result" where
  "fs_Open u es nm fs d =
     rbind (fetch_directory es fs d) (\<lambda>directory.
     rbind (dir_Find nm directory) (\<lambda>sector.
     if sector \<ge> 0 then rbind (new_OpenFile u sector d) (\<lambda>f. Inr (Some f)) else Inr None))"

definition fs_Remove :: "fresh \<Rightarrow> (nat \<Rightarrow> DirectoryEntry) \<Rightarrow> 8 word list \<Rightarrow> FileSystem \<Rightarrow> sectors \<Rightarrow>
    (bool \<times> FileSystem \<times> sectors) result option" where
  "fs_Remove u es nm fs d =
     obind (returns (fetch_directory es fs d)) (\<lambda>directory.
     obind (returns (dir_Find nm directory)) (\<lambda>sector.
     if sector = -1 then returns (Inr (False, fs, d))
     else
       obind (returns (FetchFrom sector (fresh_hdr u) d)) (\<lambda>fileHdr.
       obind (returns (fetch_map u fs d)) (\<lambda>freeMap.
       obind (returns (Deallocate fileHdr freeMap)) (\<lambda>(fileHdr, freeMap).
       obind (returns (Clear freeMap sector)) (\<lambda>freeMap.
       obind (returns (Remove nm directory)) (\<lambda>(removed, directory).
       obind (bm_WriteBack u (freeMapFile fs) freeMap d) (\<lambda>(m, d).
       obind (dir_WriteBack u (directoryFile fs) directory d) (\<lambda>(f, d).
       returns (Inr (True, \<lparr>freeMapFile = m, directoryFile = f\<rparr>, d)))))))))))"

definition fs_List :: "(nat \<Rightarrow> DirectoryEntry) \<Rightarrow> FileSystem \<Rightarrow> sectors \<Rightarrow> 8 word list list result" where
  "fs_List es fs d = rbind (fetch_directory es fs d) dir_List"

subsection \<open>Changes outside a set of sectors\<close>

definition only :: "int list \<Rightarrow> sectors \<Rightarrow> sectors \<Rightarrow> bool" where
  "only ds d d' \<longleftrightarrow> (\<forall>t. 0 \<le> t \<and> t \<notin> set ds \<longrightarrow> d' (nat t) = d (nat t))"

lemma onlyI:
  assumes "\<forall>s. s \<notin> nat ` set ds \<longrightarrow> d' s = d s" and "set ds \<subseteq> {0..<NumSectors}" shows "only ds d d'"
  unfolding only_def
proof (intro allI impI)
  fix t assume t: "0 \<le> t \<and> t \<notin> set ds"
  have "nat t \<notin> nat ` set ds"
  proof
    assume "nat t \<in> nat ` set ds"
    then obtain x where "x \<in> set ds" "nat t = nat x" by blast
    with t assms(2) show False by (auto simp: eq_nat_nat_iff)
  qed
  with assms(1) show "d' (nat t) = d (nat t)" by blast
qed

lemma onlyD: "only ds d d' \<Longrightarrow> 0 \<le> t \<Longrightarrow> t \<notin> set ds \<Longrightarrow> d' (nat t) = d (nat t)"
  by (simp add: only_def)

lemma only_trans: "only ds d d1 \<Longrightarrow> only ds' d1 d2 \<Longrightarrow> only (ds @ ds') d d2"
  by (simp add: only_def)

lemma only_file_bytes:
  assumes "only ws d d'" "set ds \<subseteq> {0..<NumSectors}" "set ds \<inter> set ws = {}"
  shows "file_bytes ds d' = file_bytes ds d"
  using assms by (intro file_bytes_cong onlyD [OF assms(1)]) auto

lemma only_file_ok:
  assumes "only ws d d'" "file_ok f ds ind d" "set ds \<inter> set ws = {}" shows "file_ok f ds ind d'"
proof -
  have "d' (nat s) = d (nat s)" if "s \<in> set ds" for s
    using that assms by (intro onlyD [OF assms(1)]) (auto simp: file_ok_def data_ok_def)
  then show ?thesis using assms(2) by (simp add: file_ok_def data_ok_def)
qed

lemma only_on_disk:
  assumes "only ws d d'" "on_disk d s h ds ind" "set (s # ind) \<inter> set ws = {}" shows "on_disk d' s h ds ind"
proof -
  have "d' (nat t) = d (nat t)" if "t \<in> set (s # ind)" for t
    using that assms by (intro onlyD [OF assms(1)]) (auto simp: on_disk_def)
  then show ?thesis using assms(2) by (simp add: on_disk_def)
qed

definition whole :: "sectors \<Rightarrow> bool" where
  "whole d \<longleftrightarrow> (\<forall>t. 0 \<le> t \<and> t < NumSectors \<longrightarrow> length (d (nat t)) = 128)"

lemma whole_only:
  assumes "whole d" "only ws d d'" "\<forall>t\<in>set ws. length (d' (nat t)) = 128" shows "whole d'"
  unfolding whole_def
proof (intro allI impI)
  fix t :: int assume "0 \<le> t \<and> t < NumSectors"
  with assms show "length (d' (nat t)) = 128" by (cases "t \<in> set ws") (auto simp: whole_def onlyD)
qed

lemma on_disk_128: "on_disk d s h ds ind \<Longrightarrow> t \<in> set (s # ind) \<Longrightarrow> length (d (nat t)) = 128"
  using ipb_ints_32(1) [of ds]
  by (auto simp: on_disk_def in_set_conv_nth length_ints_bytes hdr_ints_def hdr_layout_def hdr_part_def)

subsection \<open>The invariant\<close>

text \<open>
  \<open>fs_ok fs d bm dir dm dd\<close>: the disk \<open>d\<close> holds a file system with the free map \<open>bm\<close> in the data sectors \<open>dm\<close> and the
  directory \<open>dir\<close> in the data sectors \<open>dd\<close>; the two files are open in \<open>fs\<close>, and their sectors are marked.
\<close>

definition fs_ok :: "FileSystem \<Rightarrow> sectors \<Rightarrow> bitmap \<Rightarrow> Directory \<Rightarrow> int list \<Rightarrow> int list \<Rightarrow> bool" where
  "fs_ok fs d bm dir dm dd \<longleftrightarrow>
     whole d \<and> disk_map bm \<and> set ([0, 1] @ dm @ dd) \<subseteq> marked bm \<and> distinct ([0, 1] @ dm @ dd) \<and>
     file_ok (freeMapFile fs) dm [] d \<and> on_disk d FreeMapSector (hdr (freeMapFile fs)) dm [] \<and> map_in_file dm d bm \<and>
     file_ok (directoryFile fs) dd [] d \<and> on_disk d DirectorySector (hdr (directoryFile fs)) dd [] \<and>
     dir_in_file dd d dir \<and> dir_fits dir dd \<and> 4 < numBytes (hdr (directoryFile fs))"

lemma fresh_map: "\<exists>bm0. BitMap g NumSectors = Inr bm0 \<and> disk_map bm0 \<and> marked bm0 = {}"
  using BitMap_ok [of NumSectors g] by (auto simp: disk_map_def)

lemma fetch_map_ok: "fs_ok fs d bm dir dm dd \<Longrightarrow> fetch_map u fs d = Inr bm"
  using fresh_map [of "fresh_words u"] bm_FetchFrom_ok [of "freeMapFile fs" dm "[]" d bm]
  by (auto simp: fetch_map_def fs_ok_def)

lemma fetch_directory_ok:
  assumes "fs_ok fs d bm dir dm dd" "\<forall>i. entry_ok (es i)" shows "fetch_directory es fs d = Inr dir"
  using assms new_Directory_ok [OF assms(2), of NumDirEntries]
    dir_FetchFrom_ok [of "directoryFile fs" dd "[]" d dir es]
  by (auto simp: fetch_directory_def fs_ok_def NumDirEntries_def)

lemma disk_map_range: "disk_map bm \<Longrightarrow> marked bm \<subseteq> {0..<NumSectors}"
  using marked_subset [of bm] by (simp add: disk_map_def)

text \<open>Sectors taken from the free map are not those of the map, the directory and their headers.\<close>

lemma taken_apart:
  assumes "fs_ok fs d bm dir dm dd" "set ss \<inter> marked bm = {}"
  shows "set ss \<inter> set dm = {}" "set ss \<inter> set dd = {}" "0 \<notin> set ss" "1 \<notin> set ss"
  using assms by (auto simp: fs_ok_def)

lemma fs_header_fetch:
  assumes "fs_ok fs d bm dir dm dd" "length (indirectPointers h0) = 26"
  shows "\<exists>h. FetchFrom DirectorySector h0 d = Inr h \<and> hdr_layout h dd []"
  using FetchFrom_ok [of d DirectorySector "hdr (directoryFile fs)" dd "[]" h0] assms by (auto simp: fs_ok_def)

subsection \<open>The steps of an update\<close>

lemma fs_okD:
  assumes "fs_ok fs d bm dir dm dd"
  shows "whole d" "disk_map bm" "set ([0, 1] @ dm @ dd) \<subseteq> marked bm" "distinct ([0, 1] @ dm @ dd)"
    "file_ok (freeMapFile fs) dm [] d" "on_disk d FreeMapSector (hdr (freeMapFile fs)) dm []" "map_in_file dm d bm"
    "file_ok (directoryFile fs) dd [] d" "on_disk d DirectorySector (hdr (directoryFile fs)) dd []"
    "dir_in_file dd d dir" "dir_fits dir dd" "4 < numBytes (hdr (directoryFile fs))"
  using assms unfolding fs_ok_def by blast+

lemma fs_ok_sectors:
  assumes "fs_ok fs d bm dir dm dd"
  shows "set dm \<inter> set dd = {}" "FreeMapSector \<notin> set dm" "FreeMapSector \<notin> set dd" "DirectorySector \<notin> set dm"
    "DirectorySector \<notin> set dd" "set dm \<subseteq> {0..<NumSectors}" "set dd \<subseteq> {0..<NumSectors}"
proof -
  show "set dm \<inter> set dd = {}" "FreeMapSector \<notin> set dm" "FreeMapSector \<notin> set dd" "DirectorySector \<notin> set dm"
    "DirectorySector \<notin> set dd"
    using fs_okD(4) [OF assms] by simp_all
  show "set dm \<subseteq> {0..<NumSectors}" "set dd \<subseteq> {0..<NumSectors}"
    using fs_okD(5,8) [OF assms] unfolding file_ok_def data_ok_def by blast+
qed

text \<open>The parts of the invariant that a change outside their sectors keeps.\<close>

lemma map_part_only:
  assumes "only ws d d'" "file_ok f dm [] d" "on_disk d s (hdr f) dm []" "map_in_file dm d bm"
    "set dm \<inter> set ws = {}" "s \<notin> set ws"
  shows "file_ok f dm [] d'" "on_disk d' s (hdr f) dm []" "map_in_file dm d' bm"
proof -
  show "file_ok f dm [] d'" by (rule only_file_ok [OF assms(1,2,5)])
  show "on_disk d' s (hdr f) dm []" by (rule only_on_disk [OF assms(1,3)]) (simp add: assms(6))
  have "set dm \<subseteq> {0..<NumSectors}" using assms(2) unfolding file_ok_def data_ok_def by blast
  from only_file_bytes [OF assms(1) this assms(5)] show "map_in_file dm d' bm"
    using assms(4) unfolding map_in_file_def by simp
qed

lemma dir_part_only:
  assumes "only ws d d'" "file_ok f dd [] d" "on_disk d s (hdr f) dd []" "dir_in_file dd d dir"
    "set dd \<inter> set ws = {}" "s \<notin> set ws"
  shows "file_ok f dd [] d'" "on_disk d' s (hdr f) dd []" "dir_in_file dd d' dir"
proof -
  show "file_ok f dd [] d'" by (rule only_file_ok [OF assms(1,2,5)])
  show "on_disk d' s (hdr f) dd []" by (rule only_on_disk [OF assms(1,3)]) (simp add: assms(6))
  have "set dd \<subseteq> {0..<NumSectors}" using assms(2) unfolding file_ok_def data_ok_def by blast
  from only_file_bytes [OF assms(1) this assms(5)] show "dir_in_file dd d' dir"
    using assms(4) unfolding dir_in_file_def by simp
qed

lemma file_ok_whole: "whole d \<Longrightarrow> only ds d d' \<Longrightarrow> file_ok f ds ind d' \<Longrightarrow> whole d'"
  unfolding file_ok_def data_ok_def by (rule whole_only) blast+

lemma fs_ok_map:
  assumes fs: "fs_ok fs d bm dir dm dd" and d': "only dm d d'" "file_ok (freeMapFile fs) dm [] d'" "map_in_file dm d' bm'"
    and bm': "disk_map bm'" "set ([0, 1] @ dm @ dd) \<subseteq> marked bm'"
  shows "fs_ok fs d' bm' dir dm dd"
proof -
  note f = fs_okD [OF fs] and sec = fs_ok_sectors [OF fs]
  have "set dd \<inter> set dm = {}" using sec(1) by blast
  note dirp = dir_part_only [OF d'(1) f(8,9,10) this sec(4)]
  have "on_disk d' FreeMapSector (hdr (freeMapFile fs)) dm []"
    by (rule only_on_disk [OF d'(1) f(6)]) (use sec(2) in simp)
  with f(4,11,12) d' bm' dirp file_ok_whole [OF f(1) d'(1,2)] show ?thesis unfolding fs_ok_def by blast
qed

lemma fs_ok_dir:
  assumes fs: "fs_ok fs d bm dir dm dd" and d': "only dd d d'" "file_ok (directoryFile fs) dd [] d'" "dir_in_file dd d' dir'"
    and dir': "dir_fits dir' dd"
  shows "fs_ok fs d' bm dir' dm dd"
proof -
  note f = fs_okD [OF fs] and sec = fs_ok_sectors [OF fs]
  note mapp = map_part_only [OF d'(1) f(5,6,7) sec(1,3)]
  have "on_disk d' DirectorySector (hdr (directoryFile fs)) dd []"
    by (rule only_on_disk [OF d'(1) f(9)]) (use sec(5) in simp)
  with f(2,3,4,12) d' dir' mapp file_ok_whole [OF f(1) d'(1,2)] show ?thesis unfolding fs_ok_def by blast
qed

lemma fs_ok_other:
  assumes fs: "fs_ok fs d bm dir dm dd" and d': "only ws d d'" "whole d'" "set ws \<inter> set ([0, 1] @ dm @ dd) = {}"
  shows "fs_ok fs d' bm dir dm dd"
proof -
  note f = fs_okD [OF fs]
  have apart: "set dm \<inter> set ws = {}" "set dd \<inter> set ws = {}" "FreeMapSector \<notin> set ws" "DirectorySector \<notin> set ws"
    using d'(3) by auto
  from map_part_only [OF d'(1) f(5,6,7) apart(1,3)] dir_part_only [OF d'(1) f(8,9,10) apart(2,4)] f(2,3,4,11,12) d'(2)
  show ?thesis unfolding fs_ok_def by blast
qed

lemma write_map:
  assumes fs: "fs_ok fs d bm dir dm dd" and bm': "disk_map bm'" "set ([0, 1] @ dm @ dd) \<subseteq> marked bm'"
  shows "\<exists>d'. bm_WriteBack u (freeMapFile fs) bm' d = Some (Inr (freeMapFile fs, d')) \<and> only dm d d' \<and>
    fs_ok fs d' bm' dir dm dd"
proof -
  have f: "file_ok (freeMapFile fs) dm [] d" using fs by (simp add: fs_ok_def)
  then have "set dm \<subseteq> {0..<NumSectors}" by (simp add: file_ok_def data_ok_def)
  with bm_WriteBack_ok [OF f bm'(1), of u] onlyI fs_ok_map [OF fs _ _ _ bm'] show ?thesis by metis
qed

lemma write_dir:
  assumes fs: "fs_ok fs d bm dir dm dd" and dir': "dir_fits dir' dd"
  shows "\<exists>d'. dir_WriteBack u (directoryFile fs) dir' d = Some (Inr (directoryFile fs, d')) \<and> only dd d d' \<and>
    fs_ok fs d' bm dir' dm dd"
proof -
  have f: "file_ok (directoryFile fs) dd [] d" using fs by (simp add: fs_ok_def)
  then have "set dd \<subseteq> {0..<NumSectors}" by (simp add: file_ok_def data_ok_def)
  with dir_WriteBack_ok [OF f dir', of u] onlyI fs_ok_dir [OF fs _ _ _ dir'] show ?thesis by metis
qed

lemma write_header:
  assumes fs: "fs_ok fs d bm dir dm dd" and h: "hdr_layout h ds ind" "\<forall>x\<in>set (hdr_ints h) \<union> set ds. int32 x"
    and ss: "set (s # ind) \<subseteq> {0..<NumSectors}" "distinct (s # ind)" "set (s # ind) \<inter> set ([0, 1] @ dm @ dd) = {}"
  shows "\<exists>d'. WriteBack s h d = Inr d' \<and> on_disk d' s h ds ind \<and> only (s # ind) d d' \<and> fs_ok fs d' bm dir dm dd"
proof -
  have nz: "0 \<notin> set ind" using ss(3) by auto
  obtain d' where d': "WriteBack s h d = Inr d'" "on_disk d' s h ds ind" "\<forall>t. t \<notin> nat ` set (s # ind) \<longrightarrow> d' t = d t"
    using WriteBack_ok [OF h ss(1) nz ss(2), of d] by blast
  have only: "only (s # ind) d d'" by (rule onlyI [OF d'(3) ss(1)])
  have "whole d'" by (rule whole_only [OF fs_okD(1) [OF fs] only]) (blast intro: on_disk_128 [OF d'(2)])
  with fs_ok_other [OF fs only _ ss(3)] d' only show ?thesis by blast
qed

subsection \<open>Creating a file\<close>

lemma dir_fits_Add:
  assumes fits: "dir_fits dir dd" and room: "4 + 20 * grown_size dir \<le> 128 * length dd" and s: "0 \<le> s" "s < 1024"
    and new: "dir_abs dir (dir_key nm) = None"
  shows "\<exists>dir'. Add nm s dir = Inr (True, dir') \<and> dir_fits dir' dd \<and> dir_abs dir' = (dir_abs dir)(dir_key nm \<mapsto> s)"
proof -
  have ok: "dir_ok dir" "\<forall>e\<in>set (table dir). int32 (e_sector e)" "length dd \<le> 34"
    using fits unfolding dir_fits_def by blast+
  obtain dir' where d: "Add nm s dir = Inr (True, dir')" "dir_ok dir'" "dir_abs dir' = (dir_abs dir)(dir_key nm \<mapsto> s)"
    "length (table dir') \<le> grown_size dir" "e_sector ` set (table dir') \<subseteq> {0, s} \<union> e_sector ` set (table dir)"
    using Add_ok [OF ok(1), of nm s] new by auto
  have "int32 (e_sector e)" if "e \<in> set (table dir')" for e
  proof -
    have "e_sector e \<in> {0, s} \<union> e_sector ` set (table dir)" using d(5) that by blast
    then show ?thesis using ok(2) s by (auto simp: int32_def)
  qed
  with d room ok(3) show ?thesis unfolding dir_fits_def by (intro exI [of _ dir']) auto
qed

text \<open>The sectors and the header that \<^verbatim>\<open>Create\<close> allocates before it writes anything.\<close>

lemma create_allocates:
  assumes bm: "disk_map bm" and sz: "0 \<le> sz" "sz \<le> MaxFileSize" and n: "n = nat (divRoundUp sz SectorSize)"
    and room: "int (1 + n + blocks n) \<le> free_sectors bm"
  shows "\<exists>s bm1 h bm2 ds ind. Find bm = Inr (s, bm1) \<and> Allocate bm1 sz zero_FileHeader = Inr (True, h, bm2) \<and>
    disk_map bm2 \<and> took bm (s # ds @ ind) bm2 \<and> hdr_layout h ds ind \<and> numBytes h = sz \<and> length ds = n \<and>
    (\<forall>x\<in>set (hdr_ints h) \<union> set ds. int32 x)"
proof -
  have wf: "bm_wf bm" "numBits bm = 1024" using bm by (simp_all add: disk_map_def)
  obtain s bm1 where s: "Find bm = Inr (s, bm1)" "took bm [s] bm1" using Find_took [OF wf(1)] room by auto
  have "hdr_shape zero_FileHeader" by (simp add: hdr_shape_def zero_FileHeader_def)
  moreover have "int (n + blocks n) \<le> free_sectors bm1" using room took_free [OF s(2)] by simp
  ultimately obtain h bm2 ds ind where a: "Allocate bm1 sz zero_FileHeader = Inr (True, h, bm2)" "hdr_layout h ds ind"
    "numBytes h = sz" "length ds = n" "took bm1 (ds @ ind) bm2"
    "set (dataSectors h) \<subseteq> set (dataSectors zero_FileHeader) \<union> set ds"
    "set (indirectSector h) \<subseteq> set (indirectSector zero_FileHeader) \<union> set ind"
    using Allocate_ok [OF _ took_wf [OF s(2)] sz n, of zero_FileHeader] by blast
  have t: "took bm (s # ds @ ind) bm2" using took_append [OF s(2) a(5)] by simp
  then have r: "set (ds @ ind) \<subseteq> {0..<1024}" using wf(2) by (auto simp: took_def)
  have "int32 x" if "x \<in> set (dataSectors h) \<union> set (indirectSector h) \<union> set ds" for x
  proof -
    have "x \<in> {0} \<union> set (ds @ ind)" using that a(6,7) by (auto simp: zero_FileHeader_def)
    then show ?thesis using r by (auto simp: int32_def)
  qed
  moreover have "int32 sz" "int32 (numSectors h)"
    using sz file_sectors_bound [of sz] a(2,4) n by (auto simp: int32_def hdr_layout_def)
  ultimately have "\<forall>x\<in>set (hdr_ints h) \<union> set ds. int32 x" using a(3) by (auto simp: hdr_ints_def)
  moreover have "disk_map bm2" using t bm by (simp add: took_def disk_map_def)
  ultimately show ?thesis using s(1) a(1-4) t by blast
qed

text \<open>Uninitialised objects have arrays of the declared sizes and 32-bit integers.\<close>

definition fresh_ok :: "fresh \<Rightarrow> (nat \<Rightarrow> DirectoryEntry) \<Rightarrow> bool" where
  "fresh_ok u es \<longleftrightarrow> hdr_shape (fresh_hdr u) \<and> (\<forall>x\<in>set (hdr_ints (fresh_hdr u)). int32 x) \<and>
     (\<forall>i. entry_ok (es i) \<and> int32 (e_sector (es i)))"

lemma fs_Create_ok:
  assumes fs: "fs_ok fs d bm dir dm dd" and u: "fresh_ok u es" and new: "dir_abs dir (dir_key nm) = None"
    and sz: "0 \<le> sz" "sz \<le> MaxFileSize" and n: "n = nat (divRoundUp sz SectorSize)"
    and room: "int (1 + n + blocks n) \<le> free_sectors bm" "4 + 20 * grown_size dir \<le> 128 * length dd"
  shows "\<exists>d' bm' dir' s h ds ind. fs_Create u es nm sz fs d = Some (Inr (True, fs, d')) \<and>
    fs_ok fs d' bm' dir' dm dd \<and> dir_abs dir' = (dir_abs dir)(dir_key nm \<mapsto> s) \<and> took bm (s # ds @ ind) bm' \<and>
    on_disk d' s h ds ind \<and> numBytes h = sz \<and> length ds = n \<and> only (s # ind @ dm @ dd) d d'"
proof -
  note f = fs_okD [OF fs]
  obtain s bm1 h bm2 ds ind where a: "Find bm = Inr (s, bm1)" "Allocate bm1 sz zero_FileHeader = Inr (True, h, bm2)"
    "disk_map bm2" "took bm (s # ds @ ind) bm2" "hdr_layout h ds ind" "numBytes h = sz" "length ds = n"
    "\<forall>x\<in>set (hdr_ints h) \<union> set ds. int32 x"
    using create_allocates [OF f(2) sz n room(1)] by blast
  have t: "distinct (s # ds @ ind)" "set (s # ds @ ind) \<subseteq> {0..<NumSectors} - marked bm" "marked bm2 = marked bm \<union> set (s # ds @ ind)"
    using a(4) f(2) by (simp_all add: took_def disk_map_def)
  have s: "0 \<le> s" "s < 1024" "s \<noteq> -1" using t(2) by auto
  have si: "set (s # ind) \<subseteq> {0..<NumSectors}" "distinct (s # ind)" "set (s # ind) \<inter> set ([0, 1] @ dm @ dd) = {}"
    using t(1,2) f(3) by auto
  obtain dir' where dir': "Add nm s dir = Inr (True, dir')" "dir_fits dir' dd" "dir_abs dir' = (dir_abs dir)(dir_key nm \<mapsto> s)"
    using dir_fits_Add [OF f(11) room(2) s(1,2) new] by blast
  have "set ([0, 1] @ dm @ dd) \<subseteq> marked bm2" using f(3) unfolding t(3) by blast
  then obtain d1 where d1: "bm_WriteBack u (freeMapFile fs) bm2 d = Some (Inr (freeMapFile fs, d1))" "only dm d d1"
    "fs_ok fs d1 bm2 dir dm dd"
    using write_map [OF fs a(3), of u] by blast
  obtain d2 where d2: "WriteBack s h d1 = Inr d2" "on_disk d2 s h ds ind" "only (s # ind) d1 d2" "fs_ok fs d2 bm2 dir dm dd"
    using write_header [OF d1(3) a(5,8) si] by blast
  obtain d3 where d3: "dir_WriteBack u (directoryFile fs) dir' d2 = Some (Inr (directoryFile fs, d3))" "only dd d2 d3"
    "fs_ok fs d3 bm2 dir' dm dd"
    using write_dir [OF d2(4) dir'(2), of u] by blast
  have p: "length (indirectPointers (fresh_hdr u)) = 26" using u by (simp add: fresh_ok_def hdr_shape_def)
  obtain h1 where h1: "FetchFrom DirectorySector (fresh_hdr u) d = Inr h1" "hdr_layout h1 dd []"
    using fs_header_fetch [OF fs p] by blast
  then have "length (indirectPointers h1) = 26" by (simp add: hdr_layout_def hdr_part_def)
  then obtain h2 where h2: "FetchFrom DirectorySector h1 d3 = Inr h2" using fs_header_fetch [OF d3(3)] by blast
  have "dir_Find nm dir = Inr (-1)" using f(11) new by (simp add: dir_Find_ok dir_fits_def)
  moreover have "fetch_directory es fs d = Inr dir" using u by (intro fetch_directory_ok [OF fs]) (simp add: fresh_ok_def)
  ultimately have run: "fs_Create u es nm sz fs d = Some (Inr (True, fs, d3))"
    using fetch_map_ok [OF fs, of u] a(1,2) s(3) dir'(1) d1(1) d2(1) d3(1) h1(1) h2
    by (simp add: fs_Create_def)
  have "set (s # ind) \<inter> set dd = {}" using si(3) by auto
  from only_on_disk [OF d3(2) d2(2) this] have "on_disk d3 s h ds ind" .
  moreover have "only (s # ind @ dm @ dd) d d3"
    using only_trans [OF only_trans [OF d1(2) d2(3)] d3(2)] by (auto simp: only_def)
  ultimately show ?thesis using run d3(3) dir'(3) a(4,6,7) by blast
qed

lemma fs_Open_ok:
  assumes fs: "fs_ok fs d bm dir dm dd" and u: "fresh_ok u es" and dir: "dir_abs dir (dir_key nm) = Some s"
    and h: "on_disk d s h ds ind"
  shows "\<exists>f. fs_Open u es nm fs d = Inr (Some f) \<and> hdr_layout (hdr f) ds ind \<and> numBytes (hdr f) = numBytes h \<and>
    hdrSector f = s \<and> seekPosition f = 0"
proof -
  have p: "length (indirectPointers (fresh_hdr u)) = 26" using u by (simp add: fresh_ok_def hdr_shape_def)
  obtain h' where h': "FetchFrom s (fresh_hdr u) d = Inr h'" "hdr_layout h' ds ind" "hdr_ints h' = hdr_ints h"
    using FetchFrom_ok [OF h p] by blast
  have "dir_ok dir" using fs_okD(11) [OF fs] by (simp add: dir_fits_def)
  moreover have "0 \<le> s" using h by (simp add: on_disk_def)
  moreover have "fetch_directory es fs d = Inr dir" using u by (intro fetch_directory_ok [OF fs]) (simp add: fresh_ok_def)
  ultimately show ?thesis
    using h' dir by (auto simp: fs_Open_def dir_Find_ok new_OpenFile_def hdr_ints_def)
qed

lemma fs_Open_absent:
  assumes fs: "fs_ok fs d bm dir dm dd" and u: "fresh_ok u es" and dir: "dir_abs dir (dir_key nm) = None"
  shows "fs_Open u es nm fs d = Inr None"
proof -
  have "dir_ok dir" using fs_okD(11) [OF fs] by (simp add: dir_fits_def)
  moreover have "fetch_directory es fs d = Inr dir" using u by (intro fetch_directory_ok [OF fs]) (simp add: fresh_ok_def)
  ultimately show ?thesis using dir by (simp add: fs_Open_def dir_Find_ok)
qed

subsection \<open>Formatting\<close>

lemma on_disk_same:
  "on_disk d s h ds ind \<Longrightarrow> hdr_layout h' ds ind \<Longrightarrow> hdr_ints h' = hdr_ints h \<Longrightarrow> on_disk d s h' ds ind"
  by (simp add: on_disk_def)

lemma open_header:
  assumes "on_disk d s h ds ind" and "fresh_ok u es"
  shows "\<exists>f. new_OpenFile u s d = Inr f \<and> on_disk d s (hdr f) ds ind \<and> numBytes (hdr f) = numBytes h"
proof -
  have "length (indirectPointers (fresh_hdr u)) = 26" using assms(2) by (simp add: fresh_ok_def hdr_shape_def)
  then obtain h' where "FetchFrom s (fresh_hdr u) d = Inr h'" "hdr_layout h' ds ind" "hdr_ints h' = hdr_ints h"
    using FetchFrom_ok [OF assms(1)] by blast
  with on_disk_same [OF assms(1)] show ?thesis by (auto simp: new_OpenFile_def hdr_ints_def)
qed

text \<open>One header of a file of one sector.\<close>

lemma allocate_one:
  assumes bm: "disk_map bm" "1 \<le> free_sectors bm" and u: "fresh_ok u es" and sz: "0 < sz" "sz \<le> 128"
  shows "\<exists>h bm' x. Allocate bm sz (fresh_hdr u) = Inr (True, h, bm') \<and> hdr_layout h [x] [] \<and> numBytes h = sz \<and>
    disk_map bm' \<and> took bm [x] bm' \<and> (\<forall>y\<in>set (hdr_ints h) \<union> set [x]. int32 y)"
proof -
  have wf: "bm_wf bm" "numBits bm = 1024" using bm(1) by (simp_all add: disk_map_def)
  have "divRoundUp sz 128 = 1"
  proof -
    have "0 < divRoundUp sz 128 * 128" "divRoundUp sz 128 * 128 < 256"
      using divRoundUp_covers [of sz 128] divRoundUp_tight [of sz 128] sz by simp_all
    then show ?thesis by auto
  qed
  then have n: "1 = nat (divRoundUp sz SectorSize)" by simp
  have b: "blocks 1 = 0" by (simp add: blocks_def)
  have sh: "hdr_shape (fresh_hdr u)" using u by (simp add: fresh_ok_def)
  have m: "0 \<le> sz" "sz \<le> MaxFileSize" using sz by simp_all
  have r: "int (1 + blocks 1) \<le> free_sectors bm" using b bm(2) by simp
  obtain h bm' ds ind where a: "Allocate bm sz (fresh_hdr u) = Inr (True, h, bm')" "hdr_layout h ds ind" "numBytes h = sz"
    "length ds = 1" "length ind = blocks 1" "took bm (ds @ ind) bm'"
    "set (dataSectors h) \<subseteq> set (dataSectors (fresh_hdr u)) \<union> set ds"
    "set (indirectSector h) \<subseteq> set (indirectSector (fresh_hdr u)) \<union> set ind"
    using Allocate_ok [OF sh wf(1) m n r] by blast
  obtain x where x: "ds = [x]" "ind = []" using a(4,5) b by (auto simp: length_Suc_conv)
  have "int32 x" using a(6) x wf(2) by (auto simp: took_def int32_def)
  moreover have "\<forall>y\<in>set (dataSectors h) \<union> set (indirectSector h). int32 y"
    using a(7,8) x u \<open>int32 x\<close> by (auto simp: fresh_ok_def hdr_ints_def)
  moreover have "int32 sz" "int32 (numSectors h)" using sz a(2,4) by (simp_all add: int32_def hdr_layout_def)
  moreover have "disk_map bm'" using a(6) bm(1) by (simp add: took_def disk_map_def)
  ultimately show ?thesis using a x by (auto simp: hdr_ints_def)
qed

text \<open>The headers and the maps that the format makes before it opens the two files.\<close>

lemma format_allocates:
  assumes u: "fresh_ok u es"
  obtains bm0 bm1 bm2 bm3 bm4 mh dh x y where
    "BitMap (fresh_words u) NumSectors = Inr bm0" "Mark bm0 FreeMapSector = Inr bm1" "Mark bm1 DirectorySector = Inr bm2"
    "Allocate bm2 FreeMapFileSize (fresh_hdr u) = Inr (True, mh, bm3)"
    "Allocate bm3 DirectoryFileSize (fresh_hdr u) = Inr (True, dh, bm4)" "hdr_layout mh [x] []" "hdr_layout dh [y] []"
    "numBytes mh = 128" "numBytes dh = 80" "\<forall>z\<in>set (hdr_ints mh) \<union> set [x]. int32 z"
    "\<forall>z\<in>set (hdr_ints dh) \<union> set [y]. int32 z" "disk_map bm4" "marked bm4 = {0, 1, x, y}" "distinct [0, 1, x, y]"
    "{x, y} \<subseteq> {0..<NumSectors}"
proof -
  obtain bm0 where b0: "BitMap (fresh_words u) NumSectors = Inr bm0" "disk_map bm0" "marked bm0 = {}"
    using fresh_map [of "fresh_words u"] by blast
  have wf0: "bm_wf bm0" "numBits bm0 = 1024" using b0(2) by (simp_all add: disk_map_def)
  obtain bm1 where b1: "Mark bm0 FreeMapSector = Inr bm1" "bm_wf bm1" "numBits bm1 = 1024" "marked bm1 = {0}"
    using Mark_ok [OF wf0(1), of FreeMapSector] wf0(2) b0(3) by (metis fs_consts(6) in_rangeI order_refl zero_less_numeral)
  have "in_range bm1 DirectorySector" using b1(3) by (simp add: in_range_def)
  then obtain bm2 where b2: "Mark bm1 DirectorySector = Inr bm2" "bm_wf bm2" "numBits bm2 = 1024" "marked bm2 = {0, 1}"
    using Mark_ok [OF b1(2)] b1(3,4) by (metis fs_consts(7) insert_commute)
  have m2: "disk_map bm2" "free_sectors bm2 = 1022" using b2 by (simp_all add: disk_map_def free_sectors_def)
  have sizes: "FreeMapFileSize = 128" "DirectoryFileSize = 80"
    by (simp_all add: FreeMapFileSize_def DirectoryFileSize_def NumDirEntries_def)
  obtain mh bm3 x where a: "Allocate bm2 128 (fresh_hdr u) = Inr (True, mh, bm3)" "hdr_layout mh [x] []" "numBytes mh = 128"
    "disk_map bm3" "took bm2 [x] bm3" "\<forall>z\<in>set (hdr_ints mh) \<union> set [x]. int32 z"
    using allocate_one [OF m2(1) _ u, of 128] m2(2) by auto
  have "1 \<le> free_sectors bm3" using took_free [OF a(5)] m2(2) by simp
  then obtain dh bm4 y where b: "Allocate bm3 80 (fresh_hdr u) = Inr (True, dh, bm4)" "hdr_layout dh [y] []" "numBytes dh = 80"
    "disk_map bm4" "took bm3 [y] bm4" "\<forall>z\<in>set (hdr_ints dh) \<union> set [y]. int32 z"
    using allocate_one [OF a(4) _ u, of 80] by auto
  have "took bm2 [x, y] bm4" using took_append [OF a(5) b(5)] by simp
  then have m4: "marked bm4 = {0, 1, x, y}" "distinct [0, 1, x, y]" "{x, y} \<subseteq> {0..<NumSectors}"
    using b2(3,4) by (auto simp: took_def)
  show ?thesis
    by (rule that [OF b0(1) b1(1) b2(1) _ _ a(2) b(2) a(3) b(3) a(6) b(6) b(4) m4]) (use a(1) b(1) sizes in auto)
qed

lemma file_of_one_sector:
  "on_disk d s (hdr f) [x] [] \<Longrightarrow> whole d \<Longrightarrow> x \<in> {0..<NumSectors} \<Longrightarrow> 0 < numBytes (hdr f) \<Longrightarrow> numBytes (hdr f) \<le> 128 \<Longrightarrow>
     file_ok f [x] [] d"
  by (simp add: file_ok_def data_ok_def on_disk_def whole_def)

lemma write_one_header:
  assumes "whole d" "hdr_layout h [x] []" "\<forall>z\<in>set (hdr_ints h) \<union> set [x]. int32 z" "s \<in> {0..<NumSectors}"
  shows "\<exists>d'. WriteBack s h d = Inr d' \<and> on_disk d' s h [x] [] \<and> only [s] d d' \<and> whole d'"
proof -
  have s: "set (s # []) \<subseteq> {0..<NumSectors}" "(0 :: int) \<notin> set []" "distinct (s # [])" using assms(4) by simp_all
  obtain d' where d': "WriteBack s h d = Inr d'" "on_disk d' s h [x] []" "\<forall>t. t \<notin> nat ` set (s # []) \<longrightarrow> d' t = d t"
    using WriteBack_ok [OF assms(2,3) s, of d] by blast
  have only: "only [s] d d'" by (rule onlyI [OF d'(3) s(1)])
  have "whole d'" by (rule whole_only [OF assms(1) only]) (blast intro: on_disk_128 [OF d'(2)])
  with d' only show ?thesis by blast
qed

lemma format_opens:
  assumes u: "fresh_ok u es" and d: "whole d" and mh: "hdr_layout mh [x] []" "\<forall>z\<in>set (hdr_ints mh) \<union> set [x]. int32 z"
    and dh: "hdr_layout dh [y] []" "\<forall>z\<in>set (hdr_ints dh) \<union> set [y]. int32 z"
  shows "\<exists>d1 d2 m f. WriteBack FreeMapSector mh d = Inr d1 \<and> WriteBack DirectorySector dh d1 = Inr d2 \<and> whole d2 \<and>
    open_files u d2 = Inr \<lparr>freeMapFile = m, directoryFile = f\<rparr> \<and> on_disk d2 FreeMapSector (hdr m) [x] [] \<and>
    on_disk d2 DirectorySector (hdr f) [y] [] \<and> numBytes (hdr m) = numBytes mh \<and> numBytes (hdr f) = numBytes dh"
proof -
  have s: "FreeMapSector \<in> {0..<NumSectors}" "DirectorySector \<in> {0..<NumSectors}" by simp_all
  obtain d1 where d1: "WriteBack FreeMapSector mh d = Inr d1" "on_disk d1 FreeMapSector mh [x] []" "whole d1"
    using write_one_header [OF d mh s(1)] by blast
  obtain d2 where d2: "WriteBack DirectorySector dh d1 = Inr d2" "on_disk d2 DirectorySector dh [y] []"
    "only [DirectorySector] d1 d2" "whole d2"
    using write_one_header [OF d1(3) dh s(2)] by blast
  have "on_disk d2 FreeMapSector mh [x] []" by (rule only_on_disk [OF d2(3) d1(2)]) simp
  then obtain m where "new_OpenFile u FreeMapSector d2 = Inr m" "on_disk d2 FreeMapSector (hdr m) [x] []"
    "numBytes (hdr m) = numBytes mh"
    using open_header [OF _ u] by blast
  moreover obtain f where "new_OpenFile u DirectorySector d2 = Inr f" "on_disk d2 DirectorySector (hdr f) [y] []"
    "numBytes (hdr f) = numBytes dh"
    using open_header [OF d2(2) u] by blast
  ultimately show ?thesis using d1(1) d2(1,4) unfolding open_files_def by auto
qed

lemma format_writes:
  assumes d: "whole d" and m: "on_disk d FreeMapSector (hdr m) [x] []" "file_ok m [x] [] d"
    and f: "on_disk d DirectorySector (hdr f) [y] []" "file_ok f [y] [] d" "4 < numBytes (hdr f)"
    and xy: "distinct [0, 1, x, y]" and bm: "disk_map bm" "marked bm = {0, 1, x, y}" and dir: "dir_fits dir [y]"
  shows "\<exists>d1 d2. bm_WriteBack u m bm d = Some (Inr (m, d1)) \<and> dir_WriteBack u f dir d1 = Some (Inr (f, d2)) \<and>
    fs_ok \<lparr>freeMapFile = m, directoryFile = f\<rparr> d2 bm dir [x] [y]"
proof -
  have s: "set [x] \<subseteq> {0..<NumSectors}" "set [y] \<subseteq> {0..<NumSectors}"
    using m(2) f(2) unfolding file_ok_def data_ok_def by blast+
  have ne: "x \<noteq> y" "FreeMapSector \<notin> set [x]" "DirectorySector \<notin> set [x]" "FreeMapSector \<notin> set [y]" "DirectorySector \<notin> set [y]"
    using xy by auto
  have disj: "set [y] \<inter> set [x] = {}" "set [x] \<inter> set [y] = {}" using ne(1) by auto
  obtain d1 where d1: "bm_WriteBack u m bm d = Some (Inr (m, d1))" "file_ok m [x] [] d1" "map_in_file [x] d1 bm"
    "\<forall>t. t \<notin> nat ` set [x] \<longrightarrow> d1 t = d t"
    using bm_WriteBack_ok [OF m(2) bm(1), of u] by blast
  have o1: "only [x] d d1" by (rule onlyI [OF d1(4) s(1)])
  have f1: "file_ok f [y] [] d1" by (rule only_file_ok [OF o1 f(2) disj(1)])
  obtain d2 where d2: "dir_WriteBack u f dir d1 = Some (Inr (f, d2))" "file_ok f [y] [] d2" "dir_in_file [y] d2 dir"
    "\<forall>t. t \<notin> nat ` set [y] \<longrightarrow> d2 t = d1 t"
    using dir_WriteBack_ok [OF f1 dir, of u] by blast
  have o2: "only [y] d1 d2" by (rule onlyI [OF d2(4) s(2)])
  have h1: "on_disk d1 FreeMapSector (hdr m) [x] []" by (rule only_on_disk [OF o1 m(1)]) (use ne(2) in simp)
  have g1: "on_disk d1 DirectorySector (hdr f) [y] []" by (rule only_on_disk [OF o1 f(1)]) (use ne(3) in simp)
  have g2: "on_disk d2 DirectorySector (hdr f) [y] []" by (rule only_on_disk [OF o2 g1]) (use ne(5) in simp)
  note mapp = map_part_only [OF o2 d1(2) h1 d1(3) disj(2) ne(4)]
  have w: "whole d2" by (rule file_ok_whole [OF file_ok_whole [OF d o1 d1(2)] o2 d2(2)])
  have k: "set ([0, 1] @ [x] @ [y]) \<subseteq> marked bm" "distinct ([0, 1] @ [x] @ [y])" using bm(2) xy by simp_all
  have "fs_ok \<lparr>freeMapFile = m, directoryFile = f\<rparr> d2 bm dir [x] [y]"
    unfolding fs_ok_def FileSystem.select_convs using w bm(1) k mapp d2(2,3) g2 dir f(3) by blast
  with d1(1) d2(1) show ?thesis by blast
qed

lemma empty_directory:
  assumes u: "fresh_ok u es"
  shows "\<exists>dir. new_Directory es NumDirEntries = Inr dir \<and> dir_fits dir [y] \<and> dir_abs dir = Map.empty \<and> grown_size dir = 4"
proof -
  have es: "\<forall>i. entry_ok (es i)" "\<forall>i. int32 (e_sector (es i))" using u by (simp_all add: fresh_ok_def)
  have "2 \<le> NumDirEntries" by (simp add: NumDirEntries_def)
  then obtain dir where dir: "new_Directory es NumDirEntries = Inr dir" "dir_rep dir Map.empty" "tableSize dir = NumDirEntries"
    "\<forall>e\<in>set (table dir). \<not> inUse e \<and> (\<exists>i. e_sector e = e_sector (es i))"
    using new_Directory_ok [OF es(1)] by blast
  have ok: "dir_ok dir" "dir_abs dir = Map.empty" using dir(2) unfolding dir_rep_def by blast+
  then have "tableSize dir = int (length (table dir))" unfolding dir_ok_def by blast
  then have len: "length (table dir) = 4" using dir(3) by (simp add: NumDirEntries_def)
  have "int32 (e_sector e)" if e: "e \<in> set (table dir)" for e
  proof -
    obtain i where "e_sector e = e_sector (es i)" using dir(4) e by blast
    with es(2) show ?thesis by simp
  qed
  moreover have "4 + 20 * length (table dir) \<le> 128 * length [y]" "length [y] \<le> 34" using len by simp_all
  ultimately have fits: "dir_fits dir [y]" using ok(1) unfolding dir_fits_def by blast
  have "\<exists>e. e \<in> set (table dir)" using len by (cases "table dir") auto
  then have "\<exists>e\<in>set (table dir). \<not> inUse e" using dir(4) by blast
  then have "grown_size dir = 4" using len by (simp add: grown_size_def)
  with fits show ?thesis using dir(1) ok(2) by blast
qed

lemma format_ok:
  assumes u: "fresh_ok u es" and d: "whole d"
  shows "\<exists>fs d' bm dir x y. new_FileSystem u es True d = Some (Inr (fs, d')) \<and> fs_ok fs d' bm dir [x] [y] \<and>
    dir_abs dir = Map.empty \<and> marked bm = {0, 1, x, y} \<and> grown_size dir = 4"
proof -
  obtain bm0 bm1 bm2 bm3 bm mh dh x y where a: "BitMap (fresh_words u) NumSectors = Inr bm0" "Mark bm0 FreeMapSector = Inr bm1"
    "Mark bm1 DirectorySector = Inr bm2" "Allocate bm2 FreeMapFileSize (fresh_hdr u) = Inr (True, mh, bm3)"
    "Allocate bm3 DirectoryFileSize (fresh_hdr u) = Inr (True, dh, bm)" "hdr_layout mh [x] []" "hdr_layout dh [y] []"
    "numBytes mh = 128" "numBytes dh = 80" "\<forall>z\<in>set (hdr_ints mh) \<union> set [x]. int32 z"
    "\<forall>z\<in>set (hdr_ints dh) \<union> set [y]. int32 z" "disk_map bm" "marked bm = {0, 1, x, y}" "distinct [0, 1, x, y]"
    "{x, y} \<subseteq> {0..<NumSectors}"
    by (rule format_allocates [OF u])
  obtain dir where dir: "new_Directory es NumDirEntries = Inr dir" "dir_fits dir [y]" "dir_abs dir = Map.empty" "grown_size dir = 4"
    using empty_directory [OF u] by blast
  obtain d1 d2 m f where o: "WriteBack FreeMapSector mh d = Inr d1" "WriteBack DirectorySector dh d1 = Inr d2" "whole d2"
    "open_files u d2 = Inr \<lparr>freeMapFile = m, directoryFile = f\<rparr>" "on_disk d2 FreeMapSector (hdr m) [x] []"
    "on_disk d2 DirectorySector (hdr f) [y] []" "numBytes (hdr m) = 128" "numBytes (hdr f) = 80"
    using format_opens [OF u d a(6,10,7,11)] unfolding a(8,9) by blast
  have s: "x \<in> {0..<NumSectors}" "y \<in> {0..<NumSectors}" using a(15) by blast+
  have fm: "file_ok m [x] [] d2" "file_ok f [y] [] d2" "4 < numBytes (hdr f)"
    using file_of_one_sector [OF o(5,3) s(1)] file_of_one_sector [OF o(6,3) s(2)] o(7,8) by simp_all
  obtain d3 d4 where w: "bm_WriteBack u m bm d2 = Some (Inr (m, d3))" "dir_WriteBack u f dir d3 = Some (Inr (f, d4))"
    "fs_ok \<lparr>freeMapFile = m, directoryFile = f\<rparr> d4 bm dir [x] [y]"
    using format_writes [OF o(3,5) fm(1) o(6) fm(2,3) a(14,12,13) dir(2), of u] by blast
  have "new_FileSystem u es True d = Some (Inr (\<lparr>freeMapFile = m, directoryFile = f\<rparr>, d4))"
    unfolding new_FileSystem_def by (simp only: if_True a(1-5) dir(1) o(1,2,4) w(1,2) obind_simps prod.case
        FileSystem.select_convs ASSERT_True)
  with w(3) dir(3,4) a(13) show ?thesis by blast
qed

subsection \<open>Removing a file\<close>

lemma dir_fits_Remove:
  assumes fits: "dir_fits dir dd" and old: "dir_abs dir (dir_key nm) \<noteq> None"
  shows "\<exists>dir'. Remove nm dir = Inr (True, dir') \<and> dir_fits dir' dd \<and> dir_abs dir' = (dir_abs dir)(dir_key nm := None)"
proof -
  have ok: "dir_ok dir" "\<forall>e\<in>set (table dir). int32 (e_sector e)" "4 + 20 * length (table dir) \<le> 128 * length dd"
    "length dd \<le> 34"
    using fits unfolding dir_fits_def by blast+
  obtain dir' where d: "Remove nm dir = Inr (True, dir')" "dir_ok dir'" "dir_abs dir' = (dir_abs dir)(dir_key nm := None)"
    "length (table dir') = length (table dir)" "e_sector ` set (table dir') \<subseteq> e_sector ` set (table dir)"
    using Remove_ok [OF ok(1), of nm] old by auto
  have "int32 (e_sector e)" if e: "e \<in> set (table dir')" for e
    using d(5) e ok(2) by force
  with d ok(3,4) show ?thesis unfolding dir_fits_def by (intro exI [of _ dir']) auto
qed

lemma fs_Remove_small:
  assumes fs: "fs_ok fs d bm dir dm dd" and u: "fresh_ok u es" and name: "dir_abs dir (dir_key nm) = Some s"
    and h: "on_disk d s h ds []" and len: "length ds < 4"
    and own: "distinct (s # ds)" "set (s # ds) \<subseteq> marked bm" "set (s # ds) \<inter> set ([0, 1] @ dm @ dd) = {}"
  shows "\<exists>d' bm' dir'. fs_Remove u es nm fs d = Some (Inr (True, fs, d')) \<and> fs_ok fs d' bm' dir' dm dd \<and>
    dir_abs dir' = (dir_abs dir)(dir_key nm := None) \<and> marked bm' = marked bm - set (s # ds) \<and> only (dm @ dd) d d'"
proof -
  note f = fs_okD [OF fs]
  have bm: "bm_wf bm" "numBits bm = NumSectors" using f(2) unfolding disk_map_def by blast+
  have p: "length (indirectPointers (fresh_hdr u)) = 26" using u by (simp add: fresh_ok_def hdr_shape_def)
  obtain h' where h': "FetchFrom s (fresh_hdr u) d = Inr h'" "hdr_layout h' ds []"
    using FetchFrom_ok [OF h p] by blast
  have "set ds \<subseteq> marked bm" "distinct ds" using own(1,2) by simp_all
  then obtain bm1 where b1: "Deallocate h' bm = Inr (h', bm1)" "bm_wf bm1" "numBits bm1 = numBits bm" "marked bm1 = marked bm - set ds"
    using Deallocate_small [OF h'(2) len bm(1)] by blast
  have "s \<in> {0..<NumSectors}" using h by (simp add: on_disk_def)
  then have "in_range bm1 s" using b1(3) bm(2) by (simp add: in_range_def)
  then obtain bm2 where b2: "Clear bm1 s = Inr bm2" "bm_wf bm2" "numBits bm2 = numBits bm1" "marked bm2 = marked bm1 - {s}"
    using Clear_ok [OF b1(2)] by blast
  have m2: "disk_map bm2" "marked bm2 = marked bm - set (s # ds)" using b1 b2 bm by (auto simp: disk_map_def)
  have "set ([0, 1] @ dm @ dd) \<subseteq> marked bm2" using f(3) own(3) unfolding m2(2) by blast
  then obtain d1 where d1: "bm_WriteBack u (freeMapFile fs) bm2 d = Some (Inr (freeMapFile fs, d1))" "only dm d d1"
    "fs_ok fs d1 bm2 dir dm dd"
    using write_map [OF fs m2(1), of u] by blast
  have "dir_abs dir (dir_key nm) \<noteq> None" using name by simp
  then obtain dir' where dir': "Remove nm dir = Inr (True, dir')" "dir_fits dir' dd" "dir_abs dir' = (dir_abs dir)(dir_key nm := None)"
    using dir_fits_Remove [OF f(11)] by blast
  obtain d2 where d2: "dir_WriteBack u (directoryFile fs) dir' d1 = Some (Inr (directoryFile fs, d2))" "only dd d1 d2"
    "fs_ok fs d2 bm2 dir' dm dd"
    using write_dir [OF d1(3) dir'(2), of u] by blast
  have "s \<noteq> -1" using \<open>s \<in> {0..<NumSectors}\<close> by auto
  moreover have "dir_Find nm dir = Inr s" using f(11) name by (simp add: dir_Find_ok dir_fits_def)
  moreover have "fetch_directory es fs d = Inr dir" using u by (intro fetch_directory_ok [OF fs]) (simp add: fresh_ok_def)
  ultimately have "fs_Remove u es nm fs d = Some (Inr (True, fs, d2))"
    using fetch_map_ok [OF fs, of u] h'(1) b1(1) b2(1) dir'(1) d1(1) d2(1) by (simp add: fs_Remove_def)
  then show ?thesis using d2(3) dir'(3) m2(2) only_trans [OF d1(2) d2(2)] by blast
qed

subsection \<open>Properties\<close>

text \<open>The sample of uninitialised memory is well formed.\<close>

lemma sample_fresh_ok: "fresh_ok sample_fresh (\<lambda>_. zero_entry)"
  by (simp add: fresh_ok_def sample_fresh_def hdr_shape_def zero_FileHeader_def hdr_ints_def int32_def entry_ok_def
      zero_entry_def)

lemma sample_whole: "whole (\<lambda>_. replicate 128 0)"
  by (simp add: whole_def)

lemma fresh_room:
  assumes "0 \<le> sz" "sz \<le> MaxFileSize" "marked bm = {0, 1, x, y}" "disk_map bm" "n = nat (divRoundUp sz SectorSize)"
  shows "int (1 + n + blocks n) \<le> free_sectors bm"
proof -
  have "n \<le> 810" using file_sectors_bound [of sz] assms(1,2,5) by simp
  moreover have "card {0, 1, x, y} \<le> 4" using card_length [of "[0, 1, x, y]"] by simp
  ultimately show ?thesis
    using blocks_max [of n] assms(3,4) unfolding free_sectors_def disk_map_def by simp
qed



text \<open>
  C27: formatting a disk, whatever it held and whatever the uninitialised memory contains, gives a file system with an
  empty directory and four sectors in use: no name can be opened, and a first file of any size up to \<^verbatim>\<open>MaxFileSize\<close> can be
  created under any name and opened again.
\<close>

theorem format_gives_empty_file_system:
  assumes "fresh_ok u es" and "whole d"
  shows "\<exists>fs d' bm dir x y. new_FileSystem u es True d = Some (Inr (fs, d')) \<and> fs_ok fs d' bm dir [x] [y] \<and>
    marked bm = {0, 1, x, y} \<and> (\<forall>nm. fs_Open u es nm fs d' = Inr None) \<and>
    (\<forall>nm sz. 0 \<le> sz \<and> sz \<le> MaxFileSize \<longrightarrow>
       (\<exists>d'' f. fs_Create u es nm sz fs d' = Some (Inr (True, fs, d'')) \<and>
          fs_Open u es nm fs d'' = Inr (Some f) \<and> Length f = sz))"
proof -
  obtain fs d' bm dir x y where f: "new_FileSystem u es True d = Some (Inr (fs, d'))" "fs_ok fs d' bm dir [x] [y]"
    "dir_abs dir = Map.empty" "marked bm = {0, 1, x, y}" "grown_size dir = 4"
    using format_ok [OF assms] by blast
  have none: "dir_abs dir (dir_key nm) = None" for nm using f(3) by simp
  have room: "4 + 20 * grown_size dir \<le> 128 * length [y]" using f(5) by simp
  have "\<exists>d'' f. fs_Create u es nm sz fs d' = Some (Inr (True, fs, d'')) \<and> fs_Open u es nm fs d'' = Inr (Some f) \<and> Length f = sz"
    if sz: "0 \<le> sz" "sz \<le> MaxFileSize" for nm sz
  proof -
    obtain d'' bm' dir' s h ds ind where c: "fs_Create u es nm sz fs d' = Some (Inr (True, fs, d''))"
      "fs_ok fs d'' bm' dir' [x] [y]" "dir_abs dir' = (dir_abs dir)(dir_key nm \<mapsto> s)" "on_disk d'' s h ds ind" "numBytes h = sz"
      using fs_Create_ok [OF f(2) assms(1) none sz refl fresh_room [OF sz f(4) fs_okD(2) [OF f(2)] refl] room] by blast
    have "dir_abs dir' (dir_key nm) = Some s" using c(3) by simp
    from fs_Open_ok [OF c(2) assms(1) this c(4)] c(1,5) show ?thesis unfolding Length_def FileLength_def by blast
  qed
  with f(1,2,4) fs_Open_absent [OF f(2) assms(1) none] show ?thesis by blast
qed

theorem format_gives_empty_file_system_witness:
  "\<exists>fs d' d'' f. new_FileSystem sample_fresh (\<lambda>_. zero_entry) True (\<lambda>_. replicate 128 0) = Some (Inr (fs, d')) \<and>
     fs_Create sample_fresh (\<lambda>_. zero_entry) [65] 5000 fs d' = Some (Inr (True, fs, d'')) \<and>
     fs_Open sample_fresh (\<lambda>_. zero_entry) [65] fs d'' = Inr (Some f) \<and> Length f = 5000"
proof -
  obtain fs d' where f: "new_FileSystem sample_fresh (\<lambda>_. zero_entry) True (\<lambda>_. replicate 128 0) = Some (Inr (fs, d'))"
    "\<forall>nm sz. 0 \<le> sz \<and> sz \<le> MaxFileSize \<longrightarrow>
       (\<exists>d'' f. fs_Create sample_fresh (\<lambda>_. zero_entry) nm sz fs d' = Some (Inr (True, fs, d'')) \<and>
          fs_Open sample_fresh (\<lambda>_. zero_entry) nm fs d'' = Inr (Some f) \<and> Length f = sz)"
    using format_gives_empty_file_system [OF sample_fresh_ok sample_whole] by blast
  have "(0 :: int) \<le> 5000 \<and> 5000 \<le> MaxFileSize" by simp
  with f(2) have "\<exists>d'' f. fs_Create sample_fresh (\<lambda>_. zero_entry) [65] 5000 fs d' = Some (Inr (True, fs, d'')) \<and>
          fs_Open sample_fresh (\<lambda>_. zero_entry) [65] fs d'' = Inr (Some f) \<and> Length f = 5000" by blast
  with f(1) show ?thesis by blast
qed

text \<open>
  Creating a file of fewer than four sectors and removing it again restores the file system: both calls return true,
  the free map marks the same sectors as before, the directory has the same names, and the name can no longer be
  opened. Larger files do not give their sectors back.
\<close>

lemma create_then_remove_restores:
  assumes "fs_ok fs d bm dir dm dd" and "fresh_ok u es" and "dir_abs dir (dir_key nm) = None"
    and "0 \<le> sz" and "sz \<le> MaxFileSize" and "n = nat (divRoundUp sz SectorSize)" and "n < 4"
    and "int (1 + n + blocks n) \<le> free_sectors bm" and "4 + 20 * grown_size dir \<le> 128 * length dd"
  shows "\<exists>d1 d2 bm' dir'. fs_Create u es nm sz fs d = Some (Inr (True, fs, d1)) \<and>
    fs_Remove u es nm fs d1 = Some (Inr (True, fs, d2)) \<and> fs_ok fs d2 bm' dir' dm dd \<and>
    marked bm' = marked bm \<and> dir_abs dir' = dir_abs dir \<and> fs_Open u es nm fs d2 = Inr None"
proof -
  obtain d1 bm1 dir1 s h ds ind where c: "fs_Create u es nm sz fs d = Some (Inr (True, fs, d1))" "fs_ok fs d1 bm1 dir1 dm dd"
    "dir_abs dir1 = (dir_abs dir)(dir_key nm \<mapsto> s)" "took bm (s # ds @ ind) bm1" "on_disk d1 s h ds ind" "length ds = n"
    using fs_Create_ok [OF assms(1-6,8,9)] by blast
  have "length ind = blocks n" using c(5,6) unfolding on_disk_def hdr_layout_def hdr_part_def by blast
  then have ind: "ind = []" using assms(7) by (simp add: blocks_simps)
  have t: "distinct (s # ds)" "set (s # ds) \<subseteq> marked bm1" "marked bm1 = marked bm \<union> set (s # ds)"
    "set (s # ds) \<inter> marked bm = {}"
    using c(4) unfolding ind took_def by auto
  have apart: "set (s # ds) \<inter> set ([0, 1] @ dm @ dd) = {}" using t(4) fs_okD(3) [OF assms(1)] by blast
  have key: "dir_abs dir1 (dir_key nm) = Some s" using c(3) by simp
  have len: "length ds < 4" using c(6) assms(7) by simp
  obtain d2 bm' dir' where r: "fs_Remove u es nm fs d1 = Some (Inr (True, fs, d2))" "fs_ok fs d2 bm' dir' dm dd"
    "dir_abs dir' = (dir_abs dir1)(dir_key nm := None)" "marked bm' = marked bm1 - set (s # ds)"
    using fs_Remove_small [OF c(2) assms(2) key c(5) [unfolded ind] len t(1,2) apart] by blast
  have "marked bm' = marked bm" using r(4) t(3,4) by blast
  moreover have "dir_abs dir' = dir_abs dir" using r(3) c(3) assms(3) by (simp add: fun_upd_idem)
  moreover have "fs_Open u es nm fs d2 = Inr None"
    using fs_Open_absent [OF r(2) assms(2)] calculation(2) assms(3) by simp
  ultimately show ?thesis using c(1) r(1,2) by blast
qed

end
