(* ===== verification/Replacement.thy ===== *)
theory Replacement
  imports Memory_Manager "HOL-Library.Multiset"
begin

text \<open>
  The page replacement policies of \<^verbatim>\<open>vm/\<close>: the abstract class \<^verbatim>\<open>IReplacement\<close>
  (\<^verbatim>\<open>iReplacement.h\<close>) and its three implementations \<^verbatim>\<open>FIFO\<close>, \<^verbatim>\<open>LRU\<close> and
  \<^verbatim>\<open>RandomReplacement\<close>.

  \<^item> The record \<open>IReplacement\<close> is the table of virtual functions; \<open>FIFO\<close>, \<open>LRU\<close> and
    \<open>RandomReplacement_policy\<close> are the three instances. The state of the first two is the array
    \<^verbatim>\<open>queue\<close> of \<^verbatim>\<open>NumPhysPages\<close> page numbers, with -1 in the unused places.
  \<^item> The locale \<open>replacement_policy\<close> is what the virtual memory manager relies on: the
    policy knows which frames hold a page, and its victim is a frame. It is interpreted on
    all three; for \<^verbatim>\<open>RandomReplacement\<close> that takes a proof that its last shift clears the sign.
  \<^item> The lemmas show which frame each policy picks, and where the code departs from the
    policy's name: \<^verbatim>\<open>LRU::markPage\<close> on a queue that is not full, and the index into the random
    numbers that \<^verbatim>\<open>RandomReplacement\<close> never sets.

  In \<^verbatim>\<open>RandomReplacement\<close> the products and shifts of \<^verbatim>\<open>int\<close> are taken modulo \<open>2 ^ 32\<close>, and a
  right shift copies the sign bit, as the supported hosts do. The first value of \<^verbatim>\<open>randIdx\<close>,
  which no code sets, is an argument of the constructor.
\<close>

unbundle bit_operations_syntax

record 'p IReplacement =
  pageUsed :: "int \<Rightarrow> 'p \<Rightarrow> 'p result"
  getReplacement :: "'p \<Rightarrow> (int \<times> 'p) result"
  clearPage :: "int \<Rightarrow> 'p \<Rightarrow> 'p result"
  markPage :: "int \<Rightarrow> 'p \<Rightarrow> 'p result"

subsection \<open>First in, first out\<close>

text \<open>
  The search loops leave the index of the first place that holds \<open>v\<close>, or \<^verbatim>\<open>NumPhysPages\<close>.
  \<open>close_gap\<close> is the loop that moves the later entries one place to the front up to the first
  unused place; it leaves the index at which the loop stopped.
\<close>

fun find_slot :: "int list \<Rightarrow> int \<Rightarrow> int list \<Rightarrow> int result" where
  "find_slot queue v [] = Inr NumPhysPages"
| "find_slot queue v (i # is) =
     rbind (aget queue i) (\<lambda>x. if x = v then Inr i else find_slot queue v is)"

fun close_gap :: "int list \<Rightarrow> int list \<Rightarrow> int \<Rightarrow> (int \<times> int list) result" where
  "close_gap queue [] last_i = Inr (last_i, queue)"
| "close_gap queue (i # is) last_i =
     rbind (aget queue i) (\<lambda>x.
       if x = -1 then Inr (i, queue)
       else rbind (aget queue (i + 1)) (\<lambda>y.
            rbind (aset queue i y) (\<lambda>queue. close_gap queue is last_i)))"

definition new_FIFO :: "int list" where
  "new_FIFO = replicate (nat NumPhysPages) (-1)"

definition fifo_pageUsed :: "int \<Rightarrow> int list \<Rightarrow> int list result" where
  "fifo_pageUsed pPage queue =
     rbind (find_slot queue (-1) [0..NumPhysPages - 1]) (\<lambda>i.
       if i < NumPhysPages then aset queue i pPage else Inr queue)"

definition fifo_getReplacement :: "int list \<Rightarrow> (int \<times> int list) result" where
  "fifo_getReplacement queue =
     rbind (aget queue 0) (\<lambda>page.
     rbind (for_each [1..NumPhysPages - 1]
              (\<lambda>i queue. rbind (aget queue i) (\<lambda>x. aset queue (i - 1) x)) queue) (\<lambda>queue.
     rbind (aset queue (NumPhysPages - 1) page) (\<lambda>queue. Inr (page, queue))))"

definition fifo_clearPage :: "int \<Rightarrow> int list \<Rightarrow> int list result" where
  "fifo_clearPage pPage queue =
     rbind (find_slot queue pPage [0..NumPhysPages - 1]) (\<lambda>i.
     rbind (close_gap queue [i..NumPhysPages - 2] (max i (NumPhysPages - 1))) (\<lambda>(i, queue).
     aset queue i (-1)))"

definition fifo_markPage :: "int \<Rightarrow> int list \<Rightarrow> int list result" where
  "fifo_markPage pPage queue = Inr queue"

definition FIFO :: "int list IReplacement" where
  "FIFO = \<lparr>pageUsed = fifo_pageUsed, getReplacement = fifo_getReplacement,
           clearPage = fifo_clearPage, markPage = fifo_markPage\<rparr>"

subsection \<open>Least recently used\<close>

text \<open>
  The first three functions have the bodies of those of \<^verbatim>\<open>FIFO\<close>. In \<^verbatim>\<open>markPage\<close> the variable
  \<^verbatim>\<open>page\<close> is set only when the page is found; when it is not, the final store is outside the
  array whatever the variable holds.
\<close>

definition new_LRU :: "int list" where
  "new_LRU = replicate (nat NumPhysPages) (-1)"

definition lru_pageUsed :: "int \<Rightarrow> int list \<Rightarrow> int list result" where
  "lru_pageUsed pPage queue = fifo_pageUsed pPage queue"

definition lru_getReplacement :: "int list \<Rightarrow> (int \<times> int list) result" where
  "lru_getReplacement queue = fifo_getReplacement queue"

definition lru_clearPage :: "int \<Rightarrow> int list \<Rightarrow> int list result" where
  "lru_clearPage pPage queue = fifo_clearPage pPage queue"

definition lru_markPage :: "int \<Rightarrow> int list \<Rightarrow> int list result" where
  "lru_markPage pPage queue =
     rbind (find_slot queue pPage [0..NumPhysPages - 1]) (\<lambda>i.
     rbind (close_gap queue [i..NumPhysPages - 2] (max i (NumPhysPages - 1))) (\<lambda>(i, queue).
     aset queue i pPage))"

definition LRU :: "int list IReplacement" where
  "LRU = \<lparr>pageUsed = lru_pageUsed, getReplacement = lru_getReplacement,
          clearPage = lru_clearPage, markPage = lru_markPage\<rparr>"

subsection \<open>Random replacement\<close>

record RandomReplacement =
  rr_queue :: "int list"
  randoms :: "32 word list"
  randIdx :: int

definition initializeRandom :: "32 word \<Rightarrow> 32 word list \<Rightarrow> 32 word list result" where
  "initializeRandom seed rs =
     rbind (aset rs 0 seed) (\<lambda>rs.
     for_each [1..624 - 1]
       (\<lambda>i rs. rbind (aget rs (i - 1)) (\<lambda>r.
          aset rs i (0x6c078965 * (r XOR signed_drop_bit 30 r) + 1))) rs)"

definition generateRandoms :: "32 word list \<Rightarrow> 32 word list result" where
  "generateRandoms rs =
     for_each [0..624 - 1]
       (\<lambda>i rs.
          rbind (aget rs i) (\<lambda>a.
          rbind (aget rs ((i + 1) smod 624)) (\<lambda>b.
          let j = signed_drop_bit 31 a + signed_drop_bit 1 b in
          rbind (aget rs ((i + 397) smod 624)) (\<lambda>c.
          let r = c XOR signed_drop_bit 1 j;
              r = (if sint j smod 2 \<noteq> 0 then r XOR 0x9908b0df else r) in
          aset rs i r)))) rs"

definition temper :: "32 word \<Rightarrow> 32 word" where
  "temper r =
     (let r = r XOR signed_drop_bit 11 r;
          r = r XOR (push_bit 7 r AND 0x9d2c5680);
          r = r XOR (push_bit 15 r AND 0xefc60000) in
      r XOR signed_drop_bit 18 r)"

definition getRand :: "RandomReplacement \<Rightarrow> (32 word \<times> RandomReplacement) result" where
  "getRand s =
     rbind (if randIdx s = 0 then generateRandoms (randoms s) else Inr (randoms s)) (\<lambda>rs.
     rbind (aget rs (randIdx s)) (\<lambda>r.
     Inr (temper r, s\<lparr>randoms := rs, randIdx := (randIdx s + 1) smod 624\<rparr>)))"

definition new_RandomReplacement ::
    "32 word \<Rightarrow> 32 word list \<Rightarrow> int \<Rightarrow> RandomReplacement result" where
  "new_RandomReplacement time garbage idx =
     rbind (initializeRandom time garbage) (\<lambda>rs.
     Inr \<lparr>rr_queue = replicate (nat NumPhysPages) (-1), randoms = rs, randIdx = idx\<rparr>)"

definition rr_pageUsed :: "int \<Rightarrow> RandomReplacement \<Rightarrow> RandomReplacement result" where
  "rr_pageUsed pPage s =
     rbind (find_slot (rr_queue s) (-1) [0..NumPhysPages - 1]) (\<lambda>i.
       if i < NumPhysPages then rbind (aset (rr_queue s) i pPage) (\<lambda>q. Inr (s\<lparr>rr_queue := q\<rparr>))
       else Inr s)"

definition rr_getReplacement :: "RandomReplacement \<Rightarrow> (int \<times> RandomReplacement) result" where
  "rr_getReplacement s = rbind (getRand s) (\<lambda>(r, s). Inr (sint r smod NumPhysPages, s))"

definition rr_clearPage :: "int \<Rightarrow> RandomReplacement \<Rightarrow> RandomReplacement result" where
  "rr_clearPage pPage s =
     rbind (find_slot (rr_queue s) pPage [0..NumPhysPages - 1]) (\<lambda>i.
     rbind (aset (rr_queue s) i (-1)) (\<lambda>q. Inr (s\<lparr>rr_queue := q\<rparr>)))"

definition rr_markPage :: "int \<Rightarrow> RandomReplacement \<Rightarrow> RandomReplacement result" where
  "rr_markPage pPage s = Inr s"

definition RandomReplacement_policy :: "RandomReplacement IReplacement" where
  "RandomReplacement_policy =
     \<lparr>pageUsed = rr_pageUsed, getReplacement = rr_getReplacement,
      clearPage = rr_clearPage, markPage = rr_markPage\<rparr>"

subsection \<open>The contract of a policy\<close>

locale replacement_policy =
  fixes P :: "'p IReplacement"
    and invar :: "'p \<Rightarrow> bool"
    and pages :: "'p \<Rightarrow> int set"
  assumes pages_range: "invar s \<Longrightarrow> pages s \<subseteq> {0..<NumPhysPages}"
    and pageUsed_ok: "invar s \<Longrightarrow> p \<in> {0..<NumPhysPages} - pages s \<Longrightarrow>
      \<exists>s'. pageUsed P p s = Inr s' \<and> invar s' \<and> pages s' = insert p (pages s)"
    and getReplacement_ok: "invar s \<Longrightarrow> pages s = {0..<NumPhysPages} \<Longrightarrow>
      \<exists>p s'. getReplacement P s = Inr (p, s') \<and> p \<in> {0..<NumPhysPages} \<and> invar s'
        \<and> pages s' = pages s"
    and clearPage_ok: "invar s \<Longrightarrow> p \<in> pages s \<Longrightarrow>
      \<exists>s'. clearPage P p s = Inr s' \<and> invar s' \<and> pages s' = pages s - {p}"
    and markPage_ok: "invar s \<Longrightarrow> p \<in> pages s \<Longrightarrow>
      \<exists>s'. markPage P p s = Inr s' \<and> invar s' \<and> pages s' = pages s"

text \<open>
  A queue of the first two policies: every frame is in it at most once, the other places are
  unused.
\<close>

definition q_ok :: "int list \<Rightarrow> bool" where
  "q_ok q \<longleftrightarrow> length q = nat NumPhysPages \<and> set q \<subseteq> insert (-1) {0..<NumPhysPages}
     \<and> distinct (filter (\<lambda>x. x \<noteq> -1) q)"

definition q_pages :: "int list \<Rightarrow> int set" where
  "q_pages q = set q - {-1}"

lemma find_slot_first:
  assumes "q = a @ v # b" "v \<notin> set a" "length q = 32"
  shows "find_slot q v [0..31] = Inr (int (length a))"
proof -
  have step: "find_slot q v [i..31] = Inr (int (length a))"
    if "0 \<le> i" "i \<le> int (length a)" for i
    using that
  proof (induction "nat (int (length a) - i)" arbitrary: i)
    case 0
    then have "i = int (length a)" by linarith
    with assms show ?case by (simp add: upto_rec1 nth_append)
  next
    case (Suc n)
    then have i: "i < int (length a)" by linarith
    then have "q ! nat i \<noteq> v" using assms(1,2) Suc.prems by (auto simp: nth_append nat_less_iff)
    moreover have "find_slot q v [i + 1..31] = Inr (int (length a))"
      by (rule Suc.hyps) (use Suc i in linarith)+
    ultimately show ?case using assms Suc.prems i by (simp add: upto_rec1)
  qed
  show ?thesis by (rule step) simp_all
qed

lemma find_slot_absent:
  assumes "v \<notin> set q" "length q = 32"
  shows "find_slot q v [0..31] = Inr 32"
proof -
  have step: "find_slot q v is = Inr 32" if "set is \<subseteq> {0..<32}" for "is"
    using that
  proof (induction "is")
    case (Cons i "is")
    then have "q ! nat i \<in> set q" using assms(2) by auto
    with Cons assms show ?case by auto
  qed simp
  show ?thesis by (rule step) auto
qed

lemma fifo_pageUsed_first:
  assumes "length (a @ -1 # b) = 32" "-1 \<notin> set a"
  shows "fifo_pageUsed p (a @ -1 # b) = Inr (a @ p # b)"
  using find_slot_first [OF refl assms(2,1)] assms(1)
  by (simp add: fifo_pageUsed_def list_update_append)

lemma close_gap_hole:
  assumes "length (a @ p # c @ -1 # d) = 32" "p \<noteq> -1" "-1 \<notin> set c"
  shows "close_gap (a @ p # c @ -1 # d) [int (length a)..30] 31 =
    Inr (int (length a + length c + 1), a @ c @ -1 # -1 # d)"
  using assms
proof (induction c arbitrary: a p)
  case Nil
  show ?case
  proof (cases d)
    case Nil
    with Nil.prems show ?thesis by (simp add: upto_rec1 nth_append list_update_append nat_add_distrib)
  next
    case (Cons x xs)
    with Nil.prems show ?thesis by (simp add: upto_rec1 nth_append list_update_append nat_add_distrib)
  qed
next
  case (Cons x c)
  have "close_gap ((a @ [x]) @ x # c @ -1 # d) [int (length (a @ [x]))..30] 31 =
    Inr (int (length (a @ [x]) + length c + 1), (a @ [x]) @ c @ -1 # -1 # d)"
    using Cons.prems by (intro Cons.IH) auto
  with Cons.prems show ?case
    by (simp add: upto_rec1 nth_append list_update_append nat_add_distrib add.commute)
qed

lemma close_gap_full:
  assumes "length (a @ p # b) = 32" "p \<noteq> -1" "-1 \<notin> set b"
  shows "close_gap (a @ p # b) [int (length a)..30] 31 = Inr (31, a @ b @ [last (p # b)])"
  using assms
proof (induction b arbitrary: a p)
  case Nil
  then show ?case by simp
next
  case (Cons x b)
  have "close_gap ((a @ [x]) @ x # b) [int (length (a @ [x]))..30] 31 =
    Inr (31, (a @ [x]) @ b @ [last (x # b)])"
    using Cons.prems by (intro Cons.IH) auto
  with Cons.prems show ?case
    by (simp add: upto_rec1 nth_append list_update_append nat_add_distrib add.commute)
qed

text \<open>
  Clearing and marking a page are the same motion: the page leaves its place, the entries after
  it up to the first unused place move up, and \<open>v\<close> is stored where the loop stopped.
\<close>

definition move_to :: "int \<Rightarrow> int \<Rightarrow> int list \<Rightarrow> int list result" where
  "move_to v pPage queue =
     rbind (find_slot queue pPage [0..NumPhysPages - 1]) (\<lambda>i.
     rbind (close_gap queue [i..NumPhysPages - 2] (max i (NumPhysPages - 1))) (\<lambda>(i, queue).
     aset queue i v))"

lemma move_to_fold:
  "fifo_clearPage p = move_to (-1) p" "lru_markPage p = move_to p p" "lru_clearPage p = move_to (-1) p"
  by (simp_all add: fun_eq_iff fifo_clearPage_def lru_markPage_def lru_clearPage_def move_to_def)

lemma move_to_hole:
  assumes "length (a @ p # c @ -1 # d) = 32" "p \<noteq> -1" "-1 \<notin> set c" "p \<notin> set a"
  shows "move_to v p (a @ p # c @ -1 # d) = Inr (a @ c @ -1 # v # d)"
  using close_gap_hole [OF assms(1-3)] find_slot_first [OF refl assms(4,1)] assms(1)
  by (simp add: move_to_def list_update_append nat_add_distrib max_absorb2)

lemma move_to_full:
  assumes "length (a @ p # b) = 32" "p \<noteq> -1" "-1 \<notin> set b" "p \<notin> set a"
  shows "move_to v p (a @ p # b) = Inr (a @ b @ [v])"
proof -
  have "31 - length a = length b" "length a \<le> 31" using assms(1) by auto
  then show ?thesis
    using close_gap_full [OF assms(1-3)] find_slot_first [OF refl assms(4,1)] assms(1)
    by (simp add: move_to_def list_update_append max_absorb2)
qed

lemma move_to_absent:
  assumes "length q = 32" "p \<notin> set q" shows "move_to v p q = Inl OutOfBounds"
  using find_slot_absent [OF assms(2,1)] assms(1) by (simp add: move_to_def aset_out)

lemma q_pages_simps: "q_pages q = set (filter (\<lambda>x. x \<noteq> -1) q)"
  by (auto simp: q_pages_def)

lemma move_to_cases:
  assumes q: "q_ok q" "p \<in> q_pages q"
  obtains q' where "move_to v p q = Inr q'" "mset q' = add_mset v (mset q - {#p#})"
proof -
  have len: "length q = 32" and p: "p \<in> set q" "p \<noteq> -1"
    using q by (auto simp: q_ok_def q_pages_def)
  from p(1) obtain a b where ab: "q = a @ p # b" "p \<notin> set a" by (meson split_list_first)
  show ?thesis
  proof (cases "-1 \<in> set b")
    case True
    then obtain c d where b: "b = c @ -1 # d" "-1 \<notin> set c" by (meson split_list_first)
    show ?thesis
      by (rule that [of "a @ c @ -1 # v # d"])
        (use move_to_hole [of a p c d v] len p(2) ab b in simp_all)
  next
    case False
    show ?thesis
      by (rule that [of "a @ b @ [v]"]) (use move_to_full [of a p b v] len p(2) ab False in simp_all)
  qed
qed

lemma q_ok_perm:
  assumes "q_ok q" "mset q' = mset q" shows "q_ok q'" "q_pages q' = q_pages q"
proof -
  have "mset (filter (\<lambda>x. x \<noteq> -1) q') = mset (filter (\<lambda>x. x \<noteq> -1) q)"
    using assms(2) by simp
  then show "q_ok q'"
    using assms mset_eq_imp_distinct_iff mset_eq_setD [OF assms(2)] mset_eq_length [OF assms(2)]
    unfolding q_ok_def by metis
  show "q_pages q' = q_pages q"
    using mset_eq_setD [OF assms(2)] by (simp add: q_pages_def)
qed

lemma q_ok_drop:
  assumes "q_ok q" "p \<in> q_pages q" "mset q' = add_mset (-1) (mset q - {#p#})"
  shows "q_ok q'" "q_pages q' = q_pages q - {p}"
proof -
  have p: "p \<in> set q" "p \<noteq> -1" using assms(2) by (auto simp: q_pages_def)
  let ?f = "filter (\<lambda>x. x \<noteq> -1)"
  have m: "mset (?f q') = mset (remove1 p (?f q))"
    using assms(3) p by simp
  have d: "distinct (?f q)" using assms(1) by (simp add: q_ok_def)
  then have d': "distinct (?f q')" using m mset_eq_imp_distinct_iff by (metis distinct_remove1)
  show pages: "q_pages q' = q_pages q - {p}"
    using mset_eq_setD [OF m] d by (simp add: q_pages_simps)
  have "length q' = length q"
    using arg_cong [OF assms(3), of size] p(1) by (simp add: size_Diff_singleton_if) (metis Suc_pred length_pos_if_in_set)
  moreover have "set q' \<subseteq> insert (-1) (q_pages q)" using pages by (auto simp: q_pages_def)
  ultimately show "q_ok q'"
    using assms(1) d' by (auto simp: q_ok_def q_pages_def)
qed

lemma fifo_pageUsed_ok:
  assumes "q_ok q" "p \<in> {0..<NumPhysPages} - q_pages q"
  shows "\<exists>q'. fifo_pageUsed p q = Inr q' \<and> q_ok q' \<and> q_pages q' = insert p (q_pages q)"
proof -
  have "-1 \<in> set q"
  proof (rule ccontr)
    assume n: "-1 \<notin> set q"
    then have "filter (\<lambda>x. x \<noteq> -1) q = q" by (auto simp: filter_id_conv)
    then have "distinct q" "set q \<subseteq> {0..<32} - {p}" "length q = 32"
      using n assms by (auto simp: q_ok_def q_pages_def)
    then show False
      using assms(2) card_mono [of "{0..<32} - {p}" "set q"] distinct_card [of q] by simp
  qed
  then obtain a b where q: "q = a @ -1 # b" "-1 \<notin> set a" by (meson split_list_first)
  have "fifo_pageUsed p q = Inr (a @ p # b)"
    using fifo_pageUsed_first [of a b p] q assms(1) by (simp add: q_ok_def)
  moreover have "q_ok (a @ p # b)" "q_pages (a @ p # b) = insert p (q_pages q)"
    using assms q by (auto simp: q_ok_def q_pages_def)
  ultimately show ?thesis by blast
qed

lemma fifo_getReplacement_rotates:
  assumes "length q = 32"
  shows "fifo_getReplacement q = Inr (hd q, rotate1 q)"
proof -
  let ?body = "\<lambda>i q. rbind (aget q i) (\<lambda>x. aset q (i - 1) x)"
  let ?I = "\<lambda>i q'. q' = take (nat i - 1) (tl q) @ drop (nat i - 1) q"
  have "\<exists>q'. for_each [1..32 - 1] ?body q = Inr q' \<and> ?I 32 q'"
  proof (rule for_range_invariant [where I = ?I])
    show "?I 1 q" by simp
  next
    fix i q'
    assume i: "1 \<le> i" "i < 32" and q': "?I i q'"
    define k where "k = nat i - 1"
    have k: "Suc k < 32" "nat i = Suc k" "nat (i + 1) - 1 = Suc k" "nat (i - 1) = k"
      using i by (auto simp: k_def)
    have len: "length (take k (tl q)) = k" "length (tl q) = 31" using k assms by auto
    have "q' ! Suc k = q ! Suc k" using q' k assms len by (simp add: nth_append)
    moreover have "q'[k := q ! Suc k] = take (Suc k) (tl q) @ drop (Suc k) q"
      using q' k assms len
      by (simp add: list_update_append take_Suc_conv_app_nth nth_tl Cons_nth_drop_Suc [symmetric])
    ultimately show "\<exists>q''. ?body i q' = Inr q'' \<and> ?I (i + 1) q''"
      using i k q' assms len by simp
  qed simp
  moreover have "last q = q ! 31" using assms last_conv_nth [of q] by force
  then have "drop 31 q = [last q]" using assms Cons_nth_drop_Suc [of 31 q] by simp
  ultimately have "for_each [1..31] ?body q = Inr (tl q @ [last q])"
    using assms by auto
  then show ?thesis
    using assms by (cases q) (auto simp: fifo_getReplacement_def list_update_append)
qed

lemma fifo_getReplacement_ok:
  assumes "q_ok q" "q_pages q = {0..<NumPhysPages}"
  shows "\<exists>p q'. fifo_getReplacement q = Inr (p, q') \<and> p \<in> {0..<NumPhysPages} \<and> q_ok q'
    \<and> q_pages q' = q_pages q"
proof -
  have len: "length q = 32" using assms(1) by (simp add: q_ok_def)
  have "32 \<le> card (set q - {-1})" using assms(2) by (simp add: q_pages_def)
  also have "\<dots> \<le> card (set q)" by (simp add: card_mono)
  finally have "-1 \<notin> set q"
    using len card_length [of q] \<open>32 \<le> card (set q - {-1})\<close> by (auto simp: card_Diff_singleton_if)
  moreover have "hd q \<in> set q" using len by (cases q) auto
  ultimately have "hd q \<in> {0..<NumPhysPages}" using assms(2) by (auto simp: q_pages_def)
  moreover have "mset (rotate1 q) = mset q" by (cases q) simp_all
  ultimately show ?thesis
    using fifo_getReplacement_rotates [OF len] q_ok_perm [OF assms(1)] by blast
qed

lemma q_ok_range: "q_ok q \<Longrightarrow> q_pages q \<subseteq> {0..<NumPhysPages}"
  by (auto simp: q_ok_def q_pages_def)

lemma fifo_clearPage_ok:
  assumes "q_ok q" "p \<in> q_pages q"
  shows "\<exists>q'. fifo_clearPage p q = Inr q' \<and> q_ok q' \<and> q_pages q' = q_pages q - {p}"
proof -
  obtain q' where "move_to (-1) p q = Inr q'" "mset q' = add_mset (-1) (mset q - {#p#})"
    by (rule move_to_cases [OF assms])
  with q_ok_drop [OF assms] show ?thesis by (auto simp: move_to_fold)
qed

lemma lru_markPage_ok:
  assumes "q_ok q" "p \<in> q_pages q"
  shows "\<exists>q'. lru_markPage p q = Inr q' \<and> q_ok q' \<and> q_pages q' = q_pages q"
proof -
  obtain q' where "move_to p p q = Inr q'" "mset q' = add_mset p (mset q - {#p#})"
    by (rule move_to_cases [OF assms])
  moreover have "p \<in># mset q" using assms(2) by (simp add: q_pages_def)
  ultimately show ?thesis
    using q_ok_perm [OF assms(1), of q'] by (auto simp: move_to_fold)
qed

lemmas fifo_facts = q_ok_range fifo_pageUsed_ok fifo_getReplacement_ok fifo_clearPage_ok

interpretation fifo_policy: replacement_policy FIFO q_ok q_pages
  by unfold_locales (use fifo_facts in \<open>auto simp: FIFO_def fifo_markPage_def\<close>)

interpretation lru_policy: replacement_policy LRU q_ok q_pages
  by unfold_locales
    (use fifo_facts lru_markPage_ok in \<open>simp_all only: LRU_def IReplacement.simps
      lru_pageUsed_def lru_getReplacement_def lru_clearPage_def\<close>)

text \<open>
  The random policy. The last step of \<^verbatim>\<open>getRand\<close>, with its sign-copying shift, leaves a number
  that is not negative, so that the remainder is a frame number.
\<close>

definition rr_ok :: "RandomReplacement \<Rightarrow> bool" where
  "rr_ok s \<longleftrightarrow> q_ok (rr_queue s) \<and> length (randoms s) = 624 \<and> 0 \<le> randIdx s \<and> randIdx s < 624"

lemma temper_nonneg: "0 \<le> sint (temper r)"
proof -
  have "\<not> bit (w XOR signed_drop_bit 18 w) 31" for w :: "32 word"
    by (simp add: bit_xor_iff bit_signed_drop_bit_iff)
  then have "0 \<le> sint (w XOR signed_drop_bit 18 w)" for w :: "32 word"
    by (simp add: sint_uint bit_uint_iff)
  then show ?thesis by (simp add: temper_def Let_def)
qed

lemma generateRandoms_ok:
  assumes "length rs = 624" shows "\<exists>rs'. generateRandoms rs = Inr rs' \<and> length rs' = 624"
proof -
  have "\<exists>rs'. for_each [0..624 - 1] (\<lambda>i rs.
          rbind (aget rs i) (\<lambda>a.
          rbind (aget rs ((i + 1) smod 624)) (\<lambda>b.
          let j = signed_drop_bit 31 a + signed_drop_bit 1 b in
          rbind (aget rs ((i + 397) smod 624)) (\<lambda>c.
          let r = c XOR signed_drop_bit 1 j;
              r = (if sint j smod 2 \<noteq> 0 then r XOR 0x9908b0df else r) in
          aset rs i r)))) rs = Inr rs' \<and> length rs' = 624"
    by (rule for_range_invariant [where I = "\<lambda>_ rs. length rs = 624"])
      (use assms in \<open>simp_all add: smod_nonneg Let_def\<close>)
  then show ?thesis by (simp add: generateRandoms_def)
qed

lemma getRand_ok:
  assumes "rr_ok s"
  shows "\<exists>r s'. getRand s = Inr (r, s') \<and> 0 \<le> sint r \<and> rr_ok s' \<and> rr_queue s' = rr_queue s"
proof -
  obtain rs where rs: "(if randIdx s = 0 then generateRandoms (randoms s) else Inr (randoms s)) = Inr rs"
    "length rs = 624"
    using assms generateRandoms_ok [of "randoms s"] by (cases "randIdx s = 0") (auto simp: rr_ok_def)
  then show ?thesis
    using assms temper_nonneg by (simp add: getRand_def rr_ok_def smod_nonneg)
qed

lemma initializeRandom_ok:
  assumes "length garbage = 624"
  shows "\<exists>rs. initializeRandom seed garbage = Inr rs \<and> length rs = 624"
proof -
  have "\<exists>rs. for_each [1..624 - 1] (\<lambda>i rs. rbind (aget rs (i - 1)) (\<lambda>r.
          aset rs i (0x6c078965 * (r XOR signed_drop_bit 30 r) + 1))) (garbage[0 := seed]) = Inr rs
        \<and> length rs = 624"
    by (rule for_range_invariant [where I = "\<lambda>_ rs. length rs = 624"]) (use assms in simp_all)
  then show ?thesis using assms by (simp add: initializeRandom_def)
qed

lemma rr_pageUsed_fifo:
  "rr_pageUsed p s = rbind (fifo_pageUsed p (rr_queue s)) (\<lambda>q. Inr (s\<lparr>rr_queue := q\<rparr>))"
  by (cases "find_slot (rr_queue s) (-1) [0..31]") (simp_all add: rr_pageUsed_def fifo_pageUsed_def)

lemma rr_clearPage_ok:
  assumes "rr_ok s" "p \<in> q_pages (rr_queue s)"
  shows "\<exists>s'. rr_clearPage p s = Inr s' \<and> rr_ok s' \<and> q_pages (rr_queue s') = q_pages (rr_queue s) - {p}"
proof -
  have q: "q_ok (rr_queue s)" using assms(1) by (simp add: rr_ok_def)
  have len: "length (rr_queue s) = 32" using q by (simp add: q_ok_def)
  have "p \<in> set (rr_queue s)" using assms(2) by (simp add: q_pages_def)
  then obtain a b where ab: "rr_queue s = a @ p # b" "p \<notin> set a" by (meson split_list_first)
  have "rr_clearPage p s = Inr (s\<lparr>rr_queue := a @ -1 # b\<rparr>)"
    using find_slot_first [OF ab len] ab len by (simp add: rr_clearPage_def list_update_append)
  moreover have "mset (a @ -1 # b) = add_mset (-1) (mset (rr_queue s) - {#p#})" using ab by simp
  ultimately show ?thesis
    using q_ok_drop [OF q assms(2)] assms(1) by (auto simp: rr_ok_def)
qed

lemma rr_getReplacement_ok:
  assumes "rr_ok s"
  shows "\<exists>p s'. rr_getReplacement s = Inr (p, s') \<and> p \<in> {0..<NumPhysPages} \<and> rr_ok s'
    \<and> rr_queue s' = rr_queue s"
proof -
  obtain r s' where "getRand s = Inr (r, s')" "0 \<le> sint r" "rr_ok s'" "rr_queue s' = rr_queue s"
    using getRand_ok [OF assms] by blast
  then show ?thesis by (simp add: rr_getReplacement_def smod_nonneg)
qed

interpretation random_policy:
  replacement_policy RandomReplacement_policy rr_ok "\<lambda>s. q_pages (rr_queue s)"
proof (unfold_locales, goal_cases)
  case (1 s)
  then show ?case by (intro q_ok_range) (simp add: rr_ok_def)
next
  case (2 s p)
  then show ?case
    using fifo_pageUsed_ok [of "rr_queue s" p]
    by (auto simp: rr_ok_def RandomReplacement_policy_def rr_pageUsed_fifo)
next
  case (3 s)
  then show ?case using rr_getReplacement_ok [of s] by (auto simp: RandomReplacement_policy_def)
next
  case (4 s p)
  then show ?case using rr_clearPage_ok by (simp add: RandomReplacement_policy_def)
next
  case (5 s p)
  then show ?case by (simp add: RandomReplacement_policy_def rr_markPage_def)
qed

subsection \<open>The order in which the victims are picked\<close>

text \<open>\<open>replacements n\<close> collects the victims of \<open>n\<close> consecutive calls.\<close>

fun replacements :: "'p IReplacement \<Rightarrow> nat \<Rightarrow> 'p \<Rightarrow> (int list \<times> 'p) result" where
  "replacements P 0 s = Inr ([], s)"
| "replacements P (Suc n) s =
     rbind (getReplacement P s) (\<lambda>(p, s). rbind (replacements P n s) (\<lambda>(ps, s). Inr (p # ps, s)))"

lemma replacements_queue:
  assumes "length q = 32" "getReplacement P = fifo_getReplacement"
  shows "replacements P n q = Inr (map (\<lambda>i. q ! (i mod 32)) [0..<n], rotate n q)"
  using assms(1)
proof (induction n arbitrary: q)
  case (Suc n)
  have hd: "hd q = q ! 0" using Suc.prems by (cases q) auto
  have "rotate1 q ! (i mod 32) = q ! (Suc i mod 32)" for i
    using Suc.prems nth_rotate1 [of "i mod 32" q] by (simp add: mod_Suc_eq)
  then have "map (\<lambda>i. rotate1 q ! (i mod 32)) [0..<n] = map (\<lambda>i. q ! (i mod 32)) [1..<Suc n]"
    by (simp add: map_Suc_upt [symmetric] del: upt_Suc)
  with Suc assms(2) hd show ?case
    by (simp add: fifo_getReplacement_rotates upt_conv_Cons del: upt_Suc) (metis rotate1_rotate_swap)
qed simp

lemma fifo_fill:
  assumes "length q + length ps \<le> 32" "-1 \<notin> set q" "-1 \<notin> set ps"
  shows "for_each ps fifo_pageUsed (q @ replicate (32 - length q) (-1)) =
    Inr (q @ ps @ replicate (32 - length q - length ps) (-1))"
  using assms
proof (induction ps arbitrary: q)
  case (Cons p ps)
  define k where "k = 31 - length q"
  have k: "32 - length q = Suc k" "32 - length (q @ [p]) = k" using Cons.prems(1) by (auto simp: k_def)
  have "fifo_pageUsed p (q @ replicate (32 - length q) (-1)) = Inr ((q @ [p]) @ replicate k (-1))"
    using fifo_pageUsed_first [of q "replicate k (-1)" p] Cons.prems k(1) by simp
  with Cons.IH [of "q @ [p]"] Cons.prems k show ?case by simp
qed simp

lemma lru_marks:
  assumes "length q = 32" "distinct q" "-1 \<notin> set q" "set ps \<subseteq> set q"
  shows "for_each ps lru_markPage q = Inr (filter (\<lambda>x. x \<notin> set ps) q @ remdups ps)"
  using assms
proof (induction ps arbitrary: q)
  case (Cons p ps)
  then obtain a b where ab: "q = a @ p # b" by (meson list.set_intros(1) split_list subsetD)
  have m: "lru_markPage p q = Inr (a @ b @ [p])"
    using move_to_full [of a p b p] Cons.prems ab by (auto simp: move_to_fold)
  have "for_each ps lru_markPage (a @ b @ [p]) =
      Inr (filter (\<lambda>x. x \<notin> set ps) (a @ b @ [p]) @ remdups ps)"
    using Cons.prems ab by (intro Cons.IH) auto
  moreover have "filter (\<lambda>x. x \<noteq> p \<and> x \<notin> set ps) xs = filter (\<lambda>x. x \<notin> set ps) xs" if "p \<notin> set xs" for xs
    using that by (induction xs) auto
  then have "filter (\<lambda>x. x \<noteq> p \<and> x \<notin> set ps) q = filter (\<lambda>x. x \<notin> set ps) (a @ b)"
    using Cons.prems(2) ab by simp
  ultimately show ?case using m by auto
qed simp

lemma lru_victim:
  assumes "length ps = 32" "-1 \<notin> set ps" "distinct ps" "set ps = {0..<32}" "set used \<subseteq> {0..<32}"
  shows "rbind (for_each used (markPage LRU) ps) (getReplacement LRU) =
      Inr (hd (filter (\<lambda>p. p \<notin> set used) ps @ remdups used),
           rotate1 (filter (\<lambda>p. p \<notin> set used) ps @ remdups used))"
proof -
  let ?q = "filter (\<lambda>p. p \<notin> set used) ps @ remdups used"
  have "for_each used lru_markPage ps = Inr ?q" using lru_marks [of ps used] assms by simp
  moreover have "distinct ?q" "set ?q = {0..<32}" using assms by auto
  then have "length ?q = 32" using distinct_card [of ?q] by simp
  then have "fifo_getReplacement ?q = Inr (hd ?q, rotate1 ?q)" by (rule fifo_getReplacement_rotates)
  ultimately show ?thesis by (simp add: LRU_def lru_getReplacement_def [abs_def])
qed

lemma random_victims:
  assumes "length garbage = 624" "0 \<le> idx" "idx < 624"
  shows "\<exists>victims s. rbind (new_RandomReplacement seed garbage idx)
          (replacements RandomReplacement_policy n) = Inr (victims, s)
        \<and> length victims = n \<and> set victims \<subseteq> {0..<NumPhysPages}"
proof -
  have step: "\<exists>victims s'. replacements RandomReplacement_policy n s = Inr (victims, s')
      \<and> length victims = n \<and> set victims \<subseteq> {0..<NumPhysPages}" if "rr_ok s" for s
    using that
  proof (induction n arbitrary: s)
    case (Suc n)
    obtain p s1 where "rr_getReplacement s = Inr (p, s1)" "p \<in> {0..<NumPhysPages}" "rr_ok s1"
      using rr_getReplacement_ok [OF Suc.prems] by blast
    with Suc.IH [of s1] show ?case by (auto simp: RandomReplacement_policy_def)
  qed simp
  obtain rs where "initializeRandom seed garbage = Inr rs" "length rs = 624"
    using initializeRandom_ok [OF assms(1)] by blast
  moreover have "q_ok (replicate 32 (-1))" by (simp add: q_ok_def)
  ultimately show ?thesis
    using step assms(2,3) by (simp add: new_RandomReplacement_def rr_ok_def)
qed



text \<open>
  Where the policies depart from their names. \<^verbatim>\<open>LRU::markPage\<close> on a queue that is not full
  leaves a hole in front of the marked page, and the next page brought in takes the hole: after
  bringing in 0 and 1, using 0, and bringing in the other frames, frame 2 is in front of frame 0,
  so that it is replaced first although it was used later. Marking or clearing a frame that is
  not in the queue writes behind the array. The index into the random numbers is whatever the
  memory held; outside the table the first victim is read from behind it.
\<close>

lemma replacement_defects:
  "rbind (for_each [0, 1] (pageUsed LRU) new_LRU) (\<lambda>q.
     rbind (markPage LRU 0 q) (for_each [2..31] (pageUsed LRU))) = Inr ([1, 2, 0] @ [3..31])
   \<and> clearPage FIFO 7 new_FIFO = Inl OutOfBounds \<and> markPage LRU 7 new_LRU = Inl OutOfBounds
   \<and> rbind (new_RandomReplacement seed (replicate 624 0) 1000) rr_getReplacement = Inl OutOfBounds"
proof -
  define z where "z n = replicate n (-1 :: int)" for n
  have z: "z (Suc n) = -1 # z n" "length (z n) = n" "set (z n) \<subseteq> {-1}" for n by (auto simp: z_def)
  have 1: "for_each [0, 1] (pageUsed LRU) new_LRU = Inr ([0, 1] @ -1 # z 29)"
    using fifo_fill [of "[]" "[0, 1]"] z(1) [of 29]
    by (simp add: LRU_def lru_pageUsed_def [abs_def] new_LRU_def z_def)
  have 2: "markPage LRU 0 ([0, 1] @ -1 # z 29) = Inr ([1, -1, 0] @ z 29)"
    using move_to_hole [of "[]" 0 "[1]" "z 29" 0] by (simp add: LRU_def move_to_fold z)
  have 3: "pageUsed LRU 2 ([1, -1, 0] @ z 29) = Inr ([1, 2, 0] @ z 29)"
    using fifo_pageUsed_first [of "[1]" "0 # z 29" 2] by (simp add: LRU_def lru_pageUsed_def z)
  have 4: "for_each [3..31] (pageUsed LRU) ([1, 2, 0] @ z 29) = Inr ([1, 2, 0] @ [3..31])"
    using fifo_fill [of "[1, 2, 0]" "[3..31]"] by (simp add: LRU_def lru_pageUsed_def [abs_def] z_def)
  have 5: "clearPage FIFO 7 new_FIFO = Inl OutOfBounds" "markPage LRU 7 new_LRU = Inl OutOfBounds"
    by (simp_all add: FIFO_def LRU_def move_to_fold move_to_absent new_FIFO_def new_LRU_def)
  obtain rs where "initializeRandom seed (replicate 624 0) = Inr rs" "length rs = 624"
    using initializeRandom_ok [of "replicate 624 0" seed] by auto
  then have "rbind (new_RandomReplacement seed (replicate 624 0) 1000) rr_getReplacement = Inl OutOfBounds"
    by (simp add: new_RandomReplacement_def rr_getReplacement_def getRand_def aget_out)
  moreover have "[2..31] = 2 # [3..31 :: int]" by (simp add: upto_rec1)
  ultimately show ?thesis using 1 2 3 4 5 by simp
qed

end
