(* ===== verification/Stub_Files.thy ===== *)
theory Stub_Files
  imports Nachos_Prelude
begin

text \<open>
  The file system of the builds with \<^verbatim>\<open>FILESYS_STUB\<close>, among them the one with virtual memory:
  \<^verbatim>\<open>class FileSystem\<close> and \<^verbatim>\<open>class OpenFile\<close> of \<^verbatim>\<open>filesys/filesys.h\<close> and \<^verbatim>\<open>filesys/openfile.h\<close>
  pass the calls on to the host through the wrappers of \<^verbatim>\<open>machine/sysdep.cc\<close>.

  \<open>Unix\<close> is what those wrappers see of the host: names of files, their contents by number, and the
  open descriptors with their positions. \<open>unix_open\<close>, \<open>unix_read\<close>, \<open>unix_write\<close>, \<open>unix_lseek\<close>,
  \<open>unix_close\<close> and \<open>unix_unlink\<close> are the POSIX calls on ordinary files on a host with enough space and
  permissions. An unlinked file keeps its contents for the descriptors that are open on it. Byte counts are not
  negative.
\<close>

record Unix =
  names :: "8 word list \<Rightarrow> nat option"
  inodes :: "nat \<Rightarrow> 8 word list"
  next_inode :: nat
  fds :: "int \<Rightarrow> (nat \<times> int) option"
  next_fd :: nat

subsection \<open>The host\<close>

definition new_fd :: "nat \<Rightarrow> Unix \<Rightarrow> int \<times> Unix" where
  "new_fd i u = (int (next_fd u), u\<lparr>fds := (fds u)(int (next_fd u) \<mapsto> (i, 0)), next_fd := Suc (next_fd u)\<rparr>)"

definition unix_open :: "bool \<Rightarrow> 8 word list \<Rightarrow> Unix \<Rightarrow> int \<times> Unix" where
  "unix_open creat_trunc name u =
     (case names u name of
        Some i \<Rightarrow> new_fd i (if creat_trunc then u\<lparr>inodes := (inodes u)(i := [])\<rparr> else u)
      | None \<Rightarrow>
          if creat_trunc
          then new_fd (next_inode u)
                 (u\<lparr>names := (names u)(name \<mapsto> next_inode u), inodes := (inodes u)(next_inode u := []),
                    next_inode := Suc (next_inode u)\<rparr>)
          else (-1, u))"

definition unix_close :: "int \<Rightarrow> Unix \<Rightarrow> int \<times> Unix" where
  "unix_close fd u = (case fds u fd of None \<Rightarrow> (-1, u) | Some _ \<Rightarrow> (0, u\<lparr>fds := (fds u)(fd := None)\<rparr>))"

definition unix_unlink :: "8 word list \<Rightarrow> Unix \<Rightarrow> int \<times> Unix" where
  "unix_unlink name u =
     (case names u name of None \<Rightarrow> (-1, u) | Some _ \<Rightarrow> (0, u\<lparr>names := (names u)(name := None)\<rparr>))"

text \<open>The second argument is \<^verbatim>\<open>whence\<close>: 0, 1 and 2 are the start, the position and the end of the file.\<close>

definition unix_lseek :: "int \<Rightarrow> int \<Rightarrow> int \<Rightarrow> Unix \<Rightarrow> int \<times> Unix" where
  "unix_lseek fd offset whence u =
     (case fds u fd of None \<Rightarrow> (-1, u)
      | Some (i, pos) \<Rightarrow>
          let base = (if whence = 0 then 0 else if whence = 1 then pos else int (length (inodes u i)));
              new = base + offset in
          if new < 0 then (-1, u) else (new, u\<lparr>fds := (fds u)(fd \<mapsto> (i, new))\<rparr>))"

definition unix_read :: "int \<Rightarrow> int \<Rightarrow> Unix \<Rightarrow> int \<times> 8 word list \<times> Unix" where
  "unix_read fd n u =
     (case fds u fd of None \<Rightarrow> (-1, [], u)
      | Some (i, pos) \<Rightarrow>
          let bs = take (nat n) (drop (nat pos) (inodes u i)) in
          (int (length bs), bs, u\<lparr>fds := (fds u)(fd \<mapsto> (i, pos + int (length bs)))\<rparr>))"

definition put_bytes :: "nat \<Rightarrow> 8 word list \<Rightarrow> 8 word list \<Rightarrow> 8 word list" where
  "put_bytes p bs c = take p (c @ replicate (p - length c) 0) @ bs @ drop (p + length bs) c"

definition unix_write :: "int \<Rightarrow> 8 word list \<Rightarrow> Unix \<Rightarrow> int \<times> Unix" where
  "unix_write fd bs u =
     (case fds u fd of None \<Rightarrow> (-1, u)
      | Some (i, pos) \<Rightarrow>
          (int (length bs),
           u\<lparr>inodes := (inodes u)(i := put_bytes (nat pos) bs (inodes u i)),
             fds := (fds u)(fd \<mapsto> (i, pos + int (length bs)))\<rparr>))"

subsection \<open>The wrappers\<close>

definition OpenForWrite :: "8 word list \<Rightarrow> Unix \<Rightarrow> (int \<times> Unix) result" where
  "OpenForWrite name u =
     (let (fd, u) = unix_open True name u in rbind (ASSERT (fd \<ge> 0)) (\<lambda>_. Inr (fd, u)))"

definition OpenForReadWrite :: "8 word list \<Rightarrow> bool \<Rightarrow> Unix \<Rightarrow> (int \<times> Unix) result" where
  "OpenForReadWrite name crashOnError u =
     (let (fd, u) = unix_open False name u in
      rbind (ASSERT (\<not> crashOnError \<or> fd \<ge> 0)) (\<lambda>_. Inr (fd, u)))"

definition ReadPartial :: "int \<Rightarrow> int \<Rightarrow> Unix \<Rightarrow> int \<times> 8 word list \<times> Unix" where
  "ReadPartial fd nBytes u = unix_read fd nBytes u"

text \<open>\<open>buffer\<close> is the memory that \<^verbatim>\<open>buffer\<close> points to, up to the end of its array.\<close>

definition WriteFile :: "int \<Rightarrow> 8 word list \<Rightarrow> int \<Rightarrow> Unix \<Rightarrow> Unix result" where
  "WriteFile fd buffer nBytes u =
     (if int (length buffer) < nBytes then Inl OutOfBounds
      else let (retVal, u) = unix_write fd (take (nat nBytes) buffer) u in
           rbind (ASSERT (retVal = nBytes)) (\<lambda>_. Inr u))"

definition Lseek :: "int \<Rightarrow> int \<Rightarrow> int \<Rightarrow> Unix \<Rightarrow> Unix result" where
  "Lseek fd offset whence u =
     (let (retVal, u) = unix_lseek fd offset whence u in rbind (ASSERT (retVal \<ge> 0)) (\<lambda>_. Inr u))"

definition Tell :: "int \<Rightarrow> Unix \<Rightarrow> int \<times> Unix" where
  "Tell fd u = unix_lseek fd 0 1 u"

definition Close :: "int \<Rightarrow> Unix \<Rightarrow> Unix result" where
  "Close fd u = (let (retVal, u) = unix_close fd u in rbind (ASSERT (retVal \<ge> 0)) (\<lambda>_. Inr u))"

text \<open>\<^verbatim>\<open>Unlink\<close> returns the number of the host's call as a truth value.\<close>

definition Unlink :: "8 word list \<Rightarrow> Unix \<Rightarrow> bool \<times> Unix" where
  "Unlink name u = (let (r, u) = unix_unlink name u in (r \<noteq> 0, u))"

subsection \<open>Open files and the file system\<close>

record StubFile =
  sf_file :: int
  sf_currentOffset :: int

definition new_StubFile :: "int \<Rightarrow> StubFile" where
  "new_StubFile f = \<lparr>sf_file = f, sf_currentOffset = 0\<rparr>"

definition stub_ReadAt :: "StubFile \<Rightarrow> int \<Rightarrow> int \<Rightarrow> Unix \<Rightarrow> (int \<times> 8 word list \<times> Unix) result" where
  "stub_ReadAt f numBytes position u =
     rbind (Lseek (sf_file f) position 0 u) (\<lambda>u. Inr (ReadPartial (sf_file f) numBytes u))"

definition stub_WriteAt :: "StubFile \<Rightarrow> 8 word list \<Rightarrow> int \<Rightarrow> int \<Rightarrow> Unix \<Rightarrow> (int \<times> Unix) result" where
  "stub_WriteAt f source numBytes position u =
     rbind (Lseek (sf_file f) position 0 u) (\<lambda>u.
     rbind (WriteFile (sf_file f) source numBytes u) (\<lambda>u. Inr (numBytes, u)))"

definition stub_Read :: "StubFile \<Rightarrow> int \<Rightarrow> Unix \<Rightarrow> (int \<times> 8 word list \<times> StubFile \<times> Unix) result" where
  "stub_Read f numBytes u =
     rbind (stub_ReadAt f numBytes (sf_currentOffset f) u) (\<lambda>(numRead, bs, u).
     Inr (numRead, bs, f\<lparr>sf_currentOffset := sf_currentOffset f + numRead\<rparr>, u))"

definition stub_Write :: "StubFile \<Rightarrow> 8 word list \<Rightarrow> int \<Rightarrow> Unix \<Rightarrow> (int \<times> StubFile \<times> Unix) result" where
  "stub_Write f source numBytes u =
     rbind (stub_WriteAt f source numBytes (sf_currentOffset f) u) (\<lambda>(numWritten, u).
     Inr (numWritten, f\<lparr>sf_currentOffset := sf_currentOffset f + numWritten\<rparr>, u))"

definition stub_Length :: "StubFile \<Rightarrow> Unix \<Rightarrow> (int \<times> Unix) result" where
  "stub_Length f u = rbind (Lseek (sf_file f) 0 2 u) (\<lambda>u. Inr (Tell (sf_file f) u))"

definition stub_Create :: "8 word list \<Rightarrow> int \<Rightarrow> Unix \<Rightarrow> (bool \<times> Unix) result" where
  "stub_Create name initialSize u =
     rbind (OpenForWrite name u) (\<lambda>(fileDescriptor, u).
     if fileDescriptor = -1 then Inr (False, u)
     else rbind (Close fileDescriptor u) (\<lambda>u. Inr (True, u)))"

definition stub_Open :: "8 word list \<Rightarrow> Unix \<Rightarrow> (StubFile option \<times> Unix) result" where
  "stub_Open name u =
     rbind (OpenForReadWrite name False u) (\<lambda>(fileDescriptor, u).
     if fileDescriptor = -1 then Inr (None, u) else Inr (Some (new_StubFile fileDescriptor), u))"

definition stub_Remove :: "8 word list \<Rightarrow> Unix \<Rightarrow> bool \<times> Unix" where
  "stub_Remove name u = (let (r, u) = Unlink name u in (\<not> r, u))"

subsection \<open>Lemmas\<close>

text \<open>The contents of the file an open file stands for.\<close>

definition stub_ok :: "StubFile \<Rightarrow> nat \<Rightarrow> Unix \<Rightarrow> bool" where
  "stub_ok f i u \<longleftrightarrow> (\<exists>pos. fds u (sf_file f) = Some (i, pos))"

lemma stub_ReadAt_ok:
  assumes "stub_ok f i u" "0 \<le> p"
  obtains u' where
    "stub_ReadAt f n p u = Inr (int (length (take (nat n) (drop (nat p) (inodes u i)))),
        take (nat n) (drop (nat p) (inodes u i)), u')"
    "inodes u' = inodes u" "\<And>g j. stub_ok g j u' = stub_ok g j u" "names u' = names u"
    "next_inode u' = next_inode u" "next_fd u' = next_fd u" "dom (fds u') = dom (fds u)"
proof -
  obtain pos where "fds u (sf_file f) = Some (i, pos)" using assms(1) by (auto simp: stub_ok_def)
  with assms(2) show ?thesis
    by (intro that [of "u\<lparr>fds := (fds u)(sf_file f \<mapsto>
        (i, p + int (length (take (nat n) (drop (nat p) (inodes u i))))))\<rparr>"])
      (auto simp: stub_ReadAt_def Lseek_def unix_lseek_def ReadPartial_def unix_read_def Let_def stub_ok_def)
qed

lemma stub_WriteAt_ok:
  assumes "stub_ok f i u" "0 \<le> p" "0 \<le> n" "n \<le> int (length bs)"
  obtains u' where
    "stub_WriteAt f bs n p u = Inr (n, u')"
    "inodes u' = (inodes u)(i := put_bytes (nat p) (take (nat n) bs) (inodes u i))"
    "\<And>g j. stub_ok g j u' = stub_ok g j u" "names u' = names u"
    "next_inode u' = next_inode u" "next_fd u' = next_fd u" "dom (fds u') = dom (fds u)"
proof -
  obtain pos where "fds u (sf_file f) = Some (i, pos)" using assms(1) by (auto simp: stub_ok_def)
  moreover have "int (length (take (nat n) bs)) = n" using assms(3,4) by simp
  ultimately show ?thesis
    using assms(2-4)
    by (intro that [of "u\<lparr>inodes := (inodes u)(i := put_bytes (nat p) (take (nat n) bs) (inodes u i)),
        fds := (fds u)(sf_file f \<mapsto> (i, p + n))\<rparr>"])
      (auto simp: stub_WriteAt_def Lseek_def unix_lseek_def WriteFile_def unix_write_def Let_def stub_ok_def
        simp del: length_take)
qed

lemma put_bytes_inside:
  "p + length bs \<le> length c \<Longrightarrow> put_bytes p bs c = take p c @ bs @ drop (p + length bs) c"
  by (simp add: put_bytes_def)

lemma length_put_bytes: "length (put_bytes p bs c) = max (length c) (p + length bs)"
  by (simp add: put_bytes_def)

lemma min_pad: "min a p + (p - a) = p" for a p :: nat
  by simp

lemma nth_put_bytes:
  "k < length (put_bytes p bs c) \<Longrightarrow> put_bytes p bs c ! k =
     (if p \<le> k \<and> k < p + length bs then bs ! (k - p) else if k < length c then c ! k else 0)"
  using min_pad [of "length c" p] by (auto simp: put_bytes_def nth_append)

text \<open>A block inside the written bytes reads back; a block outside them is unchanged.\<close>

lemma put_bytes_read: "take (length bs) (drop p (put_bytes p bs c)) = bs"
  by (simp add: put_bytes_def)

lemma put_bytes_other:
  assumes "q + m \<le> length c" "q + m \<le> p \<or> p + length bs \<le> q"
  shows "take m (drop q (put_bytes p bs c)) = take m (drop q c)"
  using assms by (intro nth_equalityI) (auto simp: length_put_bytes nth_put_bytes)

text \<open>Creating a file, new or not, and opening it gives an empty file.\<close>

lemma stub_create_open:
  obtains f i u1 u2 where "stub_Create name sz u = Inr (True, u1)" "stub_Open name u1 = Inr (Some f, u2)"
    "names u2 = (names u)(name \<mapsto> i)" "stub_ok f i u2" "inodes u2 = (inodes u)(i := [])"
    "i = (case names u name of None \<Rightarrow> next_inode u | Some j \<Rightarrow> j)"
    "\<And>fd. fd < int (next_fd u) \<Longrightarrow> fds u2 fd = fds u fd"
proof -
  let ?fd = "int (next_fd u)"
  define i where "i = (case names u name of None \<Rightarrow> next_inode u | Some j \<Rightarrow> j)"
  define u1 where "u1 = u\<lparr>names := (names u)(name \<mapsto> i), inodes := (inodes u)(i := []),
      next_inode := (if names u name = None then Suc (next_inode u) else next_inode u),
      fds := (fds u)(?fd := None), next_fd := Suc (next_fd u)\<rparr>"
  have u1: "stub_Create name sz u = Inr (True, u1)"
  proof (cases "names u name")
    case None
    then show ?thesis
      by (simp add: stub_Create_def OpenForWrite_def unix_open_def new_fd_def Close_def unix_close_def
          u1_def i_def)
  next
    case (Some j)
    then have "(names u)(name \<mapsto> j) = names u" by auto
    with Some show ?thesis
      by (simp add: stub_Create_def OpenForWrite_def unix_open_def new_fd_def Close_def unix_close_def
          u1_def i_def)
  qed
  obtain f u2 where f: "f = new_StubFile (int (next_fd u1))"
      "u2 = u1\<lparr>fds := (fds u1)(int (next_fd u1) \<mapsto> (i, 0)), next_fd := Suc (next_fd u1)\<rparr>"
    by blast
  have "stub_Open name u1 = Inr (Some f, u2)"
    by (simp add: stub_Open_def OpenForReadWrite_def unix_open_def new_fd_def f u1_def)
  moreover have "stub_ok f i u2" by (simp add: f new_StubFile_def stub_ok_def)
  moreover have "names u2 = (names u)(name \<mapsto> i)" "inodes u2 = (inodes u)(i := [])" by (simp_all add: f u1_def)
  moreover have "fds u2 fd = fds u fd" if "fd < int (next_fd u)" for fd using that by (simp add: f u1_def)
  ultimately show ?thesis using u1 i_def by (intro that [of u1 f u2 i])
qed

end
