(* ===== verification/Virtual_Memory.thy ===== *)
theory Virtual_Memory
  imports Translation Replacement Stub_Files
begin

text \<open>
  Demand paging: the swap space of \<^verbatim>\<open>vm/swapManager.cc\<close> and the virtual memory manager of
  \<^verbatim>\<open>vm/vmManager.cc\<close>, in the build of \<^verbatim>\<open>vm/Makefile\<close> (\<^verbatim>\<open>VM\<close>, \<^verbatim>\<open>FILESYS_STUB\<close>).

  \<^item> The record \<open>vm\<close> holds the global variables \<^verbatim>\<open>memMgr\<close> and \<^verbatim>\<open>diskBuffer\<close>, the files of the host, and the
    private data of \<^verbatim>\<open>SwapManager\<close> and \<^verbatim>\<open>VMManager\<close>. It is the component \<open>kern\<close> of the machine; an
    element of \<^verbatim>\<open>activePages\<close> is a pointer to a translation entry, or null.
  \<^item> The policy is reached through its table of virtual functions, the argument \<open>P\<close>.
  \<^item> \<open>vm_frame\<close> is what \<^verbatim>\<open>Machine::Translate\<close> does to find the frame of an entry in this build; it is
    the argument \<open>fr\<close> of \<open>Translate\<close>.
  \<^item> \<open>page_bytes\<close> is the content of a page, wherever it is: in its frame while it is active, in the swap
    file otherwise. \<open>vm_ok\<close> is the invariant. For every policy that meets the contract
    \<open>replacement_policy\<close>, bringing a page in keeps the invariant and the content of all pages.
\<close>

definition SWAP_SIZE :: int where
  "SWAP_SIZE = 512"

record 'p vm =
  host :: Unix
  diskBuffer :: "8 word list"
  memMgr :: memoryManager
  swapFile :: "StubFile option"
  swapMap :: bitmap
  policy :: 'p
  activePageMap :: "int list"
  activePages :: "entry_ptr option list"

subsection \<open>Memory copies\<close>

text \<open>
  \<open>fill_buffer\<close> copies to the start of \<^verbatim>\<open>diskBuffer\<close>; \<open>main_get\<close> and \<open>main_put\<close> copy from and to
  \<^verbatim>\<open>machine->mainMemory\<close>.
\<close>

definition fill_buffer :: "8 word list \<Rightarrow> ('p, 'x) vm_scheme hw \<Rightarrow> ('p, 'x) vm_scheme hw result" where
  "fill_buffer bs s =
     (if length bs \<le> length (diskBuffer (kern s))
      then Inr (s\<lparr>kern := (kern s)\<lparr>diskBuffer := bs @ drop (length bs) (diskBuffer (kern s))\<rparr>\<rparr>)
      else Inl OutOfBounds)"

definition main_get :: "int \<Rightarrow> int \<Rightarrow> 'k hw \<Rightarrow> 8 word list result" where
  "main_get a n s =
     (if 0 \<le> a \<and> 0 \<le> n \<and> a + n \<le> MemorySize then Inr (mem_bytes (mainMemory s) (nat a) (nat n))
      else Inl OutOfBounds)"

definition main_put :: "int \<Rightarrow> 8 word list \<Rightarrow> 'k hw \<Rightarrow> 'k hw result" where
  "main_put a bs s =
     (if 0 \<le> a \<and> a + int (length bs) \<le> MemorySize
      then Inr (s\<lparr>mainMemory := mem_put (mainMemory s) (nat a) bs\<rparr>) else Inl OutOfBounds)"

subsection \<open>Swap manager\<close>

definition swap_name :: "8 word list" where
  "swap_name = [0x53, 0x57, 0x41, 0x50]"

definition new_SwapManager ::
    "(nat \<Rightarrow> 32 word) \<Rightarrow> ('p, 'x) vm_scheme hw \<Rightarrow> ('p, 'x) vm_scheme hw result" where
  "new_SwapManager garbage s =
     rbind (stub_Create swap_name (SWAP_SIZE * PageSize) (host (kern s))) (\<lambda>(_, u).
     rbind (stub_Open swap_name u) (\<lambda>(f, u).
     rbind (BitMap garbage SWAP_SIZE) (\<lambda>b.
     Inr (s\<lparr>kern := (kern s)\<lparr>host := u, swapFile := f, swapMap := b\<rparr>\<rparr>))))"

definition delete_SwapManager :: "('p, 'x) vm_scheme hw \<Rightarrow> ('p, 'x) vm_scheme hw" where
  "delete_SwapManager s =
     s\<lparr>kern := (kern s)\<lparr>host := snd (stub_Remove swap_name (host (kern s)))\<rparr>\<rparr>"

definition swap_ReadAt ::
    "int \<Rightarrow> int \<Rightarrow> ('p, 'x) vm_scheme hw \<Rightarrow> (8 word list \<times> ('p, 'x) vm_scheme hw) result" where
  "swap_ReadAt n position s =
     (case swapFile (kern s) of None \<Rightarrow> Inl NullPointer
      | Some f \<Rightarrow>
          rbind (stub_ReadAt f n position (host (kern s))) (\<lambda>(_, bs, u).
          Inr (bs, s\<lparr>kern := (kern s)\<lparr>host := u\<rparr>\<rparr>)))"

definition swap_WriteAt ::
    "8 word list \<Rightarrow> int \<Rightarrow> int \<Rightarrow> ('p, 'x) vm_scheme hw \<Rightarrow> ('p, 'x) vm_scheme hw result" where
  "swap_WriteAt buffer n position s =
     (case swapFile (kern s) of None \<Rightarrow> Inl NullPointer
      | Some f \<Rightarrow>
          rbind (stub_WriteAt f buffer n position (host (kern s))) (\<lambda>(_, u).
          Inr (s\<lparr>kern := (kern s)\<lparr>host := u\<rparr>\<rparr>)))"

definition sw_allocPage :: "('p, 'x) vm_scheme hw \<Rightarrow> (int \<times> ('p, 'x) vm_scheme hw) result" where
  "sw_allocPage s =
     rbind (Find (swapMap (kern s))) (\<lambda>(page, b).
     rbind (ASSERT (page \<ge> 0)) (\<lambda>_.
     rbind (fill_buffer (replicate (nat PageSize) 0) (s\<lparr>kern := (kern s)\<lparr>swapMap := b\<rparr>\<rparr>)) (\<lambda>s.
     rbind (swap_WriteAt (diskBuffer (kern s)) PageSize (page * PageSize) s) (\<lambda>s.
     Inr (page, s)))))"

definition sw_writePage ::
    "int \<Rightarrow> 8 word list \<Rightarrow> int \<Rightarrow> int \<Rightarrow> ('p, 'x) vm_scheme hw \<Rightarrow> ('p, 'x) vm_scheme hw result" where
  "sw_writePage sPage buffer sz offset s = swap_WriteAt buffer sz (sPage * PageSize + offset) s"

definition sw_swap :: "int \<Rightarrow> int \<Rightarrow> ('p, 'x) vm_scheme hw \<Rightarrow> ('p, 'x) vm_scheme hw result" where
  "sw_swap pPageNum sPageNum s =
     rbind (swap_ReadAt PageSize (sPageNum * PageSize) s) (\<lambda>(bs, s).
     rbind (fill_buffer bs s) (\<lambda>s.
     main_put (pPageNum * PageSize) (take (nat PageSize) (diskBuffer (kern s))) s))"

definition sw_copy :: "int \<Rightarrow> int \<Rightarrow> ('p, 'x) vm_scheme hw \<Rightarrow> ('p, 'x) vm_scheme hw result" where
  "sw_copy fromPage toPage s =
     rbind (swap_ReadAt PageSize (fromPage * PageSize) s) (\<lambda>(bs, s).
     rbind (fill_buffer bs s) (\<lambda>s.
     swap_WriteAt (diskBuffer (kern s)) PageSize (toPage * PageSize) s))"

definition sw_clearPage :: "int \<Rightarrow> ('p, 'x) vm_scheme hw \<Rightarrow> ('p, 'x) vm_scheme hw result" where
  "sw_clearPage sPage s =
     rbind (fill_buffer (replicate (nat PageSize) 0) s) (\<lambda>s.
     rbind (swap_WriteAt (diskBuffer (kern s)) PageSize (sPage * PageSize) s) (\<lambda>s.
     rbind (Clear (swapMap (kern s)) sPage) (\<lambda>b.
     Inr (s\<lparr>kern := (kern s)\<lparr>swapMap := b\<rparr>\<rparr>))))"

definition sw_getFreePageCount :: "('p, 'x) vm_scheme hw \<Rightarrow> int result" where
  "sw_getFreePageCount s = NumClear (swapMap (kern s))"

subsection \<open>Virtual memory manager\<close>

text \<open>The constructor; \<open>p\<close> is the new policy object.\<close>

definition new_VMManager ::
    "(nat \<Rightarrow> 32 word) \<Rightarrow> 'p \<Rightarrow> ('p, 'x) vm_scheme hw \<Rightarrow> ('p, 'x) vm_scheme hw result" where
  "new_VMManager garbage p s =
     rbind (new_SwapManager garbage s) (\<lambda>s.
     Inr (s\<lparr>kern := (kern s)\<lparr>policy := p, activePageMap := replicate (nat NumPhysPages) (-1),
                           activePages := replicate (nat NumPhysPages) None\<rparr>\<rparr>))"

definition vm_getPage :: "('p, 'x) vm_scheme hw \<Rightarrow> (int \<times> ('p, 'x) vm_scheme hw) result" where
  "vm_getPage s = sw_allocPage s"

definition vm_writePage ::
    "int \<Rightarrow> 8 word list \<Rightarrow> int \<Rightarrow> int \<Rightarrow> ('p, 'x) vm_scheme hw \<Rightarrow> ('p, 'x) vm_scheme hw result" where
  "vm_writePage pPage buffer sz offset s = sw_writePage pPage buffer sz offset s"

text \<open>
  The first half of \<^verbatim>\<open>VMManager::swap\<close>: a free frame, or the frame of a victim, whose content is
  written to the swap file when the entry says that it was changed. \<open>evict\<close> is the part
  for the victim.
\<close>

definition evict :: "int \<Rightarrow> ('p, 'x) vm_scheme hw \<Rightarrow> ('p, 'x) vm_scheme hw result" where
  "evict pPage s =
     rbind (aget (activePages (kern s)) pPage) (\<lambda>old.
     case old of None \<Rightarrow> Inl NullPointer
     | Some q \<Rightarrow>
         rbind (get_entry q s) (\<lambda>e.
         rbind (set_entry q (e\<lparr>use := False\<rparr>) s) (\<lambda>s.
         if dirty e
         then rbind (set_entry q (e\<lparr>use := False, dirty := False\<rparr>) s) (\<lambda>s.
              rbind (main_get (pPage * PageSize) PageSize s) (\<lambda>bs.
              rbind (fill_buffer bs s) (\<lambda>s.
              rbind (aget (activePageMap (kern s)) pPage) (\<lambda>sp.
              sw_writePage sp (diskBuffer (kern s)) PageSize 0 s))))
         else Inr s)))"

definition take_frame ::
    "'p IReplacement \<Rightarrow> ('p, 'x) vm_scheme hw \<Rightarrow> (int \<times> ('p, 'x) vm_scheme hw) result" where
  "take_frame P s =
     rbind (getFreePageCount (memMgr (kern s))) (\<lambda>n.
     if n > 0
     then rbind (getPage (memMgr (kern s))) (\<lambda>(pPage, m).
          rbind (pageUsed P pPage (policy (kern s))) (\<lambda>p.
          Inr (pPage, s\<lparr>kern := (kern s)\<lparr>memMgr := m, policy := p\<rparr>\<rparr>)))
     else rbind (getReplacement P (policy (kern s))) (\<lambda>(pPage, p).
          rbind (evict pPage (s\<lparr>kern := (kern s)\<lparr>policy := p\<rparr>\<rparr>)) (\<lambda>s. Inr (pPage, s))))"

definition vm_swap ::
    "'p IReplacement \<Rightarrow> entry_ptr \<Rightarrow> ('p, 'x) vm_scheme hw \<Rightarrow> (int \<times> ('p, 'x) vm_scheme hw) result" where
  "vm_swap P newPage s =
     rbind (get_entry newPage s) (\<lambda>e.
     rbind (take_frame P s) (\<lambda>(pPage, s).
     rbind (sw_swap pPage (physicalPage e) s) (\<lambda>s.
     rbind (aset (activePageMap (kern s)) pPage (physicalPage e)) (\<lambda>am.
     rbind (aset (activePages (kern s)) pPage (Some newPage)) (\<lambda>ap.
     Inr (pPage, s\<lparr>kern := (kern s)\<lparr>activePageMap := am, activePages := ap\<rparr>\<rparr>))))))"

definition vm_copy :: "int \<Rightarrow> int \<Rightarrow> ('p, 'x) vm_scheme hw \<Rightarrow> ('p, 'x) vm_scheme hw result" where
  "vm_copy fromPage toPage s = sw_copy fromPage toPage s"

definition vm_getPhysicalPage ::
    "'p IReplacement \<Rightarrow> entry_ptr \<Rightarrow> ('p, 'x) vm_scheme hw \<Rightarrow> (int \<times> ('p, 'x) vm_scheme hw) result" where
  "vm_getPhysicalPage P page s =
     rbind (get_entry page s) (\<lambda>e.
     rbind (find_slot (activePageMap (kern s)) (physicalPage e) [0..NumPhysPages - 1]) (\<lambda>i.
     if i < NumPhysPages then Inr (i, s) else vm_swap P page s))"

definition vm_clearPage ::
    "'p IReplacement \<Rightarrow> int \<Rightarrow> ('p, 'x) vm_scheme hw \<Rightarrow> ('p, 'x) vm_scheme hw result" where
  "vm_clearPage P sPage s =
     rbind (find_slot (activePageMap (kern s)) sPage [0..NumPhysPages - 1]) (\<lambda>pPage.
     rbind (if pPage < NumPhysPages
            then rbind (aset (activePageMap (kern s)) pPage (-1)) (\<lambda>am.
                 rbind (aset (activePages (kern s)) pPage None) (\<lambda>ap.
                 Inr (s\<lparr>kern := (kern s)\<lparr>activePageMap := am, activePages := ap\<rparr>\<rparr>)))
            else Inr s) (\<lambda>s.
     rbind (mm_clearPage (memMgr (kern s)) pPage) (\<lambda>m.
     rbind (sw_clearPage sPage (s\<lparr>kern := (kern s)\<lparr>memMgr := m\<rparr>\<rparr>)) (\<lambda>s.
     rbind (clearPage P pPage (policy (kern s))) (\<lambda>p.
     Inr (s\<lparr>kern := (kern s)\<lparr>policy := p\<rparr>\<rparr>))))))"

definition vm_getFreePageCount :: "('p, 'x) vm_scheme hw \<Rightarrow> int result" where
  "vm_getFreePageCount s = sw_getFreePageCount s"

definition vm_markPage ::
    "'p IReplacement \<Rightarrow> int \<Rightarrow> ('p, 'x) vm_scheme hw \<Rightarrow> ('p, 'x) vm_scheme hw result" where
  "vm_markPage P pPage s =
     rbind (markPage P pPage (policy (kern s))) (\<lambda>p. Inr (s\<lparr>kern := (kern s)\<lparr>policy := p\<rparr>\<rparr>))"

text \<open>The frame lookup of \<^verbatim>\<open>Machine::Translate\<close> in this build.\<close>

definition vm_frame ::
    "'p IReplacement \<Rightarrow> entry_ptr \<Rightarrow> ('p, 'x) vm_scheme hw \<Rightarrow> (32 word \<times> ('p, 'x) vm_scheme hw) result" where
  "vm_frame P ent s =
     rbind (vm_getPhysicalPage P ent s) (\<lambda>(f, s).
     rbind (vm_markPage P f s) (\<lambda>s. Inr (word_of_int f, s)))"

subsection \<open>Contents of pages and the invariant\<close>

definition frame_bytes :: "'k hw \<Rightarrow> nat \<Rightarrow> 8 word list" where
  "frame_bytes s k = mem_bytes (mainMemory s) (k * 128) 128"

text \<open>\<open>i\<close> is the number of the swap file on the host.\<close>

definition swap_bytes :: "nat \<Rightarrow> ('p, 'x) vm_scheme hw \<Rightarrow> int \<Rightarrow> 8 word list" where
  "swap_bytes i s sp = take 128 (drop (nat sp * 128) (inodes (host (kern s)) i))"

definition page_bytes :: "nat \<Rightarrow> ('p, 'x) vm_scheme hw \<Rightarrow> int \<Rightarrow> 8 word list" where
  "page_bytes i s sp =
     (case map_of (zip (activePageMap (kern s)) [0..<32]) sp of
        Some k \<Rightarrow> frame_bytes s k | None \<Rightarrow> swap_bytes i s sp)"

definition swap_used :: "('p, 'x) vm_scheme hw \<Rightarrow> int set" where
  "swap_used s = marked (swapMap (kern s))"

definition active :: "('p, 'x) vm_scheme hw \<Rightarrow> int set" where
  "active s = {int k |k. k < 32 \<and> activePageMap (kern s) ! k \<noteq> -1}"

text \<open>An occupied frame holds one page, which no other frame holds; unless its entry is dirty, the swap file has a copy.\<close>

definition slot_ok :: "nat \<Rightarrow> ('p, 'x) vm_scheme hw \<Rightarrow> nat \<Rightarrow> bool" where
  "slot_ok i s k \<longleftrightarrow>
     (let sp = activePageMap (kern s) ! k in
      sp \<noteq> -1 \<longrightarrow> sp \<in> swap_used s \<and> (\<forall>j<32. activePageMap (kern s) ! j = sp \<longrightarrow> j = k) \<and>
        (\<exists>q e. activePages (kern s) ! k = Some q \<and> get_entry q s = Inr e \<and> physicalPage e = sp \<and>
           (dirty e \<or> frame_bytes s k = swap_bytes i s sp)))"

definition vm_base :: "nat \<Rightarrow> ('p, 'x) vm_scheme hw \<Rightarrow> bool" where
  "vm_base i s \<longleftrightarrow>
     length (activePageMap (kern s)) = 32 \<and> length (activePages (kern s)) = 32 \<and>
     length (diskBuffer (kern s)) = 128 \<and>
     bm_wf (swapMap (kern s)) \<and> numBits (swapMap (kern s)) = 512 \<and>
     (\<exists>f. swapFile (kern s) = Some f \<and> stub_ok f i (host (kern s))) \<and>
     (\<forall>sp\<in>swap_used s. nat sp * 128 + 128 \<le> length (inodes (host (kern s)) i))"

definition vm_ok ::
    "('p \<Rightarrow> bool) \<Rightarrow> ('p \<Rightarrow> int set) \<Rightarrow> nat \<Rightarrow> ('p, 'x) vm_scheme hw \<Rightarrow> bool" where
  "vm_ok invar pages i s \<longleftrightarrow>
     vm_base i s \<and> mm_wf (memMgr (kern s)) \<and> invar (policy (kern s)) \<and>
     pages (policy (kern s)) = active s \<and> frames_used (memMgr (kern s)) = active s \<and>
     (\<forall>k<32. slot_ok i s k)"

text \<open>Two states with the same translation entries up to the use and dirty bits.\<close>

definition same_map :: "'k hw \<Rightarrow> 'k hw \<Rightarrow> bool" where
  "same_map s s' \<longleftrightarrow>
     (\<forall>q. \<exists>u d. get_entry q s' = map_sum id (\<lambda>e. e\<lparr>use := u, dirty := d\<rparr>) (get_entry q s)) \<and>
     (mmu_wf s \<longrightarrow> mmu_wf s' \<and> (\<forall>vpn. find_entry vpn s' = find_entry vpn s)) \<and>
     registers s' = registers s"

lemma same_map_entry:
  assumes "same_map s s'" "get_entry q s = Inr e"
  obtains u d where "get_entry q s' = Inr (e\<lparr>use := u, dirty := d\<rparr>)"
  using assms unfolding same_map_def by (metis map_sum.simps(2))

lemma same_map_back:
  assumes "same_map s s'" "get_entry q s' = Inr e"
  obtains u d e0 where "get_entry q s = Inr e0" "e = e0\<lparr>use := u, dirty := d\<rparr>"
proof -
  obtain u d where "get_entry q s' = map_sum id (\<lambda>e. e\<lparr>use := u, dirty := d\<rparr>) (get_entry q s)"
    using assms(1) unfolding same_map_def by blast
  with assms(2) that show thesis by (cases "get_entry q s") auto
qed

lemma bits_self: "\<exists>u d. x = map_sum id (\<lambda>e. e\<lparr>use := u, dirty := d\<rparr>) x" for x :: "fault + TranslationEntry"
proof (cases x)
  case (Inr e)
  have "e = e\<lparr>use := use e, dirty := dirty e\<rparr>" by simp
  then have "x = map_sum id (\<lambda>e'. e'\<lparr>use := use e, dirty := dirty e\<rparr>) x" using Inr by simp
  then show ?thesis by blast
qed simp

lemma same_map_refl [simp]: "same_map s s"
  using bits_self by (simp add: same_map_def)

lemma same_map_trans:
  assumes "same_map s s1" "same_map s1 s2" shows "same_map s s2"
proof -
  have "\<exists>u d. get_entry q s2 = map_sum id (\<lambda>e. e\<lparr>use := u, dirty := d\<rparr>) (get_entry q s)" for q
  proof -
    obtain u d where 1: "get_entry q s1 = map_sum id (\<lambda>e. e\<lparr>use := u, dirty := d\<rparr>) (get_entry q s)"
      using assms(1) unfolding same_map_def by blast
    obtain u' d' where 2: "get_entry q s2 = map_sum id (\<lambda>e. e\<lparr>use := u', dirty := d'\<rparr>) (get_entry q s1)"
      using assms(2) unfolding same_map_def by blast
    have "get_entry q s2 = map_sum id (\<lambda>e. e\<lparr>use := u', dirty := d'\<rparr>) (get_entry q s)"
      unfolding 2 1 by (cases "get_entry q s") simp_all
    then show ?thesis by blast
  qed
  with assms show ?thesis by (simp add: same_map_def)
qed

lemma get_entry_cong:
  "get_entry q (s\<lparr>kern := v\<rparr>) = get_entry q s" "get_entry q (s\<lparr>mainMemory := m\<rparr>) = get_entry q s"
  "mmu_wf (s\<lparr>kern := v\<rparr>) = mmu_wf s" "find_entry vpn (s\<lparr>kern := v\<rparr>) = find_entry vpn s"
  by (auto simp: get_entry_def mmu_wf_def find_entry_def split: option.splits entry_ptr.splits)

lemma same_map_upd [simp]:
  "same_map s (s'\<lparr>kern := v\<rparr>) = same_map s s'" "same_map s (s'\<lparr>mainMemory := m\<rparr>) = same_map s s'"
  by (simp_all add: same_map_def get_entry_cong set_entry_memory)

lemma set_entry_other:
  assumes "set_entry q e s = Inr s'" shows "get_entry r s' = (if r = q then Inr e else get_entry r s)"
  using assms
  by (cases q; cases r) (auto simp: get_entry_def set_entry_def aget_def aset_def split: option.splits if_splits)

lemma set_entry_exists: "get_entry q s = Inr e \<Longrightarrow> \<exists>s'. set_entry q e' s = Inr s'"
  by (cases q) (auto simp: get_entry_def set_entry_def aget_def aset_def split: option.splits if_splits)

lemma same_map_set:
  assumes "get_entry q s = Inr e" "set_entry q (e\<lparr>use := u, dirty := d\<rparr>) s = Inr s'"
  shows "same_map s s'"
proof -
  have "\<exists>u d. get_entry r s' = map_sum id (\<lambda>e. e\<lparr>use := u, dirty := d\<rparr>) (get_entry r s)" for r
  proof (cases "r = q")
    case True
    then have "get_entry r s' = map_sum id (\<lambda>e. e\<lparr>use := u, dirty := d\<rparr>) (get_entry r s)"
      using assms set_entry_other [OF assms(2), of r] by simp
    then show ?thesis by blast
  next
    case False
    then show ?thesis using bits_self [of "get_entry r s"] set_entry_other [OF assms(2), of r] by simp
  qed
  with assms set_entry_keeps [OF _ assms] set_entry_frame [OF assms(2)] show ?thesis
    by (simp add: same_map_def)
qed

subsection \<open>Reading and writing whole pages of the swap file\<close>

lemma swap_used_range: "vm_base i s \<Longrightarrow> sp \<in> swap_used s \<Longrightarrow> 0 \<le> sp \<and> sp < 512"
  using marked_subset [of "swapMap (kern s)"] by (auto simp: vm_base_def swap_used_def)

lemma length_swap_bytes: "vm_base i s \<Longrightarrow> sp \<in> swap_used s \<Longrightarrow> length (swap_bytes i s sp) = 128"
  by (auto simp: vm_base_def swap_bytes_def)

lemma length_frame_bytes [simp]: "length (frame_bytes s k) = 128"
  by (simp add: frame_bytes_def)

text \<open>What the file operations leave alone.\<close>

definition vm_keeps :: "('p, 'x) vm_scheme hw \<Rightarrow> ('p, 'x) vm_scheme hw \<Rightarrow> bool" where
  "vm_keeps s s' \<longleftrightarrow> (\<exists>u buf m. s' = s\<lparr>mainMemory := m, kern := (kern s)\<lparr>host := u, diskBuffer := buf\<rparr>\<rparr>)"

lemma vm_keepsD:
  assumes "vm_keeps s s'"
  shows "activePageMap (kern s') = activePageMap (kern s)" "activePages (kern s') = activePages (kern s)"
    "policy (kern s') = policy (kern s)" "memMgr (kern s') = memMgr (kern s)"
    "swapMap (kern s') = swapMap (kern s)" "swap_used s' = swap_used s" "active s' = active s"
    "get_entry q s' = get_entry q s" "same_map s s'" "vm.more (kern s') = vm.more (kern s)"
    "swapFile (kern s') = swapFile (kern s)"
  using assms
  by (auto simp: vm_keeps_def swap_used_def active_def get_entry_cong set_entry_memory)

lemma vm_keeps_trans: "vm_keeps s s1 \<Longrightarrow> vm_keeps s1 s2 \<Longrightarrow> vm_keeps s s2"
  unfolding vm_keeps_def by force

lemma swap_write_page:
  assumes base: "vm_base i s" and sp: "sp \<in> swap_used s" and bs: "length bs = 128"
  obtains s' where "swap_WriteAt bs 128 (sp * 128) s = Inr s'" "vm_base i s'" "vm_keeps s s'"
    "mainMemory s' = mainMemory s" "diskBuffer (kern s') = diskBuffer (kern s)"
    "swap_bytes i s' sp = bs" "\<And>sq. sq \<in> swap_used s \<Longrightarrow> sq \<noteq> sp \<Longrightarrow> swap_bytes i s' sq = swap_bytes i s sq"
proof -
  obtain f where f: "swapFile (kern s) = Some f" "stub_ok f i (host (kern s))"
    using base by (auto simp: vm_base_def)
  have r: "0 \<le> sp" "sp < 512" using swap_used_range [OF base sp] by auto
  have pos: "nat (sp * 128) = nat sp * 128" by (simp add: nat_mult_distrib r)
  obtain u where u: "stub_WriteAt f bs 128 (sp * 128) (host (kern s)) = Inr (128, u)"
      "inodes u = (inodes (host (kern s)))(i := put_bytes (nat (sp * 128)) (take (nat 128) bs) (inodes (host (kern s)) i))"
      "\<And>g j. stub_ok g j u = stub_ok g j (host (kern s))"
    by (rule stub_WriteAt_ok [OF f(2), of "sp * 128" 128 bs]) (use r bs in auto)
  define s' where "s' = s\<lparr>kern := (kern s)\<lparr>host := u\<rparr>\<rparr>"
  have c: "inodes u i = put_bytes (nat sp * 128) bs (inodes (host (kern s)) i)"
    using u(2) bs pos by simp
  show thesis
  proof (rule that)
    show "swap_WriteAt bs 128 (sp * 128) s = Inr s'" using f(1) u(1) by (simp add: swap_WriteAt_def s'_def)
    show "vm_base i s'"
      using base u(3) c by (auto simp: vm_base_def s'_def swap_used_def length_put_bytes)
    show "vm_keeps s s'" "mainMemory s' = mainMemory s" "diskBuffer (kern s') = diskBuffer (kern s)"
      by (auto simp: vm_keeps_def s'_def intro!: exI [of _ u] exI [of _ "diskBuffer (kern s)"] exI [of _ "mainMemory s"])
    show "swap_bytes i s' sp = bs" using put_bytes_read [of bs] bs by (simp add: swap_bytes_def s'_def c)
    show "swap_bytes i s' sq = swap_bytes i s sq" if sq: "sq \<in> swap_used s" "sq \<noteq> sp" for sq
    proof -
      have "nat sq \<noteq> nat sp" using sq r swap_used_range [OF base sq(1)] by linarith
      then have "nat sq * 128 + 128 \<le> nat sp * 128 \<or> nat sp * 128 + length bs \<le> nat sq * 128"
        using bs by linarith
      moreover have "nat sq * 128 + 128 \<le> length (inodes (host (kern s)) i)"
        using base sq(1) by (simp add: vm_base_def)
      ultimately show ?thesis using put_bytes_other by (simp add: swap_bytes_def s'_def c)
    qed
  qed
qed

lemma swap_read_page:
  assumes base: "vm_base i s" and sp: "sp \<in> swap_used s"
  obtains s' where "swap_ReadAt 128 (sp * 128) s = Inr (swap_bytes i s sp, s')" "vm_base i s'" "vm_keeps s s'"
    "mainMemory s' = mainMemory s" "diskBuffer (kern s') = diskBuffer (kern s)" "swap_bytes i s' = swap_bytes i s"
proof -
  obtain f where f: "swapFile (kern s) = Some f" "stub_ok f i (host (kern s))"
    using base by (auto simp: vm_base_def)
  have r: "0 \<le> sp" "sp < 512" using swap_used_range [OF base sp] by auto
  have pos: "nat (sp * 128) = nat sp * 128" by (simp add: nat_mult_distrib r)
  obtain u where u: "stub_ReadAt f 128 (sp * 128) (host (kern s)) =
        Inr (int (length (take (nat 128) (drop (nat (sp * 128)) (inodes (host (kern s)) i)))),
          take (nat 128) (drop (nat (sp * 128)) (inodes (host (kern s)) i)), u)"
      "inodes u = inodes (host (kern s))" "\<And>g j. stub_ok g j u = stub_ok g j (host (kern s))"
    by (rule stub_ReadAt_ok [OF f(2), of "sp * 128" 128]) (use r in auto)
  define s' where "s' = s\<lparr>kern := (kern s)\<lparr>host := u\<rparr>\<rparr>"
  show thesis
  proof (rule that)
    show "swap_ReadAt 128 (sp * 128) s = Inr (swap_bytes i s sp, s')"
      using f(1) u(1) pos by (simp add: swap_ReadAt_def s'_def swap_bytes_def)
    show "vm_base i s'" using base u(2,3) by (simp add: vm_base_def s'_def swap_used_def)
    show "vm_keeps s s'" "mainMemory s' = mainMemory s" "diskBuffer (kern s') = diskBuffer (kern s)"
      by (auto simp: vm_keeps_def s'_def intro!: exI [of _ u] exI [of _ "diskBuffer (kern s)"] exI [of _ "mainMemory s"])
    show "swap_bytes i s' = swap_bytes i s" using u(2) by (simp add: fun_eq_iff swap_bytes_def s'_def)
  qed
qed

lemma fill_buffer_page:
  assumes "vm_base i s" "length bs = 128"
  obtains s' where "fill_buffer bs s = Inr s'" "vm_base i s'" "vm_keeps s s'" "mainMemory s' = mainMemory s"
    "diskBuffer (kern s') = bs" "swap_bytes i s' = swap_bytes i s"
proof (rule that)
  let ?s = "s\<lparr>kern := (kern s)\<lparr>diskBuffer := bs\<rparr>\<rparr>"
  show "fill_buffer bs s = Inr ?s" using assms by (simp add: fill_buffer_def vm_base_def)
  show "vm_base i ?s" using assms by (simp add: vm_base_def swap_used_def)
  show "vm_keeps s ?s" "mainMemory ?s = mainMemory s" "diskBuffer (kern ?s) = bs"
    by (auto simp: vm_keeps_def intro!: exI [of _ "host (kern s)"] exI [of _ bs] exI [of _ "mainMemory s"])
  show "swap_bytes i ?s = swap_bytes i s" by (simp add: fun_eq_iff swap_bytes_def)
qed

text \<open>Copying a page into a frame.\<close>

lemma frame_put:
  assumes "length bs = 128" and m: "m = mem_put (mainMemory s) (k * 128) bs"
  shows "frame_bytes (s\<lparr>mainMemory := m\<rparr>) k = bs"
    and "j \<noteq> k \<Longrightarrow> frame_bytes (s\<lparr>mainMemory := m\<rparr>) j = frame_bytes s j"
proof -
  show "frame_bytes (s\<lparr>mainMemory := m\<rparr>) k = bs"
    using mem_bytes_put [of "mainMemory s" "k * 128" bs] assms by (simp add: frame_bytes_def)
  assume "j \<noteq> k"
  then have "j * 128 + 128 \<le> k * 128 \<or> k * 128 + 128 \<le> j * 128" by linarith
  then have "m (j * 128 + n) = mainMemory s (j * 128 + n)" if "n < 128" for n
    using that assms by (auto intro!: mem_put_other)
  then show "frame_bytes (s\<lparr>mainMemory := m\<rparr>) j = frame_bytes s j"
    by (simp add: frame_bytes_def mem_bytes_def)
qed

lemma sw_swap_ok:
  assumes base: "vm_base i s" and sp: "sp \<in> swap_used s" and k: "k < 32"
  obtains s' where "sw_swap (int k) sp s = Inr s'" "vm_base i s'" "vm_keeps s s'"
    "frame_bytes s' k = swap_bytes i s sp" "\<And>j. j \<noteq> k \<Longrightarrow> frame_bytes s' j = frame_bytes s j"
    "swap_bytes i s' = swap_bytes i s"
proof -
  obtain s1 where 1: "swap_ReadAt 128 (sp * 128) s = Inr (swap_bytes i s sp, s1)" "vm_base i s1" "vm_keeps s s1"
      "mainMemory s1 = mainMemory s" "diskBuffer (kern s1) = diskBuffer (kern s)" "swap_bytes i s1 = swap_bytes i s"
    by (rule swap_read_page [OF base sp])
  have len: "length (swap_bytes i s sp) = 128" by (rule length_swap_bytes [OF base sp])
  obtain s2 where 2: "fill_buffer (swap_bytes i s sp) s1 = Inr s2" "vm_base i s2" "vm_keeps s1 s2"
      "mainMemory s2 = mainMemory s1" "diskBuffer (kern s2) = swap_bytes i s sp" "swap_bytes i s2 = swap_bytes i s1"
    by (rule fill_buffer_page [OF 1(2) len])
  define m where "m = mem_put (mainMemory s2) (k * 128) (swap_bytes i s sp)"
  let ?s = "s2\<lparr>mainMemory := m\<rparr>"
  have pos: "nat (int k * 128) = k * 128" by (simp add: nat_mult_distrib)
  show thesis
  proof (rule that)
    show "sw_swap (int k) sp s = Inr ?s"
      using 1(1) 2(1,5) len k by (simp add: sw_swap_def main_put_def m_def pos)
    show "vm_base i ?s" using 2(2) by (simp add: vm_base_def swap_used_def)
    have "vm_keeps s2 ?s"
      by (auto simp: vm_keeps_def intro!: exI [of _ "host (kern s2)"] exI [of _ "diskBuffer (kern s2)"] exI [of _ m])
    then show "vm_keeps s ?s" using 1(3) 2(3) vm_keeps_trans by blast
    show "frame_bytes ?s k = swap_bytes i s sp" using frame_put(1) [OF len m_def] .
    show "frame_bytes ?s j = frame_bytes s j" if "j \<noteq> k" for j
      using frame_put(2) [OF len m_def that] 1(4) 2(4) by (simp add: frame_bytes_def)
    show "swap_bytes i ?s = swap_bytes i s" using 1(6) 2(6) by (simp add: fun_eq_iff swap_bytes_def)
  qed
qed

subsection \<open>Evicting a page\<close>

definition vm_same :: "('p, 'x) vm_scheme hw \<Rightarrow> ('p, 'x) vm_scheme hw \<Rightarrow> bool" where
  "vm_same s s' \<longleftrightarrow>
     activePageMap (kern s') = activePageMap (kern s) \<and> activePages (kern s') = activePages (kern s) \<and>
     policy (kern s') = policy (kern s) \<and> memMgr (kern s') = memMgr (kern s) \<and>
     swapMap (kern s') = swapMap (kern s) \<and> vm.more (kern s') = vm.more (kern s)"

lemma vm_same_intros:
  "vm_keeps s s' \<Longrightarrow> vm_same s s'" "set_entry q e s = Inr s' \<Longrightarrow> vm_same s s'"
  "vm_same s s1 \<Longrightarrow> vm_same s1 s2 \<Longrightarrow> vm_same s s2"
  by (simp_all add: vm_same_def vm_keepsD set_entry_frame)

lemma vm_sameD:
  assumes "vm_same s s'" shows "swap_used s' = swap_used s" "active s' = active s"
  using assms by (simp_all add: vm_same_def swap_used_def active_def)

lemma slot_ok_cong:
  assumes "slot_ok i s j" "vm_same s s'" "frame_bytes s' j = frame_bytes s j"
    and "activePageMap (kern s) ! j \<in> swap_used s \<Longrightarrow>
      swap_bytes i s' (activePageMap (kern s) ! j) = swap_bytes i s (activePageMap (kern s) ! j)"
    and "\<And>q e. get_entry q s = Inr e \<Longrightarrow> physicalPage e = activePageMap (kern s) ! j \<Longrightarrow>
      get_entry q s' = Inr e"
  shows "slot_ok i s' j"
proof (cases "activePageMap (kern s) ! j = -1")
  case True
  then show ?thesis using assms(2) by (simp add: slot_ok_def vm_same_def)
next
  case False
  then obtain q e where "activePages (kern s) ! j = Some q" "get_entry q s = Inr e"
      "physicalPage e = activePageMap (kern s) ! j"
      "dirty e \<or> frame_bytes s j = swap_bytes i s (activePageMap (kern s) ! j)"
      "activePageMap (kern s) ! j \<in> swap_used s"
      "\<forall>k<32. activePageMap (kern s) ! k = activePageMap (kern s) ! j \<longrightarrow> k = j"
    using assms(1) by (auto simp: slot_ok_def Let_def)
  with assms(2-5) vm_sameD [OF assms(2)] show ?thesis
    by (auto simp: slot_ok_def Let_def vm_same_def)
qed

lemma vm_base_entry: "set_entry q e s = Inr s' \<Longrightarrow> vm_base i s' = vm_base i s"
  "set_entry q e s = Inr s' \<Longrightarrow> swap_bytes i s' = swap_bytes i s"
  "set_entry q e s = Inr s' \<Longrightarrow> frame_bytes s' k = frame_bytes s k"
  by (simp_all add: vm_base_def swap_used_def fun_eq_iff swap_bytes_def frame_bytes_def set_entry_frame)

lemma evict_ok:
  assumes base: "vm_base i s" and k: "k < 32" "slot_ok i s k" "activePageMap (kern s) ! k \<noteq> -1"
  defines "sp \<equiv> activePageMap (kern s) ! k"
  obtains s' where "evict (int k) s = Inr s'" "vm_base i s'" "same_map s s'" "vm_same s s'"
    "mainMemory s' = mainMemory s" "swap_bytes i s' sp = frame_bytes s k"
    "\<And>sq. sq \<in> swap_used s \<Longrightarrow> sq \<noteq> sp \<Longrightarrow> swap_bytes i s' sq = swap_bytes i s sq"
    "\<And>q e. get_entry q s = Inr e \<Longrightarrow> physicalPage e \<noteq> sp \<Longrightarrow> get_entry q s' = Inr e"
proof -
  obtain q e where q: "activePages (kern s) ! k = Some q" "get_entry q s = Inr e" "physicalPage e = sp"
      "dirty e \<or> frame_bytes s k = swap_bytes i s sp" and used: "sp \<in> swap_used s"
    using k(2,3) by (auto simp: slot_ok_def Let_def sp_def)
  have len: "length (activePages (kern s)) = 32" "length (activePageMap (kern s)) = 32"
    using base by (auto simp: vm_base_def)
  obtain s1 where s1: "set_entry q (e\<lparr>use := False\<rparr>) s = Inr s1" using set_entry_exists [OF q(2)] by blast
  have m1: "same_map s s1" using same_map_set [OF q(2), where u = False and d = "dirty e"] s1 by simp
  have other: "get_entry r s1 = Inr x" if "get_entry r s = Inr x" "physicalPage x \<noteq> sp" for r x
    using that q(2,3) set_entry_other [OF s1, of r] by auto
  show thesis
  proof (cases "dirty e")
    case False
    show thesis
      by (rule that [of s1])
        (use False q s1 m1 k len other base vm_same_intros(2) [OF s1] vm_base_entry [OF s1]
          set_entry_frame [OF s1] in \<open>simp_all add: evict_def\<close>)
  next
    case True
    have q1: "get_entry q s1 = Inr (e\<lparr>use := False\<rparr>)" using set_entry_other [OF s1, of q] by simp
    obtain s2 where s2: "set_entry q (e\<lparr>use := False, dirty := False\<rparr>) s1 = Inr s2"
      using set_entry_exists [OF q1] by blast
    have m2: "same_map s1 s2" using same_map_set [OF q1, of False False] s2 by simp
    have b2: "vm_base i s2" using base vm_base_entry [OF s1] vm_base_entry [OF s2] by simp
    have mem2: "mainMemory s2 = mainMemory s" using set_entry_frame [OF s1] set_entry_frame [OF s2] by simp
    have fb: "frame_bytes s2 k = frame_bytes s k" using mem2 by (simp add: frame_bytes_def)
    obtain s3 where s3: "fill_buffer (frame_bytes s2 k) s2 = Inr s3" "vm_base i s3" "vm_keeps s2 s3"
        "mainMemory s3 = mainMemory s2" "diskBuffer (kern s3) = frame_bytes s2 k" "swap_bytes i s3 = swap_bytes i s2"
      by (rule fill_buffer_page [OF b2, of "frame_bytes s2 k"]) auto
    have sa: "vm_same s s3" using vm_same_intros s1 s2 s3(3) by blast
    have u3: "sp \<in> swap_used s3" using used vm_sameD [OF sa] by simp
    obtain s4 where s4: "swap_WriteAt (frame_bytes s2 k) 128 (sp * 128) s3 = Inr s4" "vm_base i s4" "vm_keeps s3 s4"
        "mainMemory s4 = mainMemory s3" "diskBuffer (kern s4) = diskBuffer (kern s3)"
        "swap_bytes i s4 sp = frame_bytes s2 k"
        "\<And>sq. sq \<in> swap_used s3 \<Longrightarrow> sq \<noteq> sp \<Longrightarrow> swap_bytes i s4 sq = swap_bytes i s3 sq"
      by (rule swap_write_page [OF s3(2) u3, of "frame_bytes s2 k"]) auto
    have get: "main_get (int k * 128) 128 s2 = Inr (frame_bytes s2 k)"
      using k(1) by (simp add: main_get_def frame_bytes_def nat_mult_distrib)
    have sp3: "activePageMap (kern s3) ! k = sp" "length (activePageMap (kern s3)) = 32"
      using sa len by (simp_all add: vm_same_def sp_def)
    show thesis
    proof (rule that [of s4])
      show "evict (int k) s = Inr s4"
        using True q s1 s2 s3(1,5) s4(1) get sp3 k(1) len by (simp add: evict_def sw_writePage_def)
      show "vm_base i s4" by fact
      show "same_map s s4"
        using m1 m2 vm_keepsD(9) [OF s3(3)] vm_keepsD(9) [OF s4(3)] same_map_trans by blast
      show "vm_same s s4" using sa s4(3) vm_same_intros by blast
      show "mainMemory s4 = mainMemory s" using s4(4) s3(4) mem2 by simp
      show "swap_bytes i s4 sp = frame_bytes s k" using s4(6) fb by simp
      show "swap_bytes i s4 sq = swap_bytes i s sq" if "sq \<in> swap_used s" "sq \<noteq> sp" for sq
        using s4(7) [of sq] that vm_sameD [OF sa] s3(6) vm_base_entry [OF s1] vm_base_entry [OF s2] by simp
      show "get_entry r s4 = Inr x" if x: "get_entry r s = Inr x" "physicalPage x \<noteq> sp" for r x
      proof -
        have "r \<noteq> q" using x q(2,3) by auto
        then show ?thesis
          using other [OF x] set_entry_other [OF s2, of r] vm_keepsD(8) [OF s3(3)] vm_keepsD(8) [OF s4(3)] by simp
      qed
    qed
  qed
qed

subsection \<open>Bringing a page in\<close>

lemma page_bytes_active:
  assumes "length (activePageMap (kern s)) = 32" "k < 32" "activePageMap (kern s) ! k = sp"
    and "\<forall>j<32. activePageMap (kern s) ! j = sp \<longrightarrow> j = k"
  shows "page_bytes i s sp = frame_bytes s k"
proof -
  let ?z = "zip (activePageMap (kern s)) [0..<32]"
  have "sp \<in> set (activePageMap (kern s))" using assms(1-3) by (metis nth_mem)
  then have "sp \<in> fst ` set ?z" using assms(1) by (simp flip: set_map)
  then obtain j where j: "map_of ?z sp = Some j" using map_of_eq_None_iff [of ?z sp] by auto
  then have "(sp, j) \<in> set ?z" by (rule map_of_SomeD)
  then have "j < 32" "activePageMap (kern s) ! j = sp" using assms(1) by (auto simp: set_zip)
  then have "j = k" using assms(4) by blast
  with j show ?thesis by (simp add: page_bytes_def)
qed

lemma page_bytes_inactive:
  assumes "length (activePageMap (kern s)) = 32" "sp \<notin> set (activePageMap (kern s))"
  shows "page_bytes i s sp = swap_bytes i s sp"
proof -
  have "map_of (zip (activePageMap (kern s)) [0..<32]) sp = None"
    using assms by (simp add: map_of_eq_None_iff flip: set_map)
  then show ?thesis by (simp add: page_bytes_def)
qed

lemma vm_ok_lengths:
  "vm_ok invar pages i s \<Longrightarrow> length (activePageMap (kern s)) = 32 \<and> length (activePages (kern s)) = 32"
  by (simp add: vm_ok_def vm_base_def)

context replacement_policy
begin

text \<open>
  The first half of \<^verbatim>\<open>VMManager::swap\<close> returns a frame whose page, if it had one, is safe in the
  swap file.
\<close>

lemma take_frame_ok:
  assumes ok: "vm_ok invar pages i s"
  obtains k s' where "take_frame P s = Inr (int k, s')" "k < 32" "vm_base i s'" "same_map s s'"
    "mm_wf (memMgr (kern s'))" "invar (policy (kern s'))" "pages (policy (kern s')) = insert (int k) (active s)"
    "frames_used (memMgr (kern s')) = insert (int k) (active s)"
    "activePageMap (kern s') = activePageMap (kern s)" "activePages (kern s') = activePages (kern s)"
    "swapMap (kern s') = swapMap (kern s)" "vm.more (kern s') = vm.more (kern s)" "mainMemory s' = mainMemory s"
    "activePageMap (kern s) ! k \<noteq> -1 \<Longrightarrow> swap_bytes i s' (activePageMap (kern s) ! k) = frame_bytes s k"
    "\<And>sq. sq \<in> swap_used s \<Longrightarrow> sq \<noteq> activePageMap (kern s) ! k \<Longrightarrow> swap_bytes i s' sq = swap_bytes i s sq"
    "\<And>q e. get_entry q s = Inr e \<Longrightarrow> physicalPage e \<noteq> activePageMap (kern s) ! k \<Longrightarrow> get_entry q s' = Inr e"
proof -
  let ?m = "memMgr (kern s)"
  have base: "vm_base i s" and mm: "mm_wf ?m" and inv: "invar (policy (kern s))"
    and pg: "pages (policy (kern s)) = active s" and fr: "frames_used ?m = active s"
    and slots: "\<And>k. k < 32 \<Longrightarrow> slot_ok i s k"
    using ok by (simp_all add: vm_ok_def)
  have cnt: "getFreePageCount ?m = Inr (32 - int (card (active s)))"
    using frame_slots.nfree_ok [OF mm] fr by simp
  have full: "active s = {0..<32} \<longleftrightarrow> \<not> 32 - int (card (active s)) > 0"
    using frame_slots.used_full_iff [OF mm] fr card_mono [of "{0..<32}" "active s"]
      frame_slots.used_range [OF mm] by auto
  show thesis
  proof (cases "active s = {0..<32}")
    case False
    then obtain p m' where p: "getPage ?m = Inr (p, m')" "p \<in> {0..<32} - active s" "mm_wf m'"
        "frames_used m' = insert p (active s)"
      using frame_slots.alloc_some [OF mm] fr by auto
    then obtain w where w: "pageUsed P p (policy (kern s)) = Inr w" "invar w" "pages w = insert p (active s)"
      using pageUsed_ok [OF inv, of p] pg by auto
    define k where "k = nat p"
    have k: "p = int k" "k < 32" using p(2) by (auto simp: k_def)
    then have "activePageMap (kern s) ! k = -1" using p(2) by (auto simp: active_def)
    then show thesis
      using cnt full False p w k base
      by (intro that [of k "s\<lparr>kern := (kern s)\<lparr>memMgr := m', policy := w\<rparr>\<rparr>"])
        (simp_all add: take_frame_def vm_base_def swap_used_def swap_bytes_def get_entry_cong)
  next
    case True
    then obtain p w where p: "getReplacement P (policy (kern s)) = Inr (p, w)" "p \<in> {0..<32}" "invar w"
        "pages w = active s"
      using getReplacement_ok [OF inv] pg by auto
    define k where "k = nat p"
    have k: "p = int k" "k < 32" using p(2) by (auto simp: k_def)
    have "int k \<in> active s" using True k by simp
    then have nz: "activePageMap (kern s) ! k \<noteq> -1" by (auto simp: active_def)
    let ?s = "s\<lparr>kern := (kern s)\<lparr>policy := w\<rparr>\<rparr>"
    have s: "vm_base i ?s" "slot_ok i ?s k" "activePageMap (kern ?s) ! k \<noteq> -1"
      using base slots [OF k(2)] nz
      by (simp_all add: vm_base_def swap_used_def slot_ok_def Let_def get_entry_cong frame_bytes_def swap_bytes_def)
    have e: "swap_used ?s = swap_used s" "frame_bytes ?s k = frame_bytes s k" "swap_bytes i ?s = swap_bytes i s"
      by (simp_all add: swap_used_def frame_bytes_def swap_bytes_def fun_eq_iff)
    obtain s' where s': "evict (int k) ?s = Inr s'" "vm_base i s'" "same_map ?s s'" "vm_same ?s s'"
      "mainMemory s' = mainMemory ?s" "swap_bytes i s' (activePageMap (kern ?s) ! k) = frame_bytes ?s k"
      "\<And>sq. sq \<in> swap_used ?s \<Longrightarrow> sq \<noteq> activePageMap (kern ?s) ! k \<Longrightarrow> swap_bytes i s' sq = swap_bytes i ?s sq"
      "\<And>q e. get_entry q ?s = Inr e \<Longrightarrow> physicalPage e \<noteq> activePageMap (kern ?s) ! k \<Longrightarrow> get_entry q s' = Inr e"
      by (rule evict_ok [OF s(1) k(2) s(2,3)]) blast
    have "same_map s ?s" by simp
    then have m: "same_map s s'" using s'(3) by (rule same_map_trans)
    have ins: "insert (int k) (active s) = active s" using \<open>int k \<in> active s\<close> by auto
    show thesis
      by (rule that [of k s'])
        (use cnt full True p k s' mm m fr e ins in
          \<open>simp_all add: take_frame_def vm_same_def get_entry_cong\<close>)
  qed
qed

end

text \<open>\<open>brings_in\<close>: what bringing page \<open>sp\<close> into frame \<open>k\<close> keeps.\<close>

definition brings_in ::
    "('p \<Rightarrow> bool) \<Rightarrow> ('p \<Rightarrow> int set) \<Rightarrow> nat \<Rightarrow> int \<Rightarrow> nat \<Rightarrow>
     ('p, 'x) vm_scheme hw \<Rightarrow> ('p, 'x) vm_scheme hw \<Rightarrow> bool" where
  "brings_in invar pages i sp k s s' \<longleftrightarrow>
     vm_ok invar pages i s' \<and> same_map s s' \<and> k < 32 \<and> activePageMap (kern s') ! k = sp \<and>
     swapMap (kern s') = swapMap (kern s) \<and> vm.more (kern s') = vm.more (kern s) \<and>
     (\<forall>sq\<in>swap_used s. page_bytes i s' sq = page_bytes i s sq)"

lemma swap_in_state:
  fixes s s1 s2 :: "('p, 'x) vm_scheme hw"
  assumes len: "length (activePageMap (kern s)) = 32" "length (activePages (kern s)) = 32"
    and slots: "\<And>j. j < 32 \<Longrightarrow> slot_ok i s j" and k: "k < 32"
    and sp: "sp \<in> swap_used s" "sp \<notin> set (activePageMap (kern s))" "sp \<noteq> -1"
    and e: "get_entry q s2 = Inr e" "physicalPage e = sp"
    and m: "activePageMap (kern s2) = (activePageMap (kern s))[k := sp]"
      "activePages (kern s2) = (activePages (kern s))[k := Some q]" "swap_used s2 = swap_used s"
    and fr: "frame_bytes s2 k = swap_bytes i s2 sp" "\<And>j. j \<noteq> k \<Longrightarrow> frame_bytes s2 j = frame_bytes s j"
    and sw: "activePageMap (kern s) ! k \<noteq> -1 \<Longrightarrow> swap_bytes i s2 (activePageMap (kern s) ! k) = frame_bytes s k"
      "\<And>sq. sq \<in> swap_used s \<Longrightarrow> sq \<noteq> activePageMap (kern s) ! k \<Longrightarrow> swap_bytes i s2 sq = swap_bytes i s sq"
    and ent: "\<And>r x. get_entry r s = Inr x \<Longrightarrow> physicalPage x \<noteq> activePageMap (kern s) ! k \<Longrightarrow> get_entry r s2 = Inr x"
  shows "\<And>j. j < 32 \<Longrightarrow> slot_ok i s2 j" and "active s2 = insert (int k) (active s)"
    and "\<And>sq. sq \<in> swap_used s \<Longrightarrow> sq \<noteq> -1 \<Longrightarrow> page_bytes i s2 sq = page_bytes i s sq"
proof -
  let ?m = "activePageMap (kern s)"
  have spk: "?m ! j \<noteq> sp" if "j < 32" for j using sp(2) that len(1) by (metis nth_mem)
  have uniq: "a = b" if "a < 32" "b < 32" "?m ! a = ?m ! b" "?m ! a \<noteq> -1" for a b
    using slots [OF that(2)] that by (auto simp: slot_ok_def Let_def)
  show slot: "slot_ok i s2 j" if j: "j < 32" for j
  proof (cases "j = k")
    case True
    then show ?thesis
      using e m fr(1) sp(1) k len spk by (auto simp: slot_ok_def Let_def nth_list_update)
  next
    case False
    show ?thesis
    proof (cases "?m ! j = -1")
      case True
      then show ?thesis using False m by (simp add: slot_ok_def)
    next
      case nz: False
      have jk: "?m ! j \<noteq> ?m ! k" using uniq [OF j k] False nz by auto
      obtain r x where "activePages (kern s) ! j = Some r" "get_entry r s = Inr x" "physicalPage x = ?m ! j"
          "dirty x \<or> frame_bytes s j = swap_bytes i s (?m ! j)" "?m ! j \<in> swap_used s"
        using slots [OF j] nz by (auto simp: slot_ok_def Let_def)
      with jk False nz m fr(2) [OF False] sw(2) ent uniq j k len spk [OF j] show ?thesis
        by (auto simp: slot_ok_def Let_def nth_list_update)
    qed
  qed
  show "active s2 = insert (int k) (active s)"
    using m(1) k len(1) sp(3) by (auto simp: active_def nth_list_update split: if_splits)
  show "page_bytes i s2 sq = page_bytes i s sq" if sq: "sq \<in> swap_used s" "sq \<noteq> -1" for sq
  proof -
    have len2: "length (activePageMap (kern s2)) = 32" using m(1) len(1) by simp
    have at: "page_bytes i s2 (?m ! j) = page_bytes i s (?m ! j)" if "j < 32" "j \<noteq> k" "?m ! j = sq" for j
    proof -
      have "page_bytes i s sq = frame_bytes s j"
        using that sq(2) uniq len(1) by (intro page_bytes_active) auto
      moreover have "page_bytes i s2 sq = frame_bytes s2 j"
        using that sq(2) uniq spk [OF that(1)] len2 m(1) k by (intro page_bytes_active) (auto simp: nth_list_update)
      ultimately show ?thesis using fr(2) that by simp
    qed
    consider "sq = sp" | "sq \<noteq> sp" "sq = ?m ! k" | "sq \<noteq> sp" "sq \<noteq> ?m ! k" "sq \<notin> set ?m"
      | j where "j < 32" "j \<noteq> k" "?m ! j = sq"
      using len(1) by (metis in_set_conv_nth)
    then show ?thesis
    proof cases
      case 1
      have "page_bytes i s2 sp = frame_bytes s2 k"
        using k spk len2 m(1) len(1) by (intro page_bytes_active) (auto simp: nth_list_update)
      with 1 fr(1) sw(2) [OF sp(1)] spk [OF k] page_bytes_inactive [OF len(1) sp(2)] show ?thesis by simp
    next
      case 2
      have "sq \<notin> set (activePageMap (kern s2))"
        using 2 sq(2) uniq m(1) k len(1) by (auto simp: in_set_conv_nth nth_list_update split: if_splits)
      moreover have "page_bytes i s sq = frame_bytes s k"
        using 2 sq(2) uniq len(1) k by (intro page_bytes_active) auto
      ultimately show ?thesis using page_bytes_inactive [OF len2] sw(1) 2 sq(2) by simp
    next
      case 3
      then have "sq \<notin> set (activePageMap (kern s2))"
        using m(1) set_update_subset_insert [of ?m k sp] by auto
      with 3 page_bytes_inactive [OF len2] page_bytes_inactive [OF len(1)] sw(2) [OF sq(1)] show ?thesis by simp
    next
      case 4
      with at show ?thesis by blast
    qed
  qed
qed

lemma vm_ok_unique:
  "vm_ok invar pages i s \<Longrightarrow> j < 32 \<Longrightarrow> k < 32 \<Longrightarrow> activePageMap (kern s) ! j = sp \<Longrightarrow>
     activePageMap (kern s) ! k = sp \<Longrightarrow> sp \<noteq> -1 \<Longrightarrow> j = k"
  by (auto simp: vm_ok_def slot_ok_def Let_def)

context replacement_policy
begin

lemma vm_swap_ok:
  assumes ok: "vm_ok invar pages i s" and e: "get_entry q s = Inr e"
    and sp: "physicalPage e \<in> swap_used s" "physicalPage e \<notin> set (activePageMap (kern s))"
  shows "\<exists>k s'. vm_swap P q s = Inr (int k, s') \<and> brings_in invar pages i (physicalPage e) k s s' \<and> get_entry q s' = Inr e"
proof -
  let ?sp = "physicalPage e"
  have base: "vm_base i s" and slots: "\<And>k. k < 32 \<Longrightarrow> slot_ok i s k" using ok by (simp_all add: vm_ok_def)
  note len = vm_ok_lengths [OF ok]
  have sp1: "?sp \<noteq> -1" using swap_used_range [OF base sp(1)] by simp
  obtain k s1 where s1: "take_frame P s = Inr (int k, s1)" "k < 32" "vm_base i s1" "same_map s s1"
    "mm_wf (memMgr (kern s1))" "invar (policy (kern s1))" "pages (policy (kern s1)) = insert (int k) (active s)"
    "frames_used (memMgr (kern s1)) = insert (int k) (active s)"
    "activePageMap (kern s1) = activePageMap (kern s)" "activePages (kern s1) = activePages (kern s)"
    "swapMap (kern s1) = swapMap (kern s)" "vm.more (kern s1) = vm.more (kern s)" "mainMemory s1 = mainMemory s"
    "activePageMap (kern s) ! k \<noteq> -1 \<Longrightarrow> swap_bytes i s1 (activePageMap (kern s) ! k) = frame_bytes s k"
    "\<And>sq. sq \<in> swap_used s \<Longrightarrow> sq \<noteq> activePageMap (kern s) ! k \<Longrightarrow> swap_bytes i s1 sq = swap_bytes i s sq"
    "\<And>q e. get_entry q s = Inr e \<Longrightarrow> physicalPage e \<noteq> activePageMap (kern s) ! k \<Longrightarrow> get_entry q s1 = Inr e"
    by (rule take_frame_ok [OF ok]) blast
  have u1: "swap_used s1 = swap_used s" using s1(11) by (simp add: swap_used_def)
  obtain s2 where s2: "sw_swap (int k) ?sp s1 = Inr s2" "vm_base i s2" "vm_keeps s1 s2"
    "frame_bytes s2 k = swap_bytes i s1 ?sp" "\<And>j. j \<noteq> k \<Longrightarrow> frame_bytes s2 j = frame_bytes s1 j"
    "swap_bytes i s2 = swap_bytes i s1"
    by (rule sw_swap_ok [OF s1(3) _ s1(2), of ?sp]) (use sp(1) u1 in auto)
  note keep = vm_keepsD [OF s2(3)]
  define s3 where "s3 = s2\<lparr>kern := (kern s2)\<lparr>activePageMap := (activePageMap (kern s))[k := ?sp],
      activePages := (activePages (kern s))[k := Some q]\<rparr>\<rparr>"
  have run: "vm_swap P q s = Inr (int k, s3)"
    using e s1(1,2,9,10) s2(1) keep(1,2) len by (simp add: vm_swap_def s3_def)
  have k3: "swap_bytes i s3 = swap_bytes i s1" "frame_bytes s3 = frame_bytes s2" "swap_used s3 = swap_used s"
      "get_entry r s3 = get_entry r s1" "vm_base i s3" for r
    using s2(2,6) u1 keep(6,8) len
    by (simp_all add: s3_def swap_bytes_def frame_bytes_def swap_used_def get_entry_cong vm_base_def fun_eq_iff)
  have "?sp \<noteq> activePageMap (kern s) ! k" using sp(2) len s1(2) by (metis nth_mem)
  then have e3: "get_entry q s3 = Inr e" using s1(16) [OF e] k3(4) by simp
  have fr1: "frame_bytes s1 j = frame_bytes s j" for j using s1(13) by (simp add: frame_bytes_def)
  note st = swap_in_state [OF conjunct1 [OF len] conjunct2 [OF len] slots s1(2) sp sp1 e3 refl]
  have st: "\<And>j. j < 32 \<Longrightarrow> slot_ok i s3 j" "active s3 = insert (int k) (active s)"
    "\<And>sq. sq \<in> swap_used s \<Longrightarrow> sq \<noteq> -1 \<Longrightarrow> page_bytes i s3 sq = page_bytes i s sq"
    by (rule st; use s1 s2 k3 fr1 in \<open>simp add: s3_def\<close>)+
  have "vm_ok invar pages i s3"
    using st(1,2) k3(5) s1(5-8) keep(3,4) by (simp add: vm_ok_def s3_def)
  moreover have "same_map s s3" using same_map_trans [OF s1(4) keep(9)] by (simp add: s3_def)
  moreover have "sq \<noteq> -1" if "sq \<in> swap_used s" for sq using swap_used_range [OF base that] by auto
  ultimately have "brings_in invar pages i ?sp k s s3"
    using st(3) s1(2,11,12) keep(5,10) len by (simp add: brings_in_def s3_def)
  with run e3 show ?thesis by blast
qed

lemma vm_getPhysicalPage_ok:
  assumes ok: "vm_ok invar pages i s" and e: "get_entry q s = Inr e" and sp: "physicalPage e \<in> swap_used s"
  shows "\<exists>k s'. vm_getPhysicalPage P q s = Inr (int k, s') \<and> brings_in invar pages i (physicalPage e) k s s' \<and>
    get_entry q s' = Inr e"
proof (cases "physicalPage e \<in> set (activePageMap (kern s))")
  case False
  then show ?thesis
    using vm_swap_ok [OF ok e sp] find_slot_absent [OF False] vm_ok_lengths [OF ok] e
    by (simp add: vm_getPhysicalPage_def)
next
  case True
  then obtain a b where ab: "activePageMap (kern s) = a @ physicalPage e # b" "physicalPage e \<notin> set a"
    by (meson split_list_first)
  with vm_ok_lengths [OF ok] have len: "length a < 32" by simp
  then have "vm_getPhysicalPage P q s = Inr (int (length a), s)"
    using find_slot_first [OF ab] vm_ok_lengths [OF ok] e by (simp add: vm_getPhysicalPage_def)
  moreover have "brings_in invar pages i (physicalPage e) (length a) s s"
    using ok ab len by (simp add: brings_in_def nth_append)
  ultimately show ?thesis using e by blast
qed

lemma vm_frame_ok:
  assumes ok: "vm_ok invar pages i s" and e: "get_entry q s = Inr e" and sp: "physicalPage e \<in> swap_used s"
  shows "\<exists>k s'. vm_frame P q s = Inr (word_of_int (int k), s') \<and> brings_in invar pages i (physicalPage e) k s s'"
proof -
  obtain k s1 where s1: "vm_getPhysicalPage P q s = Inr (int k, s1)"
      "brings_in invar pages i (physicalPage e) k s s1"
    using vm_getPhysicalPage_ok [OF assms] by blast
  have "physicalPage e \<noteq> -1" using ok sp swap_used_range by (fastforce simp: vm_ok_def)
  then have "int k \<in> pages (policy (kern s1))" and inv: "invar (policy (kern s1))"
    using s1(2) by (auto simp: brings_in_def vm_ok_def active_def)
  then obtain w where w: "markPage P (int k) (policy (kern s1)) = Inr w" "invar w"
      "pages w = pages (policy (kern s1))"
    using markPage_ok by blast
  let ?s = "s1\<lparr>kern := (kern s1)\<lparr>policy := w\<rparr>\<rparr>"
  have "slot_ok i ?s j = slot_ok i s1 j" "page_bytes i ?s sq = page_bytes i s1 sq" "active ?s = active s1"
      "vm_base i ?s = vm_base i s1" for j sq
    by (simp_all add: slot_ok_def swap_used_def get_entry_cong frame_bytes_def swap_bytes_def page_bytes_def
        active_def vm_base_def split: option.split)
  then have "brings_in invar pages i (physicalPage e) k s ?s"
    using s1(2) w(2,3) by (simp add: brings_in_def vm_ok_def)
  with s1(1) w(1) show ?thesis by (auto simp: vm_frame_def vm_markPage_def)
qed

text \<open>Any sequence of page lookups, of this program or of others.\<close>

lemma vm_frames_ok:
  assumes "vm_ok invar pages i s"
    and "\<forall>q\<in>set qs. \<exists>e. get_entry q s = Inr e \<and> physicalPage e \<in> swap_used s"
  shows "\<exists>s'. for_each qs (\<lambda>q s. rbind (vm_frame P q s) (\<lambda>(_, s). Inr s)) s = Inr s' \<and>
    vm_ok invar pages i s' \<and> same_map s s' \<and> swap_used s' = swap_used s \<and>
    (\<forall>sq\<in>swap_used s. page_bytes i s' sq = page_bytes i s sq)"
  using assms
proof (induction qs arbitrary: s)
  case (Cons q qs)
  then obtain e where "get_entry q s = Inr e" "physicalPage e \<in> swap_used s" by auto
  with vm_frame_ok [OF Cons.prems(1)] obtain k s1 where s1: "vm_frame P q s = Inr (word_of_int (int k), s1)"
      "brings_in invar pages i (physicalPage e) k s s1" by blast
  have u: "swap_used s1 = swap_used s" using s1(2) by (simp add: brings_in_def swap_used_def)
  have "\<exists>e. get_entry r s1 = Inr e \<and> physicalPage e \<in> swap_used s1" if r: "r \<in> set qs" for r
  proof -
    obtain e where e: "get_entry r s = Inr e" "physicalPage e \<in> swap_used s" using Cons.prems(2) r by auto
    then obtain u' d where "get_entry r s1 = Inr (e\<lparr>use := u', dirty := d\<rparr>)"
      using s1(2) same_map_entry unfolding brings_in_def by blast
    with e(2) u show ?thesis by auto
  qed
  with Cons.IH [of s1] s1(2) obtain s2 where
    "for_each qs (\<lambda>q s. rbind (vm_frame P q s) (\<lambda>(_, s). Inr s)) s1 = Inr s2" "vm_ok invar pages i s2"
    "same_map s1 s2" "swap_used s2 = swap_used s1" "\<forall>sq\<in>swap_used s1. page_bytes i s2 sq = page_bytes i s1 sq"
    by (auto simp: brings_in_def)
  moreover have "same_map s s2" using s1(2) \<open>same_map s1 s2\<close> same_map_trans by (auto simp: brings_in_def)
  ultimately show ?case using s1 u by (auto simp: brings_in_def)
qed simp

end

subsection \<open>Creating, allocating and releasing pages\<close>

text \<open>A new manager: no page is in use.\<close>

lemma new_VMManager_ok:
  assumes "length (diskBuffer (kern s)) = 128" "mm_wf (memMgr (kern s))" "frames_used (memMgr (kern s)) = {}"
    and "invar p" "pages p = {}"
  shows "\<exists>i s'. new_VMManager garbage p s = Inr s' \<and> vm_ok invar pages i s' \<and> swap_used s' = {} \<and>
    mainMemory s' = mainMemory s \<and> same_map s s' \<and> pageTables s' = pageTables s \<and> tlb s' = tlb s \<and>
    vm.more (kern s') = vm.more (kern s) \<and>
    i = (case names (host (kern s)) swap_name of None \<Rightarrow> next_inode (host (kern s)) | Some j \<Rightarrow> j) \<and>
    inodes (host (kern s')) = (inodes (host (kern s)))(i := []) \<and>
    (\<forall>fd < int (next_fd (host (kern s))). fds (host (kern s')) fd = fds (host (kern s)) fd)"
proof -
  obtain f i u1 u2 where f: "stub_Create swap_name (512 * 128) (host (kern s)) = Inr (True, u1)"
      "stub_Open swap_name u1 = Inr (Some f, u2)" "stub_ok f i u2"
      "i = (case names (host (kern s)) swap_name of None \<Rightarrow> next_inode (host (kern s)) | Some j \<Rightarrow> j)"
      "inodes u2 = (inodes (host (kern s)))(i := [])" "\<And>fd. fd < int (next_fd (host (kern s))) \<Longrightarrow> fds u2 fd = fds (host (kern s)) fd"
    by (rule stub_create_open) (rule that)
  obtain b where b: "BitMap garbage 512 = Inr b" "bm_wf b" "numBits b = 512" "marked b = {}"
    using BitMap_ok [of 512 garbage] by auto
  let ?s = "s\<lparr>kern := (kern s)\<lparr>host := u2, swapFile := Some f, swapMap := b, policy := p,
      activePageMap := replicate 32 (-1), activePages := replicate 32 None\<rparr>\<rparr>"
  have "new_VMManager garbage p s = Inr ?s"
    using f(1,2) b(1) by (simp add: new_VMManager_def new_SwapManager_def SWAP_SIZE_def)
  moreover have "vm_ok invar pages i ?s"
    using assms f(3) b(2-4) by (simp add: vm_ok_def vm_base_def swap_used_def active_def slot_ok_def)
  ultimately show ?thesis using b(4) f(4-6) by (intro exI [of _ i] exI [of _ ?s]) (simp add: swap_used_def)
qed

text \<open>
  A page allocated in the swap file: one that was free, filled with zeros, while the other pages
  keep their content. Without a free page the assertion fails.
\<close>

lemma sw_allocPage_ok:
  assumes ok: "vm_ok invar pages i s" and free: "swap_used s \<noteq> {0..<512}"
  obtains sp s' where "sw_allocPage s = Inr (sp, s')" "vm_ok invar pages i s'" "sp \<in> {0..<512} - swap_used s"
    "{0..<sp} \<subseteq> swap_used s" "swap_used s' = insert sp (swap_used s)" "page_bytes i s' sp = replicate 128 0"
    "\<And>sq. sq \<in> swap_used s \<Longrightarrow> page_bytes i s' sq = page_bytes i s sq" "mainMemory s' = mainMemory s" "same_map s s'"
    "vm.more (kern s') = vm.more (kern s)" "activePageMap (kern s') = activePageMap (kern s)"
    "\<And>g j. stub_ok g j (host (kern s')) = stub_ok g j (host (kern s))"
    "\<And>j. j \<noteq> i \<Longrightarrow> inodes (host (kern s')) j = inodes (host (kern s)) j"
    "\<exists>u b m. s' = s\<lparr>kern := (kern s)\<lparr>host := u, diskBuffer := b, swapMap := m\<rparr>\<rparr>"
    "\<And>sq. sq \<in> swap_used s \<Longrightarrow> swap_bytes i s' sq = swap_bytes i s sq"
proof -
  have base: "vm_base i s" using ok by (simp add: vm_ok_def)
  have bm: "bm_wf (swapMap (kern s))" "numBits (swapMap (kern s)) = 512" using base by (simp_all add: vm_base_def)
  obtain sp b where b: "Find (swapMap (kern s)) = Inr (sp, b)" "in_range (swapMap (kern s)) sp" "sp \<notin> swap_used s"
      "{0..<sp} \<subseteq> swap_used s" "bm_wf b" "numBits b = 512" "marked b = insert sp (swap_used s)"
    using Find_first_clear [OF bm(1)] bm(2) free unfolding swap_used_def by metis
  have r: "0 \<le> sp" "sp < 512" using b(2) bm(2) by (simp_all add: in_range_def)
  obtain f where f: "swapFile (kern s) = Some f" "stub_ok f i (host (kern s))" using base by (auto simp: vm_base_def)
  let ?z = "replicate 128 0 :: 8 word list"
  obtain u where u: "stub_WriteAt f ?z 128 (sp * 128) (host (kern s)) = Inr (128, u)"
      "inodes u = (inodes (host (kern s)))(i := put_bytes (nat (sp * 128)) (take (nat 128) ?z) (inodes (host (kern s)) i))"
      "\<And>g j. stub_ok g j u = stub_ok g j (host (kern s))"
    by (rule stub_WriteAt_ok [OF f(2), of "sp * 128" 128 ?z]) (use r in auto)
  have c: "inodes u i = put_bytes (nat sp * 128) ?z (inodes (host (kern s)) i)"
    using u(2) r by (simp add: nat_mult_distrib)
  define s' where "s' = s\<lparr>kern := (kern s)\<lparr>host := u, swapMap := b, diskBuffer := ?z\<rparr>\<rparr>"
  have run: "sw_allocPage s = Inr (sp, s')"
    using b(1) r(1) f(1) u(1) base
    by (simp add: sw_allocPage_def fill_buffer_def swap_WriteAt_def vm_base_def s'_def)
  have used: "swap_used s' = insert sp (swap_used s)" using b(7) by (simp add: swap_used_def s'_def)
  have old: "swap_bytes i s' sq = swap_bytes i s sq" if sq: "sq \<in> swap_used s" for sq
  proof -
    have "nat sq \<noteq> nat sp" using sq b(3) r swap_used_range [OF base sq] by (metis eq_nat_nat_iff)
    then have "nat sq * 128 + 128 \<le> nat sp * 128 \<or> nat sp * 128 + length ?z \<le> nat sq * 128" by auto
    moreover have "nat sq * 128 + 128 \<le> length (inodes (host (kern s)) i)" using base sq by (simp add: vm_base_def)
    ultimately show ?thesis using put_bytes_other [of "nat sq * 128" 128 "inodes (host (kern s)) i" "nat sp * 128" ?z]
      by (simp add: swap_bytes_def s'_def c)
  qed
  have "vm_base i s'"
    using base b(5-7) u(3) f used by (auto simp: vm_base_def s'_def c length_put_bytes swap_used_def)
  moreover have "slot_ok i s' k" if "k < 32" for k
    using ok that used old
    by (simp add: vm_ok_def slot_ok_def Let_def) (simp add: s'_def get_entry_cong frame_bytes_def)
  ultimately have vm: "vm_ok invar pages i s'" using ok by (simp add: vm_ok_def s'_def active_def)
  have na: "sp \<notin> set (activePageMap (kern s))"
    using ok b(3) r(1) vm_ok_lengths [OF ok] by (auto simp: vm_ok_def slot_ok_def Let_def in_set_conv_nth)
  then have "page_bytes i s' sp = swap_bytes i s' sp"
    using vm_ok_lengths [OF ok] by (intro page_bytes_inactive) (simp_all add: s'_def)
  also have "\<dots> = ?z" using put_bytes_read [of ?z "nat sp * 128"] by (simp add: swap_bytes_def s'_def c)
  finally have new: "page_bytes i s' sp = ?z" .
  have "page_bytes i s' sq = page_bytes i s sq" if "sq \<in> swap_used s" for sq
    using old [OF that] by (simp add: page_bytes_def) (simp add: s'_def frame_bytes_def split: option.split)
  moreover have "\<exists>u b m. s' = s\<lparr>kern := (kern s)\<lparr>host := u, diskBuffer := b, swapMap := m\<rparr>\<rparr>"
    by (intro exI [of _ u] exI [of _ ?z] exI [of _ b]) (simp add: s'_def)
  ultimately show thesis
    using run vm b(3,4) r used new u(2,3) old by (intro that [of sp s']) (simp_all add: s'_def)
qed

lemma sw_allocPage_full:
  assumes "vm_base i s" "swap_used s = {0..<512}" shows "sw_allocPage s = Inl AssertFailed"
  using assms Find_full [of "swapMap (kern s)"] by (simp add: sw_allocPage_def vm_base_def swap_used_def)

text \<open>The file part of \<^verbatim>\<open>SwapManager::clearPage\<close>.\<close>

lemma sw_clearPage_ok:
  assumes base: "vm_base i s" and sp: "sp \<in> swap_used s"
  obtains s' where "sw_clearPage sp s = Inr s'" "vm_base i s'" "swap_used s' = swap_used s - {sp}"
    "\<And>sq. sq \<in> swap_used s \<Longrightarrow> sq \<noteq> sp \<Longrightarrow> swap_bytes i s' sq = swap_bytes i s sq"
    "mainMemory s' = mainMemory s" "activePageMap (kern s') = activePageMap (kern s)"
    "activePages (kern s') = activePages (kern s)" "policy (kern s') = policy (kern s)"
    "memMgr (kern s') = memMgr (kern s)" "vm.more (kern s') = vm.more (kern s)"
    "\<And>q. get_entry q s' = get_entry q s" "same_map s s'"
proof -
  let ?z = "replicate 128 0 :: 8 word list"
  obtain s1 where s1: "fill_buffer ?z s = Inr s1" "vm_base i s1" "vm_keeps s s1" "mainMemory s1 = mainMemory s"
      "diskBuffer (kern s1) = ?z" "swap_bytes i s1 = swap_bytes i s"
    by (rule fill_buffer_page [OF base, of ?z]) auto
  note k1 = vm_keepsD [OF s1(3)]
  obtain s2 where s2: "swap_WriteAt ?z 128 (sp * 128) s1 = Inr s2" "vm_base i s2" "vm_keeps s1 s2"
      "mainMemory s2 = mainMemory s1"
      "\<And>sq. sq \<in> swap_used s1 \<Longrightarrow> sq \<noteq> sp \<Longrightarrow> swap_bytes i s2 sq = swap_bytes i s1 sq"
    by (rule swap_write_page [OF s1(2), of sp ?z]) (use sp k1(6) in auto)
  note k2 = vm_keepsD [OF s2(3)]
  have "in_range (swapMap (kern s2)) sp"
    using swap_used_range [OF base sp] s2(2) by (auto simp: vm_base_def in_range_def)
  then obtain b where b: "Clear (swapMap (kern s2)) sp = Inr b" "bm_wf b" "numBits b = 512"
      "marked b = swap_used s - {sp}"
    using Clear_ok [of "swapMap (kern s2)" sp] s2(2) k1(6) k2(6) unfolding vm_base_def swap_used_def by metis
  let ?s = "s2\<lparr>kern := (kern s2)\<lparr>swapMap := b\<rparr>\<rparr>"
  show thesis
  proof (rule that [of ?s])
    show "sw_clearPage sp s = Inr ?s" using s1(1,5) s2(1) b(1) by (simp add: sw_clearPage_def)
    show used: "swap_used ?s = swap_used s - {sp}" using b(4) by (simp add: swap_used_def)
    have "swap_used s2 = swap_used s" using k1(6) k2(6) by simp
    then show "vm_base i ?s"
      using s2(2) b(2-4) by (simp add: vm_base_def swap_used_def)
    show "swap_bytes i ?s sq = swap_bytes i s sq" if "sq \<in> swap_used s" "sq \<noteq> sp" for sq
      using s2(5) [of sq] that k1(6) s1(6) by (simp add: swap_bytes_def fun_eq_iff)
    show "same_map s ?s" using same_map_trans [OF k1(9) k2(9)] by simp
  qed (use s1 s2 k1 k2 in \<open>simp_all add: get_entry_cong\<close>)
qed

lemma free_slot_state:
  fixes s s3 :: "('p, 'x) vm_scheme hw"
  assumes len: "length (activePageMap (kern s)) = 32"
    and slots: "\<And>j. j < 32 \<Longrightarrow> slot_ok i s j" and k: "k < 32" "activePageMap (kern s) ! k = sp" "sp \<noteq> -1"
    and m: "activePageMap (kern s3) = (activePageMap (kern s))[k := -1]"
      "activePages (kern s3) = (activePages (kern s))[k := None]" "swap_used s3 = swap_used s - {sp}"
    and fr: "\<And>j. frame_bytes s3 j = frame_bytes s j" and ent: "\<And>q. get_entry q s3 = get_entry q s"
    and sw: "\<And>sq. sq \<in> swap_used s \<Longrightarrow> sq \<noteq> sp \<Longrightarrow> swap_bytes i s3 sq = swap_bytes i s sq"
  shows "\<And>j. j < 32 \<Longrightarrow> slot_ok i s3 j" and "active s3 = active s - {int k}"
    and "\<And>sq. sq \<in> swap_used s - {sp} \<Longrightarrow> sq \<noteq> -1 \<Longrightarrow> page_bytes i s3 sq = page_bytes i s sq"
proof -
  let ?m = "activePageMap (kern s)"
  have uniq: "a = b" if "a < 32" "b < 32" "?m ! a = ?m ! b" "?m ! b \<noteq> -1" for a b
    using slots [OF that(2)] that by (auto simp: slot_ok_def Let_def)
  have uniq3: "a = b" if "a < 32" "b < 32" "?m[k := -1] ! a = ?m ! b" "?m ! b \<noteq> -1" for a b
    using uniq [OF that(1,2)] that k(1) len by (cases "a = k") auto
  show "active s3 = active s - {int k}"
    using m(1) len k(1) by (auto simp: active_def nth_list_update split: if_splits)
  show "slot_ok i s3 j" if j: "j < 32" for j
  proof (cases "j = k \<or> ?m ! j = -1")
    case True
    then have "activePageMap (kern s3) ! j = -1" using m(1) len j k(1) by (auto simp: nth_list_update)
    then show ?thesis by (simp add: slot_ok_def)
  next
    case False
    have d: "?m ! j \<noteq> sp" using uniq [OF k(1) j] k(2,3) False by auto
    have "slot_ok i s j" by (rule slots [OF j])
    then obtain q x where q: "activePages (kern s) ! j = Some q" "get_entry q s = Inr x" "physicalPage x = ?m ! j"
        "dirty x \<or> frame_bytes s j = swap_bytes i s (?m ! j)" and used: "?m ! j \<in> swap_used s"
      using False unfolding slot_ok_def Let_def by blast
    have mj: "activePageMap (kern s3) ! j = ?m ! j" "activePages (kern s3) ! j = Some q"
      using m(1,2) False q(1) by simp_all
    have "\<forall>l<32. activePageMap (kern s3) ! l = ?m ! j \<longrightarrow> l = j"
      unfolding m(1) using uniq3 [OF _ j] False by blast
    moreover have "?m ! j \<in> swap_used s3" using used d m(3) by simp
    ultimately show ?thesis
      unfolding slot_ok_def Let_def mj fr ent sw [OF used d] using q by blast
  qed
  show "page_bytes i s3 sq = page_bytes i s sq" if sq: "sq \<in> swap_used s - {sp}" "sq \<noteq> -1" for sq
  proof (cases "sq \<in> set ?m")
    case True
    then obtain j where j: "j < 32" "?m ! j = sq" using len by (metis in_set_conv_nth)
    have jk: "j \<noteq> k" using j sq(1) k(2) by auto
    have "page_bytes i s sq = frame_bytes s j"
    proof (rule page_bytes_active [OF len j], intro allI impI)
      show "l = j" if "l < 32" "?m ! l = sq" for l using uniq [OF that(1) j(1)] that(2) j(2) sq(2) by simp
    qed
    moreover have "page_bytes i s3 sq = frame_bytes s3 j"
    proof (rule page_bytes_active)
      show "length (activePageMap (kern s3)) = 32" "activePageMap (kern s3) ! j = sq" using m(1) len j jk by simp_all
      show "\<forall>l<32. activePageMap (kern s3) ! l = sq \<longrightarrow> l = j"
      proof (intro allI impI)
        show "l = j" if "l < 32" "activePageMap (kern s3) ! l = sq" for l
          using uniq3 [OF that(1) j(1)] that(2) j(2) sq(2) m(1) by simp
      qed
    qed (rule j(1))
    ultimately show ?thesis using fr by simp
  next
    case False
    moreover have "sq \<notin> set (?m[k := -1])"
      using False sq(2) set_update_subset_insert [of ?m k "-1"] by blast
    ultimately show ?thesis
      using page_bytes_inactive [of s sq i] page_bytes_inactive [of s3 sq i] m(1) sw len sq(1) by simp
  qed
qed

context replacement_policy
begin

text \<open>Releasing a page that is in a frame. One that is not in a frame fails an assertion of the frame map.\<close>

lemma vm_clearPage_ok:
  assumes ok: "vm_ok invar pages i s" and k: "k < 32" "activePageMap (kern s) ! k = sp" and sp: "sp \<in> swap_used s"
  shows "\<exists>s'. vm_clearPage P sp s = Inr s' \<and> vm_ok invar pages i s' \<and> swap_used s' = swap_used s - {sp} \<and>
    same_map s s' \<and> vm.more (kern s') = vm.more (kern s) \<and>
    (\<forall>sq\<in>swap_used s - {sp}. page_bytes i s' sq = page_bytes i s sq)"
proof -
  have base: "vm_base i s" and mm: "mm_wf (memMgr (kern s))" and inv: "invar (policy (kern s))"
    and pg: "pages (policy (kern s)) = active s" and fr: "frames_used (memMgr (kern s)) = active s"
    and slots: "\<And>k. k < 32 \<Longrightarrow> slot_ok i s k"
    using ok by (simp_all add: vm_ok_def)
  note len = vm_ok_lengths [OF ok]
  have n: "sp \<noteq> -1" using swap_used_range [OF base sp] by auto
  let ?m = "activePageMap (kern s)"
  have split: "?m = take k ?m @ sp # drop (Suc k) ?m" using k len by (metis id_take_nth_drop)
  have "sp \<notin> set (take k ?m)"
  proof
    assume "sp \<in> set (take k ?m)"
    then obtain j where j: "j < k" "?m ! j = sp" by (auto simp: in_set_conv_nth)
    then have "j = k" using vm_ok_unique [OF ok _ k(1) j(2) k(2) n] k(1) by simp
    with j(1) show False by simp
  qed
  from find_slot_first [OF split this] len k(1)
  have slot: "find_slot ?m sp [0..31] = Inr (int k)" by simp
  have ka: "int k \<in> active s" using k n by (auto simp: active_def)
  obtain m' where m': "mm_clearPage (memMgr (kern s)) (int k) = Inr m'" "mm_wf m'" "frames_used m' = active s - {int k}"
    using frame_slots.free_ok [OF mm, of "int k"] fr k(1) by auto
  obtain w where w: "clearPage P (int k) (policy (kern s)) = Inr w" "invar w" "pages w = active s - {int k}"
    using clearPage_ok [OF inv, of "int k"] pg ka by auto
  define s1 where "s1 = s\<lparr>kern := (kern s)\<lparr>activePageMap := ?m[k := -1], activePages := (activePages (kern s))[k := None],
      memMgr := m'\<rparr>\<rparr>"
  have s1: "vm_base i s1" "sp \<in> swap_used s1" "swap_used s1 = swap_used s" "same_map s s1"
      "get_entry q s1 = get_entry q s" "swap_bytes i s1 = swap_bytes i s" for q
    using base sp by (simp_all add: s1_def vm_base_def swap_used_def get_entry_cong swap_bytes_def fun_eq_iff)
  obtain s2 where s2: "sw_clearPage sp s1 = Inr s2" "vm_base i s2" "swap_used s2 = swap_used s1 - {sp}"
    "\<And>sq. sq \<in> swap_used s1 \<Longrightarrow> sq \<noteq> sp \<Longrightarrow> swap_bytes i s2 sq = swap_bytes i s1 sq"
    "mainMemory s2 = mainMemory s1" "activePageMap (kern s2) = activePageMap (kern s1)"
    "activePages (kern s2) = activePages (kern s1)" "policy (kern s2) = policy (kern s1)"
    "memMgr (kern s2) = memMgr (kern s1)" "vm.more (kern s2) = vm.more (kern s1)"
    "\<And>q. get_entry q s2 = get_entry q s1" "same_map s1 s2"
    by (rule sw_clearPage_ok [OF s1(1,2)]) blast
  define s3 where "s3 = s2\<lparr>kern := (kern s2)\<lparr>policy := w\<rparr>\<rparr>"
  have run: "vm_clearPage P sp s = Inr s3"
    using slot len k(1) m'(1) s2(1,8) w(1) by (simp add: vm_clearPage_def s1_def s3_def)
  have m3: "activePageMap (kern s3) = ?m[k := -1]" "activePages (kern s3) = (activePages (kern s))[k := None]"
      "swap_used s3 = swap_used s - {sp}" "frame_bytes s3 j = frame_bytes s j" "get_entry q s3 = get_entry q s"
      "\<And>sq. sq \<in> swap_used s \<Longrightarrow> sq \<noteq> sp \<Longrightarrow> swap_bytes i s3 sq = swap_bytes i s sq" for j q
    using s1 s2 by (simp_all add: s3_def s1_def swap_used_def frame_bytes_def get_entry_cong swap_bytes_def)
  have st: "\<And>j. j < 32 \<Longrightarrow> slot_ok i s3 j" "active s3 = active s - {int k}"
    "\<And>sq. sq \<in> swap_used s - {sp} \<Longrightarrow> sq \<noteq> -1 \<Longrightarrow> page_bytes i s3 sq = page_bytes i s sq"
    by (rule free_slot_state [OF conjunct1 [OF len] slots k n m3(1-3,4,5,6)]; assumption)+
  have "vm_ok invar pages i s3"
    using s2(2,9) m'(2,3) w(2,3) st(1,2)
    by (simp add: vm_ok_def vm_base_def s3_def s1_def swap_used_def)
  moreover have "page_bytes i s3 sq = page_bytes i s sq" if "sq \<in> swap_used s - {sp}" for sq
    using st(3) [OF that] swap_used_range [OF base, of sq] that by auto
  moreover have "same_map s s3" using same_map_trans [OF s1(4) s2(12)] by (simp add: s3_def)
  moreover have "vm.more (kern s3) = vm.more (kern s)" using s2(10) by (simp add: s3_def s1_def)
  ultimately show ?thesis using run m3(3) by blast
qed

end

lemma vm_clearPage_inactive:
  assumes "vm_ok invar pages i s" "sp \<notin> set (activePageMap (kern s))"
  shows "vm_clearPage P sp s = Inl AssertFailed"
proof -
  have "mm_wf (memMgr (kern s))" using assms(1) by (simp add: vm_ok_def)
  then have "mm_clearPage (memMgr (kern s)) 32 = Inl AssertFailed" using frame_slots.free_bad by simp
  then show ?thesis
    using find_slot_absent [OF assms(2)] vm_ok_lengths [OF assms(1)] by (simp add: vm_clearPage_def)
qed

end
