(* ===== verification/Paged_Access.thy ===== *)
theory Paged_Access
  imports Virtual_Memory
begin

text \<open>
  Loads and stores of user programs under demand paging: \<^verbatim>\<open>Machine::ReadMem\<close> and
  \<^verbatim>\<open>Machine::WriteMem\<close> of theory \<open>Translation\<close> with the frame lookup \<open>vm_frame\<close> of the virtual memory
  manager. The lemmas show that an access works on the content of its page wherever that page is, and
  that what a program stores is what it reads later, however often its page is moved to the swap file
  and back in between.
\<close>

text \<open>No two translation entries stand for the same page of the swap file.\<close>

definition private_pages :: "('p, 'x) vm_scheme hw \<Rightarrow> bool" where
  "private_pages s \<longleftrightarrow>
     (\<forall>q q' e e'. get_entry q s = Inr e \<longrightarrow> get_entry q' s = Inr e' \<longrightarrow>
        physicalPage e = physicalPage e' \<longrightarrow> physicalPage e \<in> swap_used s \<longrightarrow> q = q')"

lemma private_pagesD:
  assumes "private_pages s" "get_entry q s = Inr e" "get_entry q' s = Inr e'" "physicalPage e = physicalPage e'"
    "physicalPage e \<in> swap_used s"
  shows "q = q'"
  using assms(1) [unfolded private_pages_def, rule_format, OF assms(2-5)] .

lemma private_pages_map:
  assumes "private_pages s" "same_map s s'" "swap_used s' = swap_used s"
  shows "private_pages s'"
  unfolding private_pages_def
proof (intro allI impI)
  fix q q' e e'
  assume a: "get_entry q s' = Inr e" "get_entry q' s' = Inr e'" "physicalPage e = physicalPage e'"
    "physicalPage e \<in> swap_used s'"
  obtain u d e0 where 0: "get_entry q s = Inr e0" "e = e0\<lparr>use := u, dirty := d\<rparr>"
    by (rule same_map_back [OF assms(2) a(1)])
  obtain u' d' e1 where 1: "get_entry q' s = Inr e1" "e' = e1\<lparr>use := u', dirty := d'\<rparr>"
    by (rule same_map_back [OF assms(2) a(2)])
  show "q = q'"
    by (rule private_pagesD [OF assms(1) 0(1) 1(1)]) (use 0(2) 1(2) a(3,4) assms(3) in simp_all)
qed

text \<open>A page mapped at a virtual address: the entry the address translates to, and its page of the swap file.\<close>

definition mapped :: "32 word \<Rightarrow> bool \<Rightarrow> int \<Rightarrow> ('p, 'x) vm_scheme hw \<Rightarrow> bool" where
  "mapped va writing sp s \<longleftrightarrow>
     (\<exists>p e. find_entry (page_of va) s = Inr (Inr p) \<and> get_entry p s = Inr e \<and>
        \<not> (readOnly e \<and> writing) \<and> physicalPage e = sp \<and> sp \<in> swap_used s)"

lemma mapped_map:
  assumes "mapped va w sp s" "same_map s s'" "mmu_wf s" "swap_used s' = swap_used s"
  shows "mapped va w sp s'"
proof -
  obtain p e where p: "find_entry (page_of va) s = Inr (Inr p)" "get_entry p s = Inr e"
      "\<not> (readOnly e \<and> w)" "physicalPage e = sp" "sp \<in> swap_used s"
    using assms(1) by (auto simp: mapped_def)
  obtain u d where "get_entry p s' = Inr (e\<lparr>use := u, dirty := d\<rparr>)"
    by (rule same_map_entry [OF assms(2) p(2)])
  with p assms(2-4) show ?thesis by (auto simp: mapped_def same_map_def)
qed

lemma slot_okE:
  assumes "slot_ok i s k" "activePageMap (kern s) ! k = sp" "sp \<noteq> -1"
  obtains q e where "activePages (kern s) ! k = Some q" "get_entry q s = Inr e" "physicalPage e = sp"
    "\<forall>j<32. activePageMap (kern s) ! j = sp \<longrightarrow> j = k" "sp \<in> swap_used s"
proof -
  have "\<forall>j<32. activePageMap (kern s) ! j = sp \<longrightarrow> j = k"
    and "\<exists>q e. activePages (kern s) ! k = Some q \<and> get_entry q s = Inr e \<and> physicalPage e = sp"
    and "sp \<in> swap_used s"
    using assms(1,3) unfolding slot_ok_def Let_def assms(2) by blast+
  then show thesis by (elim exE conjE) (rule that)
qed

lemma slot_ok_dirtyI:
  assumes "activePageMap (kern s) ! k = sp" "sp \<in> swap_used s"
    "\<forall>j<32. activePageMap (kern s) ! j = sp \<longrightarrow> j = k" "activePages (kern s) ! k = Some q"
    "get_entry q s = Inr e" "physicalPage e = sp" "dirty e"
  shows "slot_ok i s k"
  unfolding slot_ok_def Let_def assms(1) using assms(2-) by blast

text \<open>A change of memory in the frame of a page whose entry is dirty, or no change at all.\<close>

lemma vm_ok_store:
  assumes ok: "vm_ok invar pages i s" and priv: "private_pages s"
    and k: "k < 32" "activePageMap (kern s) ! k = sp" "sp \<noteq> -1"
    and p: "get_entry p s = Inr e" "physicalPage e = sp" "dirty e"
    and m: "\<And>b. b div 128 \<noteq> k \<Longrightarrow> m b = mainMemory s b"
  shows "vm_ok invar pages i (s\<lparr>mainMemory := m\<rparr>)"
    and "page_bytes i (s\<lparr>mainMemory := m\<rparr>) sp = mem_bytes m (k * 128) 128"
    and "sq \<noteq> sp \<Longrightarrow> sq \<noteq> -1 \<Longrightarrow> page_bytes i (s\<lparr>mainMemory := m\<rparr>) sq = page_bytes i s sq"
proof -
  let ?s = "s\<lparr>mainMemory := m\<rparr>"
  note len = vm_ok_lengths [OF ok]
  have fr: "frame_bytes ?s j = frame_bytes s j" if "j \<noteq> k" for j
  proof -
    have "m (j * 128 + n) = mainMemory s (j * 128 + n)" if "n < 128" for n
      using that \<open>j \<noteq> k\<close> by (intro m) auto
    then show ?thesis by (simp add: frame_bytes_def mem_bytes_def)
  qed
  have "slot_ok i s k" using ok k(1) by (simp add: vm_ok_def)
  from slot_okE [OF this k(2,3)] obtain q x where
    q: "activePages (kern s) ! k = Some q" "get_entry q s = Inr x" "physicalPage x = sp"
      "\<forall>j<32. activePageMap (kern s) ! j = sp \<longrightarrow> j = k" and sp: "sp \<in> swap_used s" .
  have "slot_ok i ?s j" if j: "j < 32" for j
  proof (cases "j = k")
    case False
    then show ?thesis
      using ok j fr [OF False] by (simp add: vm_ok_def slot_ok_def Let_def swap_used_def swap_bytes_def get_entry_cong)
  next
    case True
    have "q = p" by (rule private_pagesD [OF priv q(2) p(1)]) (use q(3) p(2) sp in simp_all)
    have "slot_ok i ?s k"
    proof (rule slot_ok_dirtyI)
      show "activePageMap (kern ?s) ! k = sp" "activePages (kern ?s) ! k = Some q" "sp \<in> swap_used ?s"
        using k(2) q(1) sp by (simp_all add: swap_used_def)
      show "get_entry q ?s = Inr e" using \<open>q = p\<close> p(1) by (simp add: get_entry_cong)
      have "kern ?s = kern s" by simp
      then show "\<forall>j<32. activePageMap (kern ?s) ! j = sp \<longrightarrow> j = k" using q(4) by (simp only:)
    qed (rule p(2), rule p(3))
    with True show ?thesis by simp
  qed
  then show "vm_ok invar pages i ?s"
    using ok by (simp add: vm_ok_def vm_base_def swap_used_def active_def)
  have "page_bytes i ?s sp = frame_bytes ?s k"
    using k len vm_ok_unique [OF ok] by (intro page_bytes_active) auto
  then show "page_bytes i ?s sp = mem_bytes m (k * 128) 128" by (simp add: frame_bytes_def)
  assume sq: "sq \<noteq> sp" "sq \<noteq> -1"
  show "page_bytes i ?s sq = page_bytes i s sq"
  proof (cases "map_of (zip (activePageMap (kern s)) [0..<32]) sq")
    case None
    then show ?thesis by (simp add: page_bytes_def swap_bytes_def)
  next
    case (Some j)
    then have "(sq, j) \<in> set (zip (activePageMap (kern s)) [0..<32])" by (rule map_of_SomeD)
    then have "j \<noteq> k" using sq k len by (auto simp: set_zip)
    with Some fr show ?thesis by (simp add: page_bytes_def)
  qed
qed

text \<open>Changing an entry, with the same page, and dirty if it was.\<close>

lemma vm_ok_entry:
  assumes ok: "vm_ok invar pages i s" and p: "get_entry p s = Inr e" and set: "set_entry p e' s = Inr s'"
    and e': "physicalPage e' = physicalPage e" "dirty e \<Longrightarrow> dirty e'"
  shows "vm_ok invar pages i s'" and "page_bytes i s' sq = page_bytes i s sq" and "swap_used s' = swap_used s"
proof -
  have sm: "vm_same s s'" by (rule vm_same_intros(2) [OF set])
  have fr: "frame_bytes s' k = frame_bytes s k" for k using set_entry_frame [OF set] by (simp add: frame_bytes_def)
  have "slot_ok i s' k" if k: "k < 32" for k
  proof (cases "activePageMap (kern s) ! k = -1")
    case True
    then show ?thesis using sm by (simp add: slot_ok_def vm_same_def)
  next
    case False
    have "slot_ok i s k" using ok k by (simp add: vm_ok_def)
    then obtain q x where q: "activePages (kern s) ! k = Some q" "get_entry q s = Inr x"
        "physicalPage x = activePageMap (kern s) ! k"
        "dirty x \<or> frame_bytes s k = swap_bytes i s (activePageMap (kern s) ! k)"
      and used: "activePageMap (kern s) ! k \<in> swap_used s"
      and uniq: "\<forall>j<32. activePageMap (kern s) ! j = activePageMap (kern s) ! k \<longrightarrow> j = k"
      using False unfolding slot_ok_def Let_def by blast
    define y where "y = (if q = p then e' else x)"
    have y: "get_entry q s' = Inr y" "physicalPage y = activePageMap (kern s) ! k"
        "dirty y \<or> frame_bytes s' k = swap_bytes i s' (activePageMap (kern s) ! k)"
      using q p e' set_entry_other [OF set, of q] fr vm_base_entry(2) [OF set]
      by (auto simp: y_def)
    from sm have m: "activePageMap (kern s') = activePageMap (kern s)" "activePages (kern s') = activePages (kern s)"
      by (simp_all add: vm_same_def)
    show ?thesis
      unfolding slot_ok_def Let_def m vm_sameD [OF sm] using used uniq q(1) y by blast
  qed
  with ok sm vm_base_entry(1) [OF set] vm_sameD [OF sm] show "vm_ok invar pages i s'"
    by (simp add: vm_ok_def vm_same_def)
  show "page_bytes i s' sq = page_bytes i s sq"
    using sm fr vm_base_entry(2) [OF set] by (simp add: page_bytes_def vm_same_def split: option.split)
  show "swap_used s' = swap_used s" by (rule vm_sameD [OF sm])
qed

text \<open>Setting the use bit, and for a write the dirty bit, of the entry of an active page.\<close>

lemma vm_ok_touch:
  assumes ok: "vm_ok invar pages i s" and p: "get_entry p s = Inr e" and set: "set_entry p (touch w e) s = Inr s'"
  shows "vm_ok invar pages i s'" and "page_bytes i s' sq = page_bytes i s sq" and "swap_used s' = swap_used s"
  by (rule vm_ok_entry [OF ok p set]; simp)+

lemma frame_index: "k < 32 \<Longrightarrow> unat (word_of_int (int k) :: 32 word) = k"
  by (simp add: unsigned_of_nat take_bit_nat_eq_self)

lemma frame_address:
  assumes "k < 32"
  shows "unat ((word_of_int (int k) :: 32 word) * 128 + va mod 128) = k * 128 + unat va mod 128"
    and "sint ((word_of_int (int k) :: 32 word) * 128 + va mod 128) = int (k * 128 + unat va mod 128)"
proof -
  have lt: "(word_of_int (int k) :: 32 word) < 32" using frame_index [OF assms] assms by (simp add: word_less_nat_alt)
  show "unat ((word_of_int (int k) :: 32 word) * 128 + va mod 128) = k * 128 + unat va mod 128"
    "sint ((word_of_int (int k) :: 32 word) * 128 + va mod 128) = int (k * 128 + unat va mod 128)"
    unfolding phys_addr [OF lt] frame_index [OF assms] by (rule refl)+
qed

lemma length_store_bytes: "sz \<in> {1, 2, 4} \<Longrightarrow> length (store_bytes sz v) = nat sz"
  by (auto simp: store_bytes_def)

lemma WriteMem_value:
  assumes "Translate fr va sz True s = Inr (Phys a, s1)" and "sz \<in> {1, 2, 4}"
  shows "WriteMem fr EH va sz v s =
    Inr (True, s1\<lparr>mainMemory := mem_put (mainMemory s1) (unat a) (store_bytes sz v)\<rparr>)"
  using assms
  by (auto simp: WriteMem_def store_bytes_def host_bytes_WordToMachine host_bytes_ShortToMachine ucast_masks)

text \<open>Bytes stored inside a frame, seen as bytes stored inside the page.\<close>

lemma mem_bytes_put_inside:
  assumes "off + length bs \<le> n"
  shows "mem_bytes (mem_put mem (a + off) bs) a n = put_bytes off bs (mem_bytes mem a n)"
proof (rule nth_equalityI)
  show "length (mem_bytes (mem_put mem (a + off) bs) a n) = length (put_bytes off bs (mem_bytes mem a n))"
    using assms by (simp add: length_put_bytes)
  fix j assume "j < length (mem_bytes (mem_put mem (a + off) bs) a n)"
  then have j: "j < n" by simp
  have "mem_put mem (a + off) bs (a + j) = (if off \<le> j \<and> j < off + length bs then bs ! (j - off) else mem (a + j))"
  proof (cases "off \<le> j \<and> j < off + length bs")
    case True
    then have "j - off < length bs" by linarith
    with True show ?thesis using mem_put_at [of "j - off" bs mem "a + off"] by simp
  next
    case False
    then show ?thesis by (auto intro!: mem_put_other)
  qed
  then show "mem_bytes (mem_put mem (a + off) bs) a n ! j = put_bytes off bs (mem_bytes mem a n) ! j"
    using j assms by (simp add: nth_put_bytes length_put_bytes mem_bytes_def)
qed

lemma mem_bytes_part:
  assumes "off + m \<le> n" shows "mem_bytes mem (a + off) m = take m (drop off (mem_bytes mem a n))"
  using assms by (intro nth_equalityI) (auto simp: mem_bytes_def add.assoc)

text \<open>
  The outcome of the translation under demand paging: it takes the page of the entry to a frame
  and gives the address in it.
\<close>

context replacement_policy
begin

lemma Translate_vm:
  assumes ok: "vm_ok invar pages i s" and wf: "mmu_wf s" and sz: "sz \<in> {1, 2, 4}" "\<not> misaligned va sz"
    and mp: "mapped va w sp s"
  obtains k s' where "Translate (vm_frame P) va sz w s = Inr (Phys (word_of_int (int k) * 128 + va mod 128), s')"
    "k < 32" "vm_ok invar pages i s'" "same_map s s'" "activePageMap (kern s') ! k = sp"
    "swap_used s' = swap_used s" "vm.more (kern s') = vm.more (kern s)"
    "\<And>sq. sq \<in> swap_used s \<Longrightarrow> page_bytes i s' sq = page_bytes i s sq"
    "w \<Longrightarrow> \<exists>p e. get_entry p s' = Inr e \<and> physicalPage e = sp \<and> dirty e"
proof -
  obtain p e where p: "find_entry (page_of va) s = Inr (Inr p)" "get_entry p s = Inr e"
      "\<not> (readOnly e \<and> w)" "physicalPage e = sp" "sp \<in> swap_used s"
    using mp by (auto simp: mapped_def)
  obtain k s1 where s1: "vm_frame P p s = Inr (word_of_int (int k), s1)" "brings_in invar pages i sp k s s1"
    using vm_frame_ok [OF ok p(2)] p(4,5) by blast
  have b: "vm_ok invar pages i s1" "same_map s s1" "k < 32" "activePageMap (kern s1) ! k = sp"
      "swapMap (kern s1) = swapMap (kern s)" "vm.more (kern s1) = vm.more (kern s)"
      "\<And>sq. sq \<in> swap_used s \<Longrightarrow> page_bytes i s1 sq = page_bytes i s sq"
    using s1(2) by (simp_all add: brings_in_def)
  obtain u d where "get_entry p s1 = Inr (e\<lparr>use := u, dirty := d\<rparr>)" by (rule same_map_entry [OF b(2) p(2)])
  then obtain e1 where e1: "get_entry p s1 = Inr e1" "physicalPage e1 = sp" using p(4) by auto
  then obtain s2 where s2: "set_entry p (touch w e1) s1 = Inr s2" using set_entry_exists by blast
  let ?pf = "word_of_int (int k) :: 32 word"
  have lt: "\<not> 32 \<le> ?pf" using frame_index [OF b(3)] b(3) by (simp add: word_le_nat_alt)
  have "k * 128 + 128 \<le> 4096" using b(3) by simp
  with aligned_in_page [OF sz] have "int (k * 128 + unat va mod 128) + sz \<le> 4096" using sz(1) by auto
  then have bound: "0 \<le> sint (?pf * 128 + va mod 128) \<and> sint (?pf * 128 + va mod 128) + sz \<le> 4096"
    unfolding frame_address(2) [OF b(3)] by simp
  have ex: "tlb s = None \<or> pageTable s = None" "tlb s \<noteq> None \<or> pageTable s \<noteq> None"
    using mmu_wf_exclusive [OF wf] by blast+
  have "Translate (vm_frame P) va sz w s = Inr (Phys (?pf * 128 + va mod 128), s2)"
    using p(1,2,3) s1(1) e1(1) s2 lt bound
    by (simp only: Translate_def if_not_P [OF sz(2) [unfolded misaligned_def]] ASSERT_True [OF ex(1)]
        ASSERT_True [OF ex(2)] rbind_Inr Let_def) auto
  moreover have sm: "vm_same s1 s2" by (rule vm_same_intros(2) [OF s2])
  have "same_map s1 s2" by (rule same_map_set [OF e1(1) s2])
  then have "same_map s s2" using b(2) same_map_trans by blast
  moreover have "\<exists>p e. get_entry p s2 = Inr e \<and> physicalPage e = sp \<and> dirty e" if w
    using that set_entry_other [OF s2, of p] e1 by (intro exI [of _ p] exI [of _ "touch w e1"]) simp
  moreover note vm_ok_touch [OF b(1) e1(1) s2]
  moreover have "swap_used s1 = swap_used s" using b(5) by (simp add: swap_used_def)
  ultimately show thesis
    using b sm by (intro that [of k s2]) (simp_all add: vm_same_def)
qed

lemma page_bytes_frame:
  assumes "vm_ok invar pages i s" "k < 32" "activePageMap (kern s) ! k = sp" "sp \<in> swap_used s"
  shows "page_bytes i s sp = frame_bytes s k" "sp \<noteq> -1"
proof -
  show n: "sp \<noteq> -1" using assms(1,4) swap_used_range by (fastforce simp: vm_ok_def)
  show "page_bytes i s sp = frame_bytes s k"
    using assms(2,3) n vm_ok_lengths [OF assms(1)] vm_ok_unique [OF assms(1)]
    by (intro page_bytes_active) auto
qed

lemma WriteMem_vm:
  assumes ok: "vm_ok invar pages i s" and wf: "mmu_wf s" and priv: "private_pages s"
    and sz: "sz \<in> {1, 2, 4}" "\<not> misaligned va sz" and mp: "mapped va True sp s"
  shows "\<exists>s'. WriteMem (vm_frame P) EH va sz v s = Inr (True, s') \<and> vm_ok invar pages i s' \<and> same_map s s' \<and>
    swap_used s' = swap_used s \<and> page_bytes i s' sp = put_bytes (unat va mod 128) (store_bytes sz v) (page_bytes i s sp) \<and>
    (\<forall>sq\<in>swap_used s - {sp}. page_bytes i s' sq = page_bytes i s sq) \<and> vm.more (kern s') = vm.more (kern s)"
proof -
  have used: "sp \<in> swap_used s" using mp by (auto simp: mapped_def)
  obtain k s1 where s1: "Translate (vm_frame P) va sz True s = Inr (Phys (word_of_int (int k) * 128 + va mod 128), s1)"
    "k < 32" "vm_ok invar pages i s1" "same_map s s1" "activePageMap (kern s1) ! k = sp"
    "swap_used s1 = swap_used s" "\<And>sq. sq \<in> swap_used s \<Longrightarrow> page_bytes i s1 sq = page_bytes i s sq"
    "True \<Longrightarrow> \<exists>p e. get_entry p s1 = Inr e \<and> physicalPage e = sp \<and> dirty e" "vm.more (kern s1) = vm.more (kern s)"
    by (rule Translate_vm [OF ok wf sz mp]) blast
  obtain p e where p: "get_entry p s1 = Inr e" "physicalPage e = sp" "dirty e" using s1(8) by blast
  define m where "m = mem_put (mainMemory s1) (k * 128 + unat va mod 128) (store_bytes sz v)"
  have fit: "unat va mod 128 + length (store_bytes sz v) \<le> 128"
    using aligned_in_page [OF sz] length_store_bytes [OF sz(1)] by simp
  have run: "WriteMem (vm_frame P) EH va sz v s = Inr (True, s1\<lparr>mainMemory := m\<rparr>)"
    using WriteMem_value [OF s1(1) sz(1)] by (simp only: frame_address(1) [OF s1(2)] m_def)
  have "m b = mainMemory s1 b" if "b div 128 \<noteq> k" for b
  proof -
    have "b < k * 128 \<or> k * 128 + 128 \<le> b" using that by (auto simp: not_less)
    then show ?thesis using fit by (auto simp: m_def intro!: mem_put_other)
  qed
  note store = vm_ok_store [OF s1(3) private_pages_map [OF priv s1(4,6)] s1(2,5) _ p this]
  have u1: "sp \<in> swap_used s1" using used s1(6) by simp
  note fb = page_bytes_frame [OF s1(3,2,5) u1]
  have "page_bytes i (s1\<lparr>mainMemory := m\<rparr>) sp = mem_bytes m (k * 128) 128" using store(2) fb(2) by blast
  also have "\<dots> = put_bytes (unat va mod 128) (store_bytes sz v) (frame_bytes s1 k)"
    unfolding m_def frame_bytes_def by (rule mem_bytes_put_inside [OF fit])
  also have "frame_bytes s1 k = page_bytes i s sp" using fb(1) s1(7) [OF used] by simp
  finally have sp: "page_bytes i (s1\<lparr>mainMemory := m\<rparr>) sp = put_bytes (unat va mod 128) (store_bytes sz v) (page_bytes i s sp)" .
  have "page_bytes i (s1\<lparr>mainMemory := m\<rparr>) sq = page_bytes i s sq" if sq: "sq \<in> swap_used s - {sp}" for sq
  proof -
    have "sq \<noteq> -1" using sq ok swap_used_range by (fastforce simp: vm_ok_def)
    then show ?thesis using store(3) [OF fb(2)] sq s1(7) by simp
  qed
  moreover have "swap_used (s1\<lparr>mainMemory := m\<rparr>) = swap_used s" using s1(6) by (simp add: swap_used_def)
  ultimately show ?thesis using run store(1) fb(2) s1(4,9) sp by (intro exI [of _ "s1\<lparr>mainMemory := m\<rparr>"]) simp
qed

lemma ReadMem_vm:
  assumes ok: "vm_ok invar pages i s" and wf: "mmu_wf s"
    and sz: "sz \<in> {1, 2, 4}" "\<not> misaligned va sz" and mp: "mapped va False sp s"
    and val: "take (nat sz) (drop (unat va mod 128) (page_bytes i s sp)) = store_bytes sz v"
  shows "\<exists>s'. ReadMem (vm_frame P) EH va sz s = Inr (Some (stored_value sz v), s') \<and> vm_ok invar pages i s' \<and>
    (\<forall>sq\<in>swap_used s. page_bytes i s' sq = page_bytes i s sq)"
proof -
  have used: "sp \<in> swap_used s" using mp by (auto simp: mapped_def)
  obtain k s1 where s1: "Translate (vm_frame P) va sz False s = Inr (Phys (word_of_int (int k) * 128 + va mod 128), s1)"
    "k < 32" "vm_ok invar pages i s1" "activePageMap (kern s1) ! k = sp"
    "swap_used s1 = swap_used s" "\<And>sq. sq \<in> swap_used s \<Longrightarrow> page_bytes i s1 sq = page_bytes i s sq"
    by (rule Translate_vm [OF ok wf sz mp]) blast
  have u1: "sp \<in> swap_used s1" using used s1(5) by simp
  have "mem_bytes (mainMemory s1) (k * 128 + unat va mod 128) (nat sz) =
      take (nat sz) (drop (unat va mod 128) (frame_bytes s1 k))"
    unfolding frame_bytes_def by (rule mem_bytes_part [OF aligned_in_page [OF sz]])
  also have "frame_bytes s1 k = page_bytes i s sp" using page_bytes_frame [OF s1(3,2,4) u1] s1(6) [OF used] by simp
  also note val
  finally have "ReadMem (vm_frame P) EH va sz s = Inr (Some (stored_value sz v), s1)"
    by (intro ReadMem_bytes [OF s1(1) sz(1)]) (simp only: frame_address(1) [OF s1(2)])
  with s1(3,6) show ?thesis by blast
qed

end

subsection \<open>Properties\<close>

abbreviation rr_pages :: "RandomReplacement \<Rightarrow> int set" where
  "rr_pages p \<equiv> q_pages (rr_queue p)"

text \<open>
  C29: demand paging is transparent. With the random policy that \<^verbatim>\<open>VMManager\<close> installs, a user program's
  store of 1, 2 or 4 bytes to a mapped, writable, aligned address succeeds; then, whatever pages of
  whatever programs are looked up, and whatever evictions to the swap file that takes, a
  load from the same address succeeds and returns what was stored; and no byte of any other page
  has changed.
\<close>

theorem stores_survive_paging:
  fixes s :: "(RandomReplacement, 'x) vm_scheme hw"
  assumes "vm_ok rr_ok rr_pages i s" "mmu_wf s" "private_pages s"
    and "sz \<in> {1, 2, 4}" "\<not> misaligned va sz" "mapped va True sp s"
    and "\<forall>q\<in>set qs. \<exists>e. get_entry q s = Inr e \<and> physicalPage e \<in> swap_used s"
  shows "\<exists>s1 s2 s3.
    WriteMem (vm_frame RandomReplacement_policy) EH va sz v s = Inr (True, s1) \<and>
    for_each qs (\<lambda>q s. rbind (vm_frame RandomReplacement_policy q s) (\<lambda>(_, s). Inr s)) s1 = Inr s2 \<and>
    ReadMem (vm_frame RandomReplacement_policy) EH va sz s2 = Inr (Some (stored_value sz v), s3) \<and>
    vm_ok rr_ok rr_pages i s3 \<and> (\<forall>sq\<in>swap_used s - {sp}. page_bytes i s3 sq = page_bytes i s sq)"
proof -
  let ?P = "RandomReplacement_policy"
  have used: "sp \<in> swap_used s" using assms(6) by (auto simp: mapped_def)
  obtain s1 where s1: "WriteMem (vm_frame ?P) EH va sz v s = Inr (True, s1)" "vm_ok rr_ok rr_pages i s1"
      "same_map s s1" "swap_used s1 = swap_used s"
      "page_bytes i s1 sp = put_bytes (unat va mod 128) (store_bytes sz v) (page_bytes i s sp)"
      "\<forall>sq\<in>swap_used s - {sp}. page_bytes i s1 sq = page_bytes i s sq"
    using random_policy.WriteMem_vm [OF assms(1-6)] by blast
  have "\<forall>q\<in>set qs. \<exists>e. get_entry q s1 = Inr e \<and> physicalPage e \<in> swap_used s1"
  proof
    fix q assume "q \<in> set qs"
    then obtain e where e: "get_entry q s = Inr e" "physicalPage e \<in> swap_used s" using assms(7) by blast
    obtain u d where "get_entry q s1 = Inr (e\<lparr>use := u, dirty := d\<rparr>)" by (rule same_map_entry [OF s1(3) e(1)])
    with e(2) s1(4) show "\<exists>e. get_entry q s1 = Inr e \<and> physicalPage e \<in> swap_used s1" by simp
  qed
  from random_policy.vm_frames_ok [OF s1(2) this] obtain s2 where
    s2: "for_each qs (\<lambda>q s. rbind (vm_frame ?P q s) (\<lambda>(_, s). Inr s)) s1 = Inr s2"
      "vm_ok rr_ok rr_pages i s2" "same_map s1 s2" "swap_used s2 = swap_used s1"
      "\<forall>sq\<in>swap_used s1. page_bytes i s2 sq = page_bytes i s1 sq" by blast
  have sm: "same_map s s2" using s1(3) s2(3) by (rule same_map_trans)
  have wf2: "mmu_wf s2" using sm assms(2) by (simp add: same_map_def)
  have "mapped va False sp s" using assms(6) by (auto simp: mapped_def)
  then have mp: "mapped va False sp s2" using mapped_map [OF _ sm assms(2)] s1(4) s2(4) by simp
  have pb: "page_bytes i s2 sp = put_bytes (unat va mod 128) (store_bytes sz v) (page_bytes i s sp)"
    using s2(5) s1(4,5) used by simp
  have "take (nat sz) (drop (unat va mod 128) (page_bytes i s2 sp)) = store_bytes sz v"
    unfolding pb using put_bytes_read [of "store_bytes sz v"] length_store_bytes [OF assms(4)] by simp
  from random_policy.ReadMem_vm [OF s2(2) wf2 assms(4,5) mp this] obtain s3 where
    "ReadMem (vm_frame ?P) EH va sz s2 = Inr (Some (stored_value sz v), s3)" "vm_ok rr_ok rr_pages i s3"
    "\<forall>sq\<in>swap_used s2. page_bytes i s3 sq = page_bytes i s2 sq" by blast
  with s1 s2 show ?thesis by (intro exI [of _ s1] exI [of _ s2] exI [of _ s3]) simp
qed

text \<open>
  A machine with a page table of one entry, whose page has been allocated in the swap file of a new
  virtual memory manager.
\<close>

lemma sample_paging:
  obtains i and s :: "(RandomReplacement, unit) vm_scheme hw" where "vm_ok rr_ok rr_pages i s" "mmu_wf s"
    "private_pages s" "mapped 4 True 0 s" "\<exists>e. get_entry (PageEntry 0 0) s = Inr e \<and> physicalPage e \<in> swap_used s"
proof -
  obtain m where m: "MemoryManager (\<lambda>_. 0) = Inr m" "mm_wf m" "frames_used m = {}" using MemoryManager_ok by blast
  define rr where "rr = \<lparr>rr_queue = replicate 32 (-1), randoms = replicate 624 0, randIdx = 0\<rparr>"
  have rr: "rr_ok rr" "rr_pages rr = {}" by (simp_all add: rr_def rr_ok_def q_ok_def q_pages_def)
  define u where "u = \<lparr>names = (\<lambda>_. None), inodes = (\<lambda>_. []), next_inode = 0, fds = (\<lambda>_. None), next_fd = 3\<rparr>"
  define e where "e = \<lparr>virtualPage = 0, physicalPage = 0, valid = True, readOnly = False, use = False, dirty = False\<rparr>"
  define s0 :: "(RandomReplacement, unit) vm_scheme hw" where
    "s0 = \<lparr>registers = (\<lambda>_. 0), mainMemory = (\<lambda>_. 0), tlb = None, pageTable = Some 0,
       pageTables = (\<lambda>t. if t = 0 then [e] else []), pageTableSize = 1, singleStep = False, level = IntOn,
       pending = [], inHandler = False, yieldOnReturn = False, status = UserMode, stats = new_Statistics,
       kern = \<lparr>host = u, diskBuffer = replicate 128 0, memMgr = m, swapFile = None, swapMap = mm_bitmap m,
         policy = rr, activePageMap = [], activePages = []\<rparr>\<rparr>"
  obtain i s1 where s1: "new_VMManager (\<lambda>_. 0) rr s0 = Inr s1" "vm_ok rr_ok rr_pages i s1" "swap_used s1 = {}"
      "same_map s0 s1"
    using new_VMManager_ok [of s0 rr_ok rr rr_pages "\<lambda>_. 0"] m rr by (auto simp: s0_def)
  obtain sp s2 where s2: "sw_allocPage s1 = Inr (sp, s2)" "vm_ok rr_ok rr_pages i s2" "{0..<sp} \<subseteq> swap_used s1"
      "sp \<in> {0..<512} - swap_used s1" "swap_used s2 = insert sp (swap_used s1)" "same_map s1 s2"
    by (rule sw_allocPage_ok [OF s1(2)]) (use s1(3) in auto)
  have sp: "sp = 0" using s2(3,4) s1(3) by auto
  have sm: "same_map s0 s2" using s1(4) s2(6) by (rule same_map_trans)
  have wf0: "mmu_wf s0" by (simp add: s0_def mmu_wf_def)
  have g: "get_entry q s0 = (case q of TlbEntry _ \<Rightarrow> Inl NullPointer
      | PageEntry t j \<Rightarrow> if t = 0 \<and> j = 0 then Inr e else Inl OutOfBounds)" for q
    by (auto simp: get_entry_def s0_def aget_def split: entry_ptr.split)
  obtain x y where "get_entry (PageEntry 0 0) s2 = Inr (e\<lparr>use := x, dirty := y\<rparr>)"
    by (rule same_map_entry [OF sm, of "PageEntry 0 0" e]) (simp_all add: g)
  then obtain e2 where e2: "get_entry (PageEntry 0 0) s2 = Inr e2" "physicalPage e2 = 0" "\<not> readOnly e2"
    by (simp add: e_def)
  have "private_pages s2"
    unfolding private_pages_def
  proof (intro allI impI)
    fix q q' e1 e1' assume a: "get_entry q s2 = Inr e1" "get_entry q' s2 = Inr e1'"
    obtain e0 where "get_entry q s0 = Inr e0" by (rule same_map_back [OF sm a(1)])
    moreover obtain e0' where "get_entry q' s0 = Inr e0'" by (rule same_map_back [OF sm a(2)])
    ultimately show "q = q'" by (auto simp: g split: entry_ptr.splits if_splits)
  qed
  moreover have "find_entry (page_of 4) s0 = Inr (Inr (PageEntry 0 0))"
    by (simp add: find_entry_def s0_def e_def)
  then have "find_entry (page_of 4) s2 = Inr (Inr (PageEntry 0 0))" using sm wf0 by (simp add: same_map_def)
  then have "mapped 4 True 0 s2" unfolding mapped_def using e2 s2(5) sp by auto
  moreover have "mmu_wf s2" using sm wf0 by (simp add: same_map_def)
  moreover have "\<exists>e. get_entry (PageEntry 0 0) s2 = Inr e \<and> physicalPage e \<in> swap_used s2"
    using e2 s2(5) sp by simp
  ultimately show thesis using s2(2) that by blast
qed

theorem stores_survive_paging_witness:
  "\<exists>i (s :: (RandomReplacement, unit) vm_scheme hw) s1 s2 s3. vm_ok rr_ok rr_pages i s \<and>
    WriteMem (vm_frame RandomReplacement_policy) (\<lambda>_ s. Inr s) 4 4 0xCAFE s = Inr (True, s1) \<and>
    for_each [PageEntry 0 0] (\<lambda>q s. rbind (vm_frame RandomReplacement_policy q s) (\<lambda>(_, s). Inr s)) s1 = Inr s2 \<and>
    ReadMem (vm_frame RandomReplacement_policy) (\<lambda>_ s. Inr s) 4 4 s2 = Inr (Some 0xCAFE, s3)"
proof -
  obtain i and s :: "(RandomReplacement, unit) vm_scheme hw" where s: "vm_ok rr_ok rr_pages i s" "mmu_wf s"
    "private_pages s" "mapped 4 True 0 s" "\<exists>e. get_entry (PageEntry 0 0) s = Inr e \<and> physicalPage e \<in> swap_used s"
    by (rule sample_paging)
  have al: "\<not> misaligned 4 4" by (simp add: misaligned_def)
  have v: "stored_value 4 0xCAFE = 0xCAFE" by (simp add: stored_value_def)
  have "\<forall>q\<in>set [PageEntry 0 0]. \<exists>e. get_entry q s = Inr e \<and> physicalPage e \<in> swap_used s" using s(5) by simp
  from stores_survive_paging [OF s(1-3) _ al s(4) this, of "\<lambda>_ s. Inr s" "0xCAFE"] s(1) v
  show ?thesis by fastforce
qed

end
