(* ===== verification/Processes.thy ===== *)
theory Processes
  imports Bitmap Synch Stub_Files
begin

text \<open>
  Processes and their open files: \<^verbatim>\<open>userprog/processManager.cc\<close>, \<^verbatim>\<open>userprog/pcb.cc\<close>,
  \<^verbatim>\<open>userprog/sysOpenFile.cc\<close> and \<^verbatim>\<open>userprog/userOpenFile.cc\<close>.

  \<^item> The record \<open>procs\<close> is the process manager with the objects it points to: process control blocks and
    open files are kept by address, and are gone once they are deleted. An array of pointers holds
    \<open>slot\<close>s, since \<^verbatim>\<open>new\<close> leaves its elements uninitialised.
  \<^item> The locks and condition variables live in the synchronisation state \<open>ks\<close> of theory \<open>Synch\<close>. Where the
    code acquires a lock that another thread holds, the call \<open>Sleeps\<close>; what it does once it has
    the lock is the function named \<open>_locked\<close>. \<^verbatim>\<open>join\<close> always sleeps; \<open>join_return\<close> is what it does after it
    has been woken and has the lock again.
  \<^item> The lemmas show what the tables of processes and open files promise, that a process that waits for
    another one gets its exit status, and the situations in which the code goes wrong.
\<close>

definition MAX_PROCS :: int where "MAX_PROCS = 10"
definition SYS_MAX_OPEN_FILES :: int where "SYS_MAX_OPEN_FILES = 20"
definition MAX_OPEN_FILES :: int where "MAX_OPEN_FILES = 20"
definition CIN :: int where "CIN = 0"
definition COUT :: int where "COUT = 1"

lemmas proc_consts = MAX_PROCS_def SYS_MAX_OPEN_FILES_def MAX_OPEN_FILES_def CIN_def COUT_def

datatype slot = Uninit | Null | Ptr nat

record SysOpenFile =
  sof_openFile :: "StubFile option"
  sof_fd :: int
  sof_fileName :: "8 word list"
  numUsers :: int

record UserOpenFile =
  uof_fileName :: "8 word list"
  uof_sysOpenFile :: nat
  uof_position :: int
  uof_fd :: int

record PCB =
  PID :: int
  parentPID :: int
  pcb_thread :: nat
  openFileTable :: "slot list"
  openFileMap :: bitmap

record ProcessManager =
  pcbTable :: "slot list"
  conditionTable :: "slot list"
  lockTable :: "slot list"
  bitLock :: nat
  fsLock :: "nat list"
  pid_map :: bitmap
  returnStatus :: "int list"
  sysOpenFileTable :: "slot list"
  sysOpenFileMap :: bitmap

record procs =
  pm :: ProcessManager
  ks :: ksync
  next_lock :: nat
  next_cond :: nat
  pcbs :: "nat \<Rightarrow> PCB option"
  next_pcb :: nat
  sys_files :: "nat \<Rightarrow> SysOpenFile option"
  next_sys :: nat
  user_files :: "nat \<Rightarrow> UserOpenFile option"
  next_user :: nat

subsection \<open>Pointers, locks and sleeping calls\<close>

definition ptr :: "slot \<Rightarrow> nat result" where
  "ptr p = (case p of Uninit \<Rightarrow> Inl Uninitialised | Null \<Rightarrow> Inl NullPointer | Ptr a \<Rightarrow> Inr a)"

definition deref :: "(nat \<Rightarrow> 'a option) \<Rightarrow> nat \<Rightarrow> 'a result" where
  "deref h a = (case h a of None \<Rightarrow> Inl DanglingPointer | Some x \<Rightarrow> Inr x)"

datatype 'a call = Returns 'a | Sleeps

definition acquire_then :: "nat \<Rightarrow> (procs \<Rightarrow> ('a \<times> procs) result) \<Rightarrow> procs \<Rightarrow> ('a call \<times> procs) result" where
  "acquire_then l locked_part s =
     (let (got, k) = Acquire l (ks s); s = s\<lparr>ks := k\<rparr> in
      if got then rbind (locked_part s) (\<lambda>(x, s). Inr (Returns x, s)) else Inr (Sleeps, s))"

text \<open>\<open>own\<close> is what the owner field of a new lock holds.\<close>

definition alloc_Lock :: "nat option \<Rightarrow> procs \<Rightarrow> nat \<times> procs" where
  "alloc_Lock own s =
     (next_lock s, s\<lparr>ks := (ks s)\<lparr>locks := (locks (ks s))(next_lock s := new_Lock own)\<rparr>,
                     next_lock := Suc (next_lock s)\<rparr>)"

definition alloc_Condition :: "procs \<Rightarrow> nat \<times> procs" where
  "alloc_Condition s =
     (next_cond s, s\<lparr>ks := (ks s)\<lparr>conds := (conds (ks s))(next_cond s := [])\<rparr>, next_cond := Suc (next_cond s)\<rparr>)"

fun alloc_locks :: "nat option \<Rightarrow> nat \<Rightarrow> procs \<Rightarrow> nat list \<times> procs" where
  "alloc_locks own 0 s = ([], s)"
| "alloc_locks own (Suc n) s =
     (let (l, s) = alloc_Lock own s; (ls, s) = alloc_locks own n s in (l # ls, s))"

subsection \<open>Process manager\<close>

text \<open>\<open>g\<close> and \<open>rs\<close> are what the memory of the bitmaps and of \<^verbatim>\<open>returnStatus\<close> holds.\<close>

definition new_ProcessManager ::
    "(nat \<Rightarrow> 32 word) \<Rightarrow> int list \<Rightarrow> nat option \<Rightarrow> procs \<Rightarrow> procs result" where
  "new_ProcessManager g rs own s =
     rbind (BitMap g MAX_PROCS) (\<lambda>b.
     let (bl, s) = alloc_Lock own s; (fl, s) = alloc_locks own (nat SYS_MAX_OPEN_FILES) s in
     rbind (BitMap g SYS_MAX_OPEN_FILES) (\<lambda>m.
     rbind (Mark m CIN) (\<lambda>m.
     rbind (Mark m COUT) (\<lambda>m.
     Inr (s\<lparr>pm := \<lparr>pcbTable = replicate (nat MAX_PROCS) Uninit, conditionTable = replicate (nat MAX_PROCS) Uninit,
                   lockTable = replicate (nat MAX_PROCS) Uninit, bitLock = bl, fsLock = fl, pid_map = b,
                   returnStatus = rs, sysOpenFileTable = replicate (nat SYS_MAX_OPEN_FILES) Uninit,
                   sysOpenFileMap = m\<rparr>\<rparr>)))))"

definition getPID_locked :: "nat option \<Rightarrow> procs \<Rightarrow> (int \<times> procs) result" where
  "getPID_locked own s =
     rbind (Find (pid_map (pm s))) (\<lambda>(pid, b).
     let s = s\<lparr>pm := (pm s)\<lparr>pid_map := b\<rparr>, ks := Release (bitLock (pm s)) (ks s)\<rparr>;
         (c, s) = alloc_Condition s in
     rbind (aset (conditionTable (pm s)) pid (Ptr c)) (\<lambda>ct.
     let s = s\<lparr>pm := (pm s)\<lparr>conditionTable := ct\<rparr>\<rparr>; (l, s) = alloc_Lock own s in
     rbind (aset (lockTable (pm s)) pid (Ptr l)) (\<lambda>lt.
     Inr (pid, s\<lparr>pm := (pm s)\<lparr>lockTable := lt\<rparr>\<rparr>))))"

definition getPID :: "nat option \<Rightarrow> procs \<Rightarrow> (int call \<times> procs) result" where
  "getPID own s = acquire_then (bitLock (pm s)) (getPID_locked own) s"

definition clearPID_locked :: "int \<Rightarrow> nat \<Rightarrow> procs \<Rightarrow> (unit \<times> procs) result" where
  "clearPID_locked pid l s =
     rbind (aget (conditionTable (pm s)) pid) (\<lambda>cs.
     rbind (ptr cs) (\<lambda>c.
     let s = s\<lparr>ks := Release l (Broadcast c l (ks s))\<rparr> in
     rbind (aset (pcbTable (pm s)) pid Null) (\<lambda>pt.
     Inr ((), s\<lparr>pm := (pm s)\<lparr>pcbTable := pt\<rparr>\<rparr>))))"

definition clearPID :: "int \<Rightarrow> procs \<Rightarrow> (unit call \<times> procs) result" where
  "clearPID pid s =
     rbind (Clear (pid_map (pm s)) pid) (\<lambda>b.
     let s = s\<lparr>pm := (pm s)\<lparr>pid_map := b\<rparr>\<rparr> in
     rbind (aget (lockTable (pm s)) pid) (\<lambda>lk.
     rbind (ptr lk) (\<lambda>l. acquire_then l (clearPID_locked pid l) s)))"

definition getFreePIDCount :: "procs \<Rightarrow> int result" where
  "getFreePIDCount s = NumClear (pid_map (pm s))"

definition storePCB :: "nat \<Rightarrow> procs \<Rightarrow> procs result" where
  "storePCB p s =
     rbind (deref (pcbs s) p) (\<lambda>b.
     rbind (aset (pcbTable (pm s)) (PID b) (Ptr p)) (\<lambda>pt. Inr (s\<lparr>pm := (pm s)\<lparr>pcbTable := pt\<rparr>\<rparr>)))"

definition join_locked :: "int \<Rightarrow> nat \<Rightarrow> procs \<Rightarrow> (unit \<times> procs) result" where
  "join_locked pid l s =
     rbind (aget (conditionTable (pm s)) pid) (\<lambda>cs.
     rbind (ptr cs) (\<lambda>c. Inr ((), s\<lparr>ks := Wait c l (ks s)\<rparr>)))"

text \<open>\<open>join\<close> runs up to the sleep in \<^verbatim>\<open>Wait\<close>, or in \<^verbatim>\<open>Acquire\<close>, then \<open>join_return\<close> is left to do.\<close>

definition join :: "int \<Rightarrow> procs \<Rightarrow> (unit call \<times> procs) result" where
  "join pid s =
     rbind (aget (lockTable (pm s)) pid) (\<lambda>lk.
     rbind (ptr lk) (\<lambda>l.
     rbind (acquire_then l (join_locked pid l) s) (\<lambda>(_, s). Inr (Sleeps, s))))"

definition join_return :: "int \<Rightarrow> procs \<Rightarrow> (int \<times> procs) result" where
  "join_return pid s =
     rbind (aget (lockTable (pm s)) pid) (\<lambda>lk.
     rbind (ptr lk) (\<lambda>l.
     rbind (aget (returnStatus (pm s)) pid) (\<lambda>r.
     Inr (r, s\<lparr>ks := Release l (ks s)\<rparr>))))"

definition setExitStatus :: "int \<Rightarrow> int \<Rightarrow> procs \<Rightarrow> procs result" where
  "setExitStatus pid exitStatus s =
     rbind (aset (returnStatus (pm s)) pid exitStatus) (\<lambda>rs. Inr (s\<lparr>pm := (pm s)\<lparr>returnStatus := rs\<rparr>\<rparr>))"

subsection \<open>The table of open files\<close>

definition new_SysOpenFile :: "StubFile option \<Rightarrow> 8 word list \<Rightarrow> int \<Rightarrow> SysOpenFile" where
  "new_SysOpenFile f fname n = \<lparr>sof_openFile = f, sof_fd = n, sof_fileName = fname, numUsers = 1\<rparr>"

fun fd_loop :: "8 word list \<Rightarrow> int list \<Rightarrow> procs \<Rightarrow> int result" where
  "fd_loop name [] s = Inr (-1)"
| "fd_loop name (i # is) s =
     rbind (Test (sysOpenFileMap (pm s)) i) (\<lambda>on.
     if on
     then rbind (aget (sysOpenFileTable (pm s)) i) (\<lambda>p.
          rbind (ptr p) (\<lambda>a.
          rbind (deref (sys_files s) a) (\<lambda>f.
          if sof_fileName f = name then Inr i else fd_loop name is s)))
     else fd_loop name is s)"

definition getFD :: "8 word list \<Rightarrow> procs \<Rightarrow> int result" where
  "getFD name s = fd_loop name [2..SYS_MAX_OPEN_FILES - 1] s"

definition createNewSysFile :: "StubFile option \<Rightarrow> 8 word list \<Rightarrow> procs \<Rightarrow> (slot \<times> procs) result" where
  "createNewSysFile f name s =
     rbind (Find (sysOpenFileMap (pm s))) (\<lambda>(index, m).
     let a = next_sys s;
         s = s\<lparr>pm := (pm s)\<lparr>sysOpenFileMap := m\<rparr>,
               sys_files := (sys_files s)(a \<mapsto> new_SysOpenFile f name index), next_sys := Suc a\<rparr> in
     rbind (aset (sysOpenFileTable (pm s)) index (Ptr a)) (\<lambda>t.
     Inr (Ptr a, s\<lparr>pm := (pm s)\<lparr>sysOpenFileTable := t\<rparr>\<rparr>)))"

definition sys_getOpenFile :: "8 word list \<Rightarrow> StubFile option \<Rightarrow> procs \<Rightarrow> (slot \<times> procs) result" where
  "sys_getOpenFile name f s =
     rbind (getFD name s) (\<lambda>fd.
     if fd \<noteq> -1 then rbind (aget (sysOpenFileTable (pm s)) fd) (\<lambda>p. Inr (p, s))
     else rbind (Find (sysOpenFileMap (pm s))) (\<lambda>(fd, m).
          let s = s\<lparr>pm := (pm s)\<lparr>sysOpenFileMap := m\<rparr>\<rparr> in
          if fd = -1 then Inr (Null, s)
          else let a = next_sys s;
                   s = s\<lparr>sys_files := (sys_files s)(a \<mapsto> new_SysOpenFile f name fd), next_sys := Suc a\<rparr> in
               rbind (aset (sysOpenFileTable (pm s)) fd (Ptr a)) (\<lambda>t.
               Inr (Ptr a, s\<lparr>pm := (pm s)\<lparr>sysOpenFileTable := t\<rparr>\<rparr>))))"

definition sys_fileOf :: "int \<Rightarrow> procs \<Rightarrow> slot result" where
  "sys_fileOf fd s =
     rbind (Test (sysOpenFileMap (pm s)) fd) (\<lambda>on.
     if on then aget (sysOpenFileTable (pm s)) fd else Inr Null)"

text \<open>\<^verbatim>\<open>closeFile\<close> once it has the lock; with no file in the slot it returns without releasing it.\<close>

definition closeFile_locked :: "int \<Rightarrow> nat \<Rightarrow> procs \<Rightarrow> (unit \<times> procs) result" where
  "closeFile_locked fd l s =
     rbind (aget (sysOpenFileTable (pm s)) fd) (\<lambda>p.
     if p = Null then Inr ((), s)
     else rbind (ptr p) (\<lambda>a.
          rbind (deref (sys_files s) a) (\<lambda>f.
          let f = f\<lparr>numUsers := numUsers f - 1\<rparr> in
          if numUsers f = 0
          then rbind (aset (sysOpenFileTable (pm s)) fd Null) (\<lambda>t.
               rbind (Clear (sysOpenFileMap (pm s)) fd) (\<lambda>m.
               Inr ((), s\<lparr>sys_files := (sys_files s)(a := None),
                         pm := (pm s)\<lparr>sysOpenFileTable := t, sysOpenFileMap := m\<rparr>,
                         ks := Release l (ks s)\<rparr>)))
          else Inr ((), s\<lparr>sys_files := (sys_files s)(a \<mapsto> f), ks := Release l (ks s)\<rparr>))))"

definition sys_closeFile :: "int \<Rightarrow> procs \<Rightarrow> (unit call \<times> procs) result" where
  "sys_closeFile fd s =
     rbind (aget (fsLock (pm s)) fd) (\<lambda>l. acquire_then l (closeFile_locked fd l) s)"

subsection \<open>Process control blocks\<close>

definition new_UserOpenFile :: "8 word list \<Rightarrow> nat \<Rightarrow> procs \<Rightarrow> (nat \<times> procs) result" where
  "new_UserOpenFile name f s =
     rbind (deref (sys_files s) f) (\<lambda>sf.
     Inr (next_user s,
          s\<lparr>user_files := (user_files s)(next_user s \<mapsto>
              \<lparr>uof_fileName = name, uof_sysOpenFile = f, uof_position = 0, uof_fd = sof_fd sf\<rparr>),
            next_user := Suc (next_user s)\<rparr>))"

definition new_PCB :: "(nat \<Rightarrow> 32 word) \<Rightarrow> int \<Rightarrow> int \<Rightarrow> nat \<Rightarrow> procs \<Rightarrow> (nat \<times> procs) result" where
  "new_PCB g pid parentPid t s =
     rbind (BitMap g MAX_OPEN_FILES) (\<lambda>b.
     Inr (next_pcb s,
          s\<lparr>pcbs := (pcbs s)(next_pcb s \<mapsto>
              \<lparr>PID = pid, parentPID = parentPid, pcb_thread = t,
               openFileTable = replicate (nat MAX_OPEN_FILES) Uninit, openFileMap = b\<rparr>),
            next_pcb := Suc (next_pcb s)\<rparr>))"

definition delete_PCB :: "nat \<Rightarrow> procs \<Rightarrow> (unit call \<times> procs) result" where
  "delete_PCB p s =
     rbind (deref (pcbs s) p) (\<lambda>b.
     rbind (clearPID (PID b) s) (\<lambda>(r, s). Inr (r, s\<lparr>pcbs := (pcbs s)(p := None)\<rparr>)))"

definition pcb_getOpenFile :: "nat \<Rightarrow> 8 word list \<Rightarrow> nat \<Rightarrow> procs \<Rightarrow> (slot \<times> procs) result" where
  "pcb_getOpenFile p name f s =
     rbind (deref (pcbs s) p) (\<lambda>b.
     rbind (deref (sys_files s) f) (\<lambda>sf.
     rbind (Test (openFileMap b) (sof_fd sf)) (\<lambda>on.
     if on then rbind (aget (openFileTable b) (sof_fd sf)) (\<lambda>u. Inr (u, s))
     else rbind (Mark (openFileMap b) (sof_fd sf)) (\<lambda>m.
          rbind (new_UserOpenFile name f s) (\<lambda>(u, s).
          rbind (aset (openFileTable b) (sof_fd sf) (Ptr u)) (\<lambda>t.
          Inr (Ptr u, s\<lparr>pcbs := (pcbs s)(p \<mapsto> b\<lparr>openFileMap := m, openFileTable := t\<rparr>)\<rparr>)))))))"

definition pcb_fileOf :: "nat \<Rightarrow> int \<Rightarrow> procs \<Rightarrow> slot result" where
  "pcb_fileOf p fd s =
     rbind (deref (pcbs s) p) (\<lambda>b.
     rbind (Test (openFileMap b) fd) (\<lambda>on. if on then aget (openFileTable b) fd else Inr Null))"

definition addNewOpenFile :: "nat \<Rightarrow> nat \<Rightarrow> procs \<Rightarrow> (bool \<times> procs) result" where
  "addNewOpenFile p u s =
     rbind (deref (pcbs s) p) (\<lambda>b.
     rbind (deref (user_files s) u) (\<lambda>uf.
     rbind (Test (openFileMap b) (uof_fd uf)) (\<lambda>on.
     if on then Inr (False, s)
     else rbind (Mark (openFileMap b) (uof_fd uf)) (\<lambda>m.
          Inr (True, s\<lparr>pcbs := (pcbs s)(p \<mapsto> b\<lparr>openFileMap := m\<rparr>)\<rparr>)))))"

text \<open>Deleting a null pointer does nothing; deleting an uninitialised or a deleted one is undefined.\<close>

definition pcb_closeFile :: "nat \<Rightarrow> int \<Rightarrow> procs \<Rightarrow> procs result" where
  "pcb_closeFile p fd s =
     rbind (deref (pcbs s) p) (\<lambda>b.
     rbind (Clear (openFileMap b) fd) (\<lambda>m.
     rbind (aget (openFileTable b) fd) (\<lambda>u.
     rbind (aset (openFileTable b) fd Null) (\<lambda>t.
     let s = s\<lparr>pcbs := (pcbs s)(p \<mapsto> b\<lparr>openFileMap := m, openFileTable := t\<rparr>)\<rparr> in
     if u = Null then Inr s
     else rbind (ptr u) (\<lambda>a.
          rbind (deref (user_files s) a) (\<lambda>_. Inr (s\<lparr>user_files := (user_files s)(a := None)\<rparr>)))))))"

subsection \<open>The table of open files as a finite map\<close>

text \<open>
  \<open>files_ok\<close>: the descriptors in use, beside those of the console, hold files with their own number and different
  names. \<open>fd_of\<close> is the abstract value, the descriptor of every open name.
\<close>

definition open_fds :: "procs \<Rightarrow> int set" where
  "open_fds s = marked (sysOpenFileMap (pm s)) - {0, 1}"

definition file_at :: "procs \<Rightarrow> int \<Rightarrow> nat \<Rightarrow> SysOpenFile \<Rightarrow> bool" where
  "file_at s fd a f \<longleftrightarrow> sysOpenFileTable (pm s) ! nat fd = Ptr a \<and> sys_files s a = Some f \<and> sof_fd f = fd"

definition names_distinct :: "procs \<Rightarrow> bool" where
  "names_distinct s \<longleftrightarrow>
     (\<forall>fd fd' a a' f f'. fd \<in> open_fds s \<longrightarrow> fd' \<in> open_fds s \<longrightarrow> file_at s fd a f \<longrightarrow> file_at s fd' a' f' \<longrightarrow>
        sof_fileName f = sof_fileName f' \<longrightarrow> fd = fd')"

definition files_ok :: "procs \<Rightarrow> bool" where
  "files_ok s \<longleftrightarrow>
     bm_wf (sysOpenFileMap (pm s)) \<and> numBits (sysOpenFileMap (pm s)) = 20 \<and>
     {0, 1} \<subseteq> marked (sysOpenFileMap (pm s)) \<and>
     length (sysOpenFileTable (pm s)) = 20 \<and> length (fsLock (pm s)) = 20 \<and>
     (\<forall>a. next_sys s \<le> a \<longrightarrow> sys_files s a = None) \<and>
     (\<forall>fd\<in>open_fds s. \<exists>a f. file_at s fd a f) \<and> names_distinct s"

lemma files_ok_basic:
  assumes "files_ok s"
  shows "bm_wf (sysOpenFileMap (pm s))" "numBits (sysOpenFileMap (pm s)) = 20"
    "{0, 1} \<subseteq> marked (sysOpenFileMap (pm s))" "length (sysOpenFileTable (pm s)) = 20" "length (fsLock (pm s)) = 20"
    "\<forall>a. next_sys s \<le> a \<longrightarrow> sys_files s a = None" "\<forall>fd\<in>open_fds s. \<exists>a f. file_at s fd a f"
  using assms by (simp_all add: files_ok_def)

lemma open_fds_range:
  assumes "files_ok s" "fd \<in> open_fds s" shows "2 \<le> fd \<and> fd < 20"
proof -
  have "fd \<in> {0..<20}" "fd \<noteq> 0" "fd \<noteq> 1"
    using marked_subset [of "sysOpenFileMap (pm s)"] files_ok_basic(2) [OF assms(1)] assms(2)
    by (auto simp: open_fds_def)
  then show ?thesis by simp
qed

lemma files_okE:
  assumes "files_ok s" "fd \<in> open_fds s" obtains a f where "file_at s fd a f"
  using files_ok_basic(7) [OF assms(1)] assms(2) by blast

lemma files_ok_names:
  assumes "files_ok s" "fd \<in> open_fds s" "fd' \<in> open_fds s" "file_at s fd a f" "file_at s fd' a' f'"
    "sof_fileName f = sof_fileName f'"
  shows "fd = fd'"
proof -
  have *: "\<forall>fd fd' a a' f f'. fd \<in> open_fds s \<longrightarrow> fd' \<in> open_fds s \<longrightarrow> file_at s fd a f \<longrightarrow> file_at s fd' a' f' \<longrightarrow>
        sof_fileName f = sof_fileName f' \<longrightarrow> fd = fd'"
    using assms(1) unfolding files_ok_def names_distinct_def by (elim conjE)
  show ?thesis by (rule * [rule_format, OF assms(2-6)])
qed

lemma fd_loop_skip:
  assumes ok: "files_ok s" and "set is \<subseteq> {2..<20}"
    and "\<And>i a f. i \<in> set is \<Longrightarrow> i \<in> open_fds s \<Longrightarrow> file_at s i a f \<Longrightarrow> sof_fileName f \<noteq> name"
  shows "fd_loop name (is @ js) s = fd_loop name js s"
  using assms(2,3)
proof (induction "is")
  case (Cons i "is")
  have IH: "fd_loop name (is @ js) s = fd_loop name js s" using Cons by auto
  have bm: "bm_wf (sysOpenFileMap (pm s))" "numBits (sysOpenFileMap (pm s)) = 20" "length (sysOpenFileTable (pm s)) = 20"
    using files_ok_basic [OF ok] by blast+
  have i: "2 \<le> i" "i < 20" using Cons.prems(1) by auto
  then have test: "Test (sysOpenFileMap (pm s)) i = Inr (i \<in> open_fds s)"
    using Test_ok [OF bm(1), of i] bm(2) by (simp add: in_range_def open_fds_def)
  show ?case
  proof (cases "i \<in> open_fds s")
    case True
    then obtain a f where f: "file_at s i a f" using files_okE [OF ok] by blast
    then have "sof_fileName f \<noteq> name" using Cons.prems(2) [OF _ True f] by simp
    with f test True IH i bm(3) show ?thesis by (simp add: file_at_def ptr_def deref_def)
  next
    case False
    with test IH show ?thesis by simp
  qed
qed simp

lemma fd_range: "set [2..SYS_MAX_OPEN_FILES - 1] = {2..<20}"
  unfolding SYS_MAX_OPEN_FILES_def by (rule set_range)

lemma getFD_absent:
  assumes ok: "files_ok s" and "\<And>fd a f. fd \<in> open_fds s \<Longrightarrow> file_at s fd a f \<Longrightarrow> sof_fileName f \<noteq> name"
  shows "getFD name s = Inr (-1)"
proof -
  have "fd_loop name ([2..SYS_MAX_OPEN_FILES - 1] @ []) s = fd_loop name [] s"
    by (rule fd_loop_skip [OF ok]) (use fd_range assms(2) in blast)+
  then show ?thesis by (simp add: getFD_def)
qed

lemma getFD_present:
  assumes ok: "files_ok s" and fd: "fd \<in> open_fds s" "file_at s fd a f" "sof_fileName f = name"
  shows "getFD name s = Inr fd"
proof -
  have r: "2 \<le> fd" "fd < 20" using open_fds_range [OF ok fd(1)] by auto
  have split: "[2..SYS_MAX_OPEN_FILES - 1] = [2..fd - 1] @ fd # [fd + 1..SYS_MAX_OPEN_FILES - 1]"
    using r by (intro upto_split3) (simp_all add: proc_consts)
  have "fd_loop name ([2..fd - 1] @ fd # [fd + 1..SYS_MAX_OPEN_FILES - 1]) s =
      fd_loop name (fd # [fd + 1..SYS_MAX_OPEN_FILES - 1]) s"
  proof (rule fd_loop_skip [OF ok])
    show "set [2..fd - 1] \<subseteq> {2..<20}" using r by auto
    show "sof_fileName g \<noteq> name" if "i \<in> set [2..fd - 1]" "i \<in> open_fds s" "file_at s i b g" for i b g
      using files_ok_names [OF ok that(2) fd(1) that(3) fd(2)] that(1) fd(3) by auto
  qed
  moreover have "Test (sysOpenFileMap (pm s)) fd = Inr True"
    using Test_ok [of "sysOpenFileMap (pm s)" fd] files_ok_basic(1,2) [OF ok] r fd(1)
    by (simp add: in_range_def open_fds_def)
  moreover note files_ok_basic(4) [OF ok]
  ultimately show ?thesis using split fd r by (simp add: getFD_def file_at_def ptr_def deref_def)
qed

lemma getOpenFile_known:
  assumes ok: "files_ok s" and fd: "fd \<in> open_fds s" "file_at s fd a f" "sof_fileName f = name"
  shows "sys_getOpenFile name g s = Inr (Ptr a, s)"
  using getFD_present [OF assms] open_fds_range [OF ok fd(1)] files_ok_basic(4) [OF ok] fd(2)
  by (simp add: sys_getOpenFile_def file_at_def)

text \<open>A change of the table at one descriptor.\<close>

lemma file_at_other:
  assumes "fd \<noteq> fd'" "0 \<le> fd" "0 \<le> fd'" "sysOpenFileTable (pm s') = (sysOpenFileTable (pm s))[nat fd := p]"
    and "\<And>a. sysOpenFileTable (pm s) ! nat fd' = Ptr a \<Longrightarrow> sys_files s' a = sys_files s a"
  shows "file_at s' fd' a f = file_at s fd' a f"
proof -
  have "nat fd \<noteq> nat fd'" using assms(1-3) by simp
  with assms(4,5) show ?thesis by (auto simp: file_at_def)
qed

lemma names_distinct_cong:
  assumes "names_distinct s" "open_fds s' \<subseteq> insert fd (open_fds s)"
    and same: "\<And>fd' a f. fd' \<in> open_fds s' \<Longrightarrow> fd' \<noteq> fd \<Longrightarrow> file_at s' fd' a f \<Longrightarrow> file_at s fd' a f"
    and new: "\<And>a f fd' a' f'. file_at s' fd a f \<Longrightarrow> fd' \<in> open_fds s' \<Longrightarrow> fd' \<noteq> fd \<Longrightarrow>
      file_at s' fd' a' f' \<Longrightarrow> sof_fileName f \<noteq> sof_fileName f'"
  shows "names_distinct s'"
  unfolding names_distinct_def
proof (intro allI impI)
  fix x y a b f g
  assume xy: "x \<in> open_fds s'" "y \<in> open_fds s'" "file_at s' x a f" "file_at s' y b g" "sof_fileName f = sof_fileName g"
  consider "x = y" | "x = fd" "y \<noteq> fd" | "x \<noteq> fd" "y = fd" | "x \<noteq> fd" "y \<noteq> fd" "x \<noteq> y" by blast
  then show "x = y"
  proof cases
    case 2
    with new xy show ?thesis by blast
  next
    case 3
    with new xy show ?thesis by metis
  next
    case 4
    then have "x \<in> open_fds s" "y \<in> open_fds s" "file_at s x a f" "file_at s y b g" using assms(2) same xy by auto
    with assms(1) xy(5) show ?thesis unfolding names_distinct_def by metis
  qed
qed

lemma getOpenFile_new:
  assumes ok: "files_ok s" and absent: "\<And>fd a f. fd \<in> open_fds s \<Longrightarrow> file_at s fd a f \<Longrightarrow> sof_fileName f \<noteq> name"
    and room: "open_fds s \<noteq> {2..<20}"
  obtains fd s' where "sys_getOpenFile name g s = Inr (Ptr (next_sys s), s')" "fd \<in> {2..<20} - open_fds s"
    "files_ok s'" "open_fds s' = insert fd (open_fds s)" "file_at s' fd (next_sys s) (new_SysOpenFile g name fd)"
    "\<And>fd' a f. fd' \<in> open_fds s \<Longrightarrow> file_at s' fd' a f = file_at s fd' a f"
    "ks s' = ks s" "fsLock (pm s') = fsLock (pm s)" "pid_map (pm s') = pid_map (pm s)"
proof -
  let ?m = "sysOpenFileMap (pm s)"
  note b = files_ok_basic [OF ok]
  have "marked ?m \<noteq> {0..<numBits ?m}"
  proof
    assume "marked ?m = {0..<numBits ?m}"
    then have "open_fds s = {0..<20} - {0, 1}" unfolding open_fds_def using b(2) by simp
    also have "\<dots> = {2..<20}" by auto
    finally show False using room by simp
  qed
  then obtain fd m where m: "Find ?m = Inr (fd, m)" "in_range ?m fd" "fd \<notin> marked ?m" "bm_wf m"
      "numBits m = numBits ?m" "marked m = insert fd (marked ?m)"
    using Find_first_clear [OF b(1)] by metis
  have r: "2 \<le> fd" "fd < 20" "fd \<notin> open_fds s"
  proof -
    have "fd \<noteq> 0" "fd \<noteq> 1" "0 \<le> fd" "fd < 20" using m(2,3) b(2,3) by (auto simp: in_range_def)
    then show "2 \<le> fd" "fd < 20" by simp_all
    show "fd \<notin> open_fds s" using m(3) by (simp add: open_fds_def)
  qed
  define s' where "s' = s\<lparr>pm := (pm s)\<lparr>sysOpenFileMap := m, sysOpenFileTable := (sysOpenFileTable (pm s))[nat fd := Ptr (next_sys s)]\<rparr>,
      sys_files := (sys_files s)(next_sys s \<mapsto> new_SysOpenFile g name fd), next_sys := Suc (next_sys s)\<rparr>"
  have run: "sys_getOpenFile name g s = Inr (Ptr (next_sys s), s')"
    using getFD_absent [OF ok absent] m(1) r b(4) by (simp add: sys_getOpenFile_def s'_def Let_def)
  have fds: "open_fds s' = insert fd (open_fds s)" using m(6) r by (auto simp: open_fds_def s'_def)
  have new: "file_at s' fd (next_sys s) (new_SysOpenFile g name fd)"
    using r b(4) by (simp add: file_at_def s'_def new_SysOpenFile_def)
  have old: "file_at s' fd' a f = file_at s fd' a f" if fd': "fd' \<in> open_fds s" for fd' a f
  proof (rule file_at_other)
    show "fd \<noteq> fd'" "0 \<le> fd" "0 \<le> fd'" using r fd' open_fds_range [OF ok fd'] by auto
    show "sysOpenFileTable (pm s') = (sysOpenFileTable (pm s))[nat fd := Ptr (next_sys s)]" by (simp add: s'_def)
    fix c assume c: "sysOpenFileTable (pm s) ! nat fd' = Ptr c"
    obtain a f where "file_at s fd' a f" by (rule files_okE [OF ok fd'])
    then have "sys_files s c \<noteq> None" using c by (simp add: file_at_def)
    then have "c < next_sys s" using b(6) by (meson not_le)
    then show "sys_files s' c = sys_files s c" by (simp add: s'_def)
  qed
  have "names_distinct s'"
  proof (rule names_distinct_cong [of s s' fd])
    show "names_distinct s" using ok by (simp add: files_ok_def)
    show "open_fds s' \<subseteq> insert fd (open_fds s)" using fds by simp
    show "file_at s fd' a f" if "fd' \<in> open_fds s'" "fd' \<noteq> fd" "file_at s' fd' a f" for fd' a f
      using that fds old by auto
    show "sof_fileName f \<noteq> sof_fileName f'"
      if "file_at s' fd a f" "fd' \<in> open_fds s'" "fd' \<noteq> fd" "file_at s' fd' a' f'" for a f fd' a' f'
    proof -
      have "f = new_SysOpenFile g name fd" using that(1) new by (simp add: file_at_def)
      moreover have "sof_fileName f' \<noteq> name" using that(2-4) fds old absent by auto
      ultimately show ?thesis by (simp add: new_SysOpenFile_def)
    qed
  qed
  moreover have "\<forall>x\<in>open_fds s'. \<exists>a f. file_at s' x a f"
  proof
    fix x assume x: "x \<in> open_fds s'"
    show "\<exists>a f. file_at s' x a f"
    proof (cases "x \<in> open_fds s")
      case True
      then obtain a f where "file_at s x a f" by (rule files_okE [OF ok])
      with old [OF True] show ?thesis by blast
    next
      case False
      with x fds have "x = fd" by simp
      with new show ?thesis by blast
    qed
  qed
  moreover have "bm_wf (sysOpenFileMap (pm s'))" "numBits (sysOpenFileMap (pm s')) = 20"
      "{0, 1} \<subseteq> marked (sysOpenFileMap (pm s'))" "length (sysOpenFileTable (pm s')) = 20" "length (fsLock (pm s')) = 20"
      "\<forall>a. next_sys s' \<le> a \<longrightarrow> sys_files s' a = None"
    using b m(4-6) by (simp_all add: s'_def)
  ultimately have "files_ok s'" unfolding files_ok_def by (intro conjI)
  with run r fds new old show thesis by (intro that [of s' fd]) (simp_all add: s'_def)
qed

lemma getOpenFile_full:
  assumes ok: "files_ok s" and absent: "\<And>fd a f. fd \<in> open_fds s \<Longrightarrow> file_at s fd a f \<Longrightarrow> sof_fileName f \<noteq> name"
    and full: "open_fds s = {2..<20}"
  shows "sys_getOpenFile name g s = Inr (Null, s)"
proof -
  let ?m = "sysOpenFileMap (pm s)"
  note b = files_ok_basic [OF ok]
  have "x \<in> marked ?m" if "x \<in> {0..<20}" for x
  proof (cases "x \<in> {2..<20}")
    case True
    then have "x \<in> open_fds s" using full by simp
    then show ?thesis by (simp add: open_fds_def)
  next
    case False
    with that have "x = 0 \<or> x = 1" by auto
    then show ?thesis using b(3) by blast
  qed
  then have "{0..<20} \<subseteq> marked ?m" by blast
  then have "marked ?m = {0..<numBits ?m}" using marked_subset [of ?m] b(2) by simp
  then show ?thesis
    using getFD_absent [OF ok absent] Find_full [OF b(1)] by (simp add: sys_getOpenFile_def Let_def)
qed

subsection \<open>Locks that the caller gets at once\<close>

definition available :: "nat \<Rightarrow> ksync \<Rightarrow> bool" where
  "available l k \<longleftrightarrow> \<not> locked (locks k l) \<or> isHeldByCurrentThread l k"

definition taken :: "nat \<Rightarrow> ksync \<Rightarrow> ksync" where
  "taken l k = set_cont Code
     (k\<lparr>locks := (locks k)(l := (locks k l)\<lparr>locked := True, owner := Some (currentThread k)\<rparr>)\<rparr>)"

lemma acquire_then_ok:
  "available l (ks s) \<Longrightarrow> acquire_then l f s = rbind (f (s\<lparr>ks := taken l (ks s)\<rparr>)) (\<lambda>(x, s). Inr (Returns x, s))"
  by (auto simp: acquire_then_def Acquire_def available_def taken_def Let_def)

lemma acquire_then_sleeps:
  "\<not> available l (ks s) \<Longrightarrow> \<exists>k. acquire_then l f s = Inr (Sleeps, s\<lparr>ks := k\<rparr>)"
  by (auto simp: acquire_then_def Acquire_def available_def Let_def)

lemma taken_simps [simp]:
  "currentThread (taken l k) = currentThread k" "conds (taken l k) = conds k" "readyList (taken l k) = readyList k"
  "isHeldByCurrentThread l (taken l k)" "locked (locks (taken l k) l)"
  "owner (locks (taken l k) l) = Some (currentThread k)" "lock_queue (locks (taken l k) l) = lock_queue (locks k l)"
  by (simp_all add: taken_def set_cont_def isHeldByCurrentThread_def)

lemma release_held:
  assumes "isHeldByCurrentThread l k"
  shows "\<not> locked (locks (Release l k) l)" "currentThread (Release l k) = currentThread k"
    "conds (Release l k) = conds k"
  using assms by (auto simp: Release_def ReadyToRun_def Let_def split: list.splits)

subsection \<open>Closing files\<close>

lemma closeFile_last:
  assumes ok: "files_ok s" and fd: "fd \<in> open_fds s" "file_at s fd a f" "numUsers f = 1"
    and lock: "available (fsLock (pm s) ! nat fd) (ks s)"
  obtains s' where "sys_closeFile fd s = Inr (Returns (), s')" "files_ok s'" "open_fds s' = open_fds s - {fd}"
    "sys_files s' a = None" "\<And>fd' a f. fd' \<in> open_fds s - {fd} \<Longrightarrow> file_at s' fd' a f = file_at s fd' a f"
    "\<not> locked (locks (ks s') (fsLock (pm s) ! nat fd))" "sysOpenFileTable (pm s') ! nat fd = Null"
    "fsLock (pm s') = fsLock (pm s)" "currentThread (ks s') = currentThread (ks s)"
proof -
  note b = files_ok_basic [OF ok]
  have r: "2 \<le> fd" "fd < 20" using open_fds_range [OF ok fd(1)] by auto
  let ?l = "fsLock (pm s) ! nat fd"
  obtain m where m: "Clear (sysOpenFileMap (pm s)) fd = Inr m" "bm_wf m" "numBits m = 20"
      "marked m = marked (sysOpenFileMap (pm s)) - {fd}"
    using Clear_ok [OF b(1), of fd] b(2) r by (metis in_rangeI dual_order.trans zero_le_numeral)
  define s' where "s' = s\<lparr>sys_files := (sys_files s)(a := None),
      pm := (pm s)\<lparr>sysOpenFileTable := (sysOpenFileTable (pm s))[nat fd := Null], sysOpenFileMap := m\<rparr>,
      ks := Release ?l (taken ?l (ks s))\<rparr>"
  have run: "sys_closeFile fd s = Inr (Returns (), s')"
    using r b(4,5) fd(2,3) m(1) lock
    by (simp add: sys_closeFile_def acquire_then_ok closeFile_locked_def file_at_def ptr_def deref_def s'_def)
  have fds: "open_fds s' = open_fds s - {fd}" using m(4) by (auto simp: open_fds_def s'_def)
  have old: "file_at s' fd' a' f' = file_at s fd' a' f'" if fd': "fd' \<in> open_fds s - {fd}" for fd' a' f'
  proof (rule file_at_other)
    show "fd \<noteq> fd'" "0 \<le> fd" "0 \<le> fd'" using r fd' open_fds_range [OF ok, of fd'] by auto
    show "sysOpenFileTable (pm s') = (sysOpenFileTable (pm s))[nat fd := Null]" by (simp add: s'_def)
    fix c assume c: "sysOpenFileTable (pm s) ! nat fd' = Ptr c"
    have "fd' \<in> open_fds s" using fd' by simp
    then obtain c' g where g: "file_at s fd' c' g" by (rule files_okE [OF ok])
    then have "sof_fd g = fd'" "sys_files s c = Some g" using c by (simp_all add: file_at_def)
    then have "c \<noteq> a" using fd(2) fd' by (auto simp: file_at_def)
    then show "sys_files s' c = sys_files s c" by (simp add: s'_def)
  qed
  have "names_distinct s'"
  proof (rule names_distinct_cong [of s s' fd])
    show "names_distinct s" using ok by (simp add: files_ok_def)
    show "open_fds s' \<subseteq> insert fd (open_fds s)" using fds by auto
    show "file_at s fd' a f" if "fd' \<in> open_fds s'" "fd' \<noteq> fd" "file_at s' fd' a f" for fd' a f
      using that(3) old [of fd'] that(1) fds by simp
    show "sof_fileName f \<noteq> sof_fileName f'" if "file_at s' fd a f" for a f and f' :: SysOpenFile
      using that r b(4) by (simp add: file_at_def s'_def)
  qed
  moreover have "\<forall>x\<in>open_fds s'. \<exists>a f. file_at s' x a f"
  proof
    fix x assume "x \<in> open_fds s'"
    then have x: "x \<in> open_fds s - {fd}" using fds by simp
    then have "x \<in> open_fds s" by simp
    then obtain c g where "file_at s x c g" by (rule files_okE [OF ok])
    with old [OF x] show "\<exists>a f. file_at s' x a f" by blast
  qed
  moreover have "bm_wf (sysOpenFileMap (pm s'))" "numBits (sysOpenFileMap (pm s')) = 20"
      "{0, 1} \<subseteq> marked (sysOpenFileMap (pm s'))" "length (sysOpenFileTable (pm s')) = 20" "length (fsLock (pm s')) = 20"
      "\<forall>a. next_sys s' \<le> a \<longrightarrow> sys_files s' a = None"
    using b m(2-4) r by (simp_all add: s'_def)
  ultimately have "files_ok s'" unfolding files_ok_def by (intro conjI)
  moreover have "\<not> locked (locks (ks s') ?l)" "currentThread (ks s') = currentThread (ks s)"
    using release_held [of ?l "taken ?l (ks s)"] by (simp_all add: s'_def)
  moreover have "sys_files s' a = None" "sysOpenFileTable (pm s') ! nat fd = Null" "fsLock (pm s') = fsLock (pm s)"
    using r b(4) by (simp_all add: s'_def)
  ultimately show thesis using run fds old that by blast
qed

lemma closeFile_empty_slot:
  assumes "fd \<in> {0..<20}" "length (sysOpenFileTable (pm s)) = 20" "length (fsLock (pm s)) = 20"
    and "sysOpenFileTable (pm s) ! nat fd = Null" "available (fsLock (pm s) ! nat fd) (ks s)"
  shows "sys_closeFile fd s = Inr (Returns (), s\<lparr>ks := taken (fsLock (pm s) ! nat fd) (ks s)\<rparr>)"
  using assms by (simp add: sys_closeFile_def acquire_then_ok closeFile_locked_def)

subsection \<open>Process numbers, exit and join\<close>

definition pid_tables :: "int \<Rightarrow> nat \<Rightarrow> nat \<Rightarrow> procs \<Rightarrow> bool" where
  "pid_tables pid c l s \<longleftrightarrow>
     bm_wf (pid_map (pm s)) \<and> numBits (pid_map (pm s)) = 10 \<and> pid \<in> {0..<10} \<and>
     length (conditionTable (pm s)) = 10 \<and> length (lockTable (pm s)) = 10 \<and> length (pcbTable (pm s)) = 10 \<and>
     length (returnStatus (pm s)) = 10 \<and>
     conditionTable (pm s) ! nat pid = Ptr c \<and> lockTable (pm s) ! nat pid = Ptr l"

text \<open>The synchronisation state but for locks and condition variables; the current thread is not asleep.\<close>

definition locks_only :: "ksync \<Rightarrow> ksync \<Rightarrow> bool" where
  "locks_only k k' \<longleftrightarrow>
     k' = k\<lparr>locks := locks k', conds := conds k', cont := (cont k)(currentThread k := Code)\<rparr>"

lemma getPID_ok:
  assumes wf: "bm_wf (pid_map (pm s))" "numBits (pid_map (pm s)) = 10"
    and len: "length (conditionTable (pm s)) = 10" "length (lockTable (pm s)) = 10"
    and lock: "available (bitLock (pm s)) (ks s)" and room: "marked (pid_map (pm s)) \<noteq> {0..<10}"
  obtains pid s' where "getPID own s = Inr (Returns pid, s')" "pid \<in> {0..<10} - marked (pid_map (pm s))"
    "{0..<pid} \<subseteq> marked (pid_map (pm s))" "marked (pid_map (pm s')) = insert pid (marked (pid_map (pm s)))"
    "bm_wf (pid_map (pm s'))" "numBits (pid_map (pm s')) = 10"
    "conditionTable (pm s') = (conditionTable (pm s))[nat pid := Ptr (next_cond s)]"
    "lockTable (pm s') = (lockTable (pm s))[nat pid := Ptr (next_lock s)]"
    "conds (ks s') (next_cond s) = []" "locks (ks s') (next_lock s) = new_Lock own"
    "pcbTable (pm s') = pcbTable (pm s)" "returnStatus (pm s') = returnStatus (pm s)"
    "pcbs s' = pcbs s" "next_pcb s' = next_pcb s" "currentThread (ks s') = currentThread (ks s)"
    "lock_queue (locks (ks s) (bitLock (pm s))) = [] \<Longrightarrow> locks_only (ks s) (ks s')"
proof -
  let ?l = "bitLock (pm s)"
  have "marked (pid_map (pm s)) \<noteq> {0..<numBits (pid_map (pm s))}" using room wf(2) by simp
  then obtain pid b where b: "Find (pid_map (pm s)) = Inr (pid, b)" "in_range (pid_map (pm s)) pid"
      "pid \<notin> marked (pid_map (pm s))" "{0..<pid} \<subseteq> marked (pid_map (pm s))" "bm_wf b" "numBits b = 10"
      "marked b = insert pid (marked (pid_map (pm s)))"
    using Find_first_clear [OF wf(1)] wf(2) by metis
  have r: "0 \<le> pid" "pid < 10" using b(2) wf(2) by (simp_all add: in_range_def)
  define k where "k = Release ?l (taken ?l (ks s))"
  define s' where "s' = s\<lparr>pm := (pm s)\<lparr>pid_map := b, conditionTable := (conditionTable (pm s))[nat pid := Ptr (next_cond s)],
        lockTable := (lockTable (pm s))[nat pid := Ptr (next_lock s)]\<rparr>,
      ks := k\<lparr>conds := (conds k)(next_cond s := []), locks := (locks k)(next_lock s := new_Lock own)\<rparr>,
      next_cond := Suc (next_cond s), next_lock := Suc (next_lock s)\<rparr>"
  have "getPID own s = Inr (Returns pid, s')"
    using lock b(1) r len
    by (simp add: getPID_def acquire_then_ok getPID_locked_def alloc_Condition_def alloc_Lock_def Let_def k_def s'_def)
  moreover have "currentThread k = currentThread (ks s)"
    by (simp add: k_def taken_def Release_def ReadyToRun_def set_cont_def Let_def split: list.split)
  moreover have "lock_queue (locks (ks s) ?l) = [] \<Longrightarrow> locks_only (ks s) (ks s')"
    by (simp add: locks_only_def s'_def k_def taken_def Release_def isHeldByCurrentThread_def set_cont_def Let_def)
  ultimately show thesis using b r by (intro that [of pid s']) (simp_all add: s'_def)
qed

lemma getPID_full:
  assumes "bm_wf (pid_map (pm s))" "numBits (pid_map (pm s)) = 10" "marked (pid_map (pm s)) = {0..<10}"
    and "available (bitLock (pm s)) (ks s)"
  shows "getPID own s = Inl OutOfBounds"
  using assms Find_full [OF assms(1)]
  by (simp add: getPID_def acquire_then_ok getPID_locked_def alloc_Condition_def Let_def aset_out)

lemma wake_all_ready:
  assumes "n = length (conds k c)"
  shows "readyList (wake_all c n k) = readyList k @ conds k c \<and> conds (wake_all c n k) c = [] \<and>
    locks (wake_all c n k) = locks k \<and> currentThread (wake_all c n k) = currentThread k \<and>
    (\<forall>t. tstatus (wake_all c n k) t = (if t \<in> set (conds k c) then READY else tstatus k t))"
  using assms
proof (induction n arbitrary: k)
  case (Suc n)
  then obtain t ts where ts: "conds k c = t # ts" "n = length ts" by (cases "conds k c") auto
  let ?k = "ReadyToRun t (k\<lparr>conds := (conds k)(c := ts)\<rparr>)"
  have "conds ?k c = ts" "readyList ?k = readyList k @ [t]" "locks ?k = locks k" "currentThread ?k = currentThread k"
      "tstatus ?k = (tstatus k)(t := READY)"
    by (simp_all add: ReadyToRun_def)
  with Suc.IH [of ?k] ts show ?case by auto
qed simp

text \<open>\<^verbatim>\<open>join\<close> puts the caller to sleep on the condition of the process.\<close>

lemma join_ok:
  assumes t: "pid_tables pid c l s" and lock: "available l (ks s)"
  obtains s' where "join pid s = Inr (Sleeps, s')" "pm s' = pm s"
    "conds (ks s') c = conds (ks s) c @ [currentThread (ks s)]" "\<not> locked (locks (ks s') l)"
    "tstatus (ks s') (currentThread (ks s)) = BLOCKED" "cont (ks s') (currentThread (ks s)) = InWait c l"
    "lock_queue (locks (ks s) l) = [] \<Longrightarrow> lock_queue (locks (ks s') l) = []"
proof -
  let ?k = "taken l (ks s)"
  define s' where "s' = s\<lparr>ks := Wait c l ?k\<rparr>"
  have run: "join pid s = Inr (Sleeps, s')"
    using t lock by (simp add: join_def pid_tables_def acquire_then_ok join_locked_def ptr_def s'_def)
  have r: "currentThread (Release l ?k) = currentThread (ks s)" "conds (Release l ?k) = conds (ks s)"
      "\<not> locked (locks (Release l ?k) l)"
    using release_held [of l ?k] by simp_all
  have "lock_queue (locks (ks s) l) = [] \<Longrightarrow> lock_queue (locks (Release l ?k) l) = []"
    by (simp add: Release_def Let_def)
  with run r show thesis by (intro that [of s']) (simp_all add: s'_def Wait_def Sleep_def Let_def)
qed

text \<open>The end of a process: its status is stored, its number is free again, and all who wait for it are woken.\<close>

lemma clearPID_ok:
  assumes t: "pid_tables pid c l s" and lock: "available l (ks s)" "lock_queue (locks (ks s) l) = []"
  obtains s' where "clearPID pid s = Inr (Returns (), s')"
    "marked (pid_map (pm s')) = marked (pid_map (pm s)) - {pid}" "pid_tables pid c l s'"
    "returnStatus (pm s') = returnStatus (pm s)" "readyList (ks s') = readyList (ks s) @ conds (ks s) c"
    "conds (ks s') c = []" "\<not> locked (locks (ks s') l)" "\<And>t. t \<in> set (conds (ks s) c) \<Longrightarrow> tstatus (ks s') t = READY"
    "pcbs s' = pcbs s" "currentThread (ks s') = currentThread (ks s)"
proof -
  have p: "bm_wf (pid_map (pm s))" "numBits (pid_map (pm s)) = 10" "0 \<le> pid" "pid < 10"
      "length (conditionTable (pm s)) = 10" "length (lockTable (pm s)) = 10" "length (pcbTable (pm s)) = 10"
      "length (returnStatus (pm s)) = 10" "conditionTable (pm s) ! nat pid = Ptr c" "lockTable (pm s) ! nat pid = Ptr l"
    using t by (simp_all add: pid_tables_def)
  obtain b where b: "Clear (pid_map (pm s)) pid = Inr b" "bm_wf b" "numBits b = 10"
      "marked b = marked (pid_map (pm s)) - {pid}"
    using Clear_ok [OF p(1), of pid] p(2-4) by (metis in_rangeI)
  let ?k = "taken l (ks s)"
  define k where "k = Broadcast c l ?k"
  have k: "readyList k = readyList (ks s) @ conds (ks s) c" "conds k c = []" "locks k = locks ?k"
      "currentThread k = currentThread (ks s)" "\<And>t. t \<in> set (conds (ks s) c) \<Longrightarrow> tstatus k t = READY"
    using wake_all_ready [of "length (conds ?k c)" ?k c] by (simp_all add: k_def Broadcast_def)
  have held: "isHeldByCurrentThread l k" using k(3,4) by (simp add: isHeldByCurrentThread_def)
  have rel: "Release l k = k\<lparr>locks := (locks k)(l := (locks k l)\<lparr>locked := False, owner := None\<rparr>)\<rparr>"
    using held lock(2) k(3) by (simp add: Release_def Let_def)
  define s' where "s' = s\<lparr>pm := (pm s)\<lparr>pid_map := b, pcbTable := (pcbTable (pm s))[nat pid := Null]\<rparr>, ks := Release l k\<rparr>"
  have "clearPID pid s = Inr (Returns (), s')"
    using p b(1) lock(1) by (simp add: clearPID_def clearPID_locked_def acquire_then_ok ptr_def s'_def k_def Let_def)
  with p b k rel show thesis by (intro that [of s']) (simp_all add: s'_def pid_tables_def)
qed

lemma exit_ok:
  assumes t: "pid_tables pid c l s" and lock: "available l (ks s)" "lock_queue (locks (ks s) l) = []"
  obtains s' where "rbind (setExitStatus pid st s) (clearPID pid) = Inr (Returns (), s')"
    "marked (pid_map (pm s')) = marked (pid_map (pm s)) - {pid}" "pid_tables pid c l s'"
    "returnStatus (pm s') ! nat pid = st" "readyList (ks s') = readyList (ks s) @ conds (ks s) c"
    "conds (ks s') c = []" "\<not> locked (locks (ks s') l)" "\<And>t. t \<in> set (conds (ks s) c) \<Longrightarrow> tstatus (ks s') t = READY"
proof -
  define s1 where "s1 = s\<lparr>pm := (pm s)\<lparr>returnStatus := (returnStatus (pm s))[nat pid := st]\<rparr>\<rparr>"
  have 1: "setExitStatus pid st s = Inr s1" "pid_tables pid c l s1" "available l (ks s1)" "lock_queue (locks (ks s1) l) = []"
    using t lock by (simp_all add: setExitStatus_def s1_def pid_tables_def)
  have "nat pid < length (returnStatus (pm s))" using t by (auto simp: pid_tables_def)
  then have 2: "returnStatus (pm s1) ! nat pid = st" "ks s1 = ks s" "pid_map (pm s1) = pid_map (pm s)"
    by (simp_all add: s1_def)
  obtain s' where "clearPID pid s1 = Inr (Returns (), s')"
    "marked (pid_map (pm s')) = marked (pid_map (pm s1)) - {pid}" "pid_tables pid c l s'"
    "returnStatus (pm s') = returnStatus (pm s1)" "readyList (ks s') = readyList (ks s1) @ conds (ks s1) c"
    "conds (ks s') c = []" "\<not> locked (locks (ks s') l)" "\<And>t. t \<in> set (conds (ks s1) c) \<Longrightarrow> tstatus (ks s') t = READY"
    by (rule clearPID_ok [OF 1(2-4)]) (rule that)
  with 1(1) 2 show thesis by (intro that [of s']) simp_all
qed

subsection \<open>A new process manager\<close>

lemma alloc_locks_ok:
  "\<exists>k. alloc_locks own n s = ([next_lock s..<next_lock s + n], s\<lparr>ks := k, next_lock := next_lock s + n\<rparr>) \<and>
     currentThread k = currentThread (ks s) \<and> conds k = conds (ks s) \<and>
     (\<forall>l. locks k l = (if next_lock s \<le> l \<and> l < next_lock s + n then new_Lock own else locks (ks s) l))"
proof (induction n arbitrary: s)
  case 0
  then show ?case by (intro exI [of _ "ks s"]) auto
next
  case (Suc n)
  define s1 where "s1 = snd (alloc_Lock own s)"
  have s1: "alloc_Lock own s = (next_lock s, s1)" "next_lock s1 = Suc (next_lock s)"
      "currentThread (ks s1) = currentThread (ks s)" "conds (ks s1) = conds (ks s)"
      "locks (ks s1) = (locks (ks s))(next_lock s := new_Lock own)" "s1\<lparr>ks := k, next_lock := n'\<rparr> = s\<lparr>ks := k, next_lock := n'\<rparr>" for k n'
    by (simp_all add: s1_def alloc_Lock_def)
  from Suc.IH [of s1] obtain k where k: "alloc_locks own n s1 =
      ([next_lock s1..<next_lock s1 + n], s1\<lparr>ks := k, next_lock := next_lock s1 + n\<rparr>)"
      "currentThread k = currentThread (ks s1)" "conds k = conds (ks s1)"
      "\<forall>l. locks k l = (if next_lock s1 \<le> l \<and> l < next_lock s1 + n then new_Lock own else locks (ks s1) l)"
    by blast
  have "alloc_locks own (Suc n) s = ([next_lock s..<next_lock s + Suc n], s\<lparr>ks := k, next_lock := next_lock s + Suc n\<rparr>)"
    using k(1) s1 by (simp add: upt_conv_Cons del: upt_Suc)
  with k s1 show ?case by (intro exI [of _ k]) auto
qed

lemma new_ProcessManager_ok:
  assumes "length rs = 10" "\<forall>a. next_sys s \<le> a \<longrightarrow> sys_files s a = None"
  obtains s' where "new_ProcessManager g rs own s = Inr s'" "files_ok s'" "open_fds s' = {}"
    "bm_wf (pid_map (pm s'))" "numBits (pid_map (pm s')) = 10" "marked (pid_map (pm s')) = {}"
    "length (conditionTable (pm s')) = 10" "length (lockTable (pm s')) = 10" "length (pcbTable (pm s')) = 10"
    "length (returnStatus (pm s')) = 10" "locks (ks s') (bitLock (pm s')) = new_Lock own"
    "\<And>fd. fd \<in> {0..<20} \<Longrightarrow> locks (ks s') (fsLock (pm s') ! nat fd) = new_Lock own"
    "currentThread (ks s') = currentThread (ks s)"
proof -
  obtain b where b: "BitMap g 10 = Inr b" "bm_wf b" "numBits b = 10" "marked b = {}"
    using BitMap_ok [of 10 g] by auto
  obtain m0 where m0: "BitMap g 20 = Inr m0" "bm_wf m0" "numBits m0 = 20" "marked m0 = {}"
    using BitMap_ok [of 20 g] by auto
  have r0: "in_range m0 0" using m0(3) by (simp add: in_range_def)
  obtain m1 where m1: "Mark m0 0 = Inr m1" "bm_wf m1" "numBits m1 = 20" "marked m1 = {0}"
    by (rule Mark_ok [OF m0(2) r0]) (use m0(3,4) in simp)
  have r1: "in_range m1 1" using m1(3) by (simp add: in_range_def)
  obtain m2 where m2: "Mark m1 1 = Inr m2" "bm_wf m2" "numBits m2 = 20" "marked m2 = {1, 0}"
    by (rule Mark_ok [OF m1(2) r1]) (use m1(3,4) in simp)
  define s1 where "s1 = snd (alloc_Lock own s)"
  have s1: "alloc_Lock own s = (next_lock s, s1)" "next_lock s1 = Suc (next_lock s)"
      "currentThread (ks s1) = currentThread (ks s)" "locks (ks s1) (next_lock s) = new_Lock own"
      "sys_files s1 = sys_files s" "next_sys s1 = next_sys s"
    by (simp_all add: s1_def alloc_Lock_def)
  obtain k where k: "alloc_locks own 20 s1 = ([next_lock s1..<next_lock s1 + 20], s1\<lparr>ks := k, next_lock := next_lock s1 + 20\<rparr>)"
      "currentThread k = currentThread (ks s1)"
      "\<forall>l. locks k l = (if next_lock s1 \<le> l \<and> l < next_lock s1 + 20 then new_Lock own else locks (ks s1) l)"
    using alloc_locks_ok [of own 20 s1] by blast
  define s2 where "s2 = s1\<lparr>ks := k, next_lock := next_lock s1 + 20,
      pm := \<lparr>pcbTable = replicate 10 Uninit, conditionTable = replicate 10 Uninit,
             lockTable = replicate 10 Uninit, bitLock = next_lock s, fsLock = [next_lock s1..<next_lock s1 + 20],
             pid_map = b, returnStatus = rs, sysOpenFileTable = replicate 20 Uninit, sysOpenFileMap = m2\<rparr>\<rparr>"
  have "new_ProcessManager g rs own s = Inr s2"
    using b(1) m0(1) m1(1) m2(1) s1(1) k(1) by (simp add: new_ProcessManager_def proc_consts s2_def del: upt_Suc)
  moreover have fds: "open_fds s2 = {}" using m2(4) by (auto simp: open_fds_def s2_def)
  moreover have "files_ok s2"
    unfolding files_ok_def names_distinct_def fds
    using m2(2-4) assms(2) s1(5,6) by (simp add: s2_def del: upt_Suc)
  moreover have "locks (ks s2) (fsLock (pm s2) ! nat fd) = new_Lock own" if "fd \<in> {0..<20}" for fd
  proof -
    have "nat fd < 20" using that by auto
    then have "fsLock (pm s2) ! nat fd = next_lock s1 + nat fd" by (simp add: s2_def del: upt_Suc)
    with \<open>nat fd < 20\<close> k(3) show ?thesis by (simp add: s2_def)
  qed
  moreover have "locks (ks s2) (bitLock (pm s2)) = new_Lock own" using k(3) s1(2,4) by (simp add: s2_def)
  ultimately show thesis
    using b assms(1) k(2) s1(3) by (intro that [of s2]) (simp_all add: s2_def del: upt_Suc)
qed

subsection \<open>Properties\<close>

lemma sample_procs:
  obtains s where "files_ok s" "open_fds s = {}" "bm_wf (pid_map (pm s))" "numBits (pid_map (pm s)) = 10"
    "marked (pid_map (pm s)) = {}" "length (conditionTable (pm s)) = 10" "length (lockTable (pm s)) = 10"
    "length (pcbTable (pm s)) = 10" "length (returnStatus (pm s)) = 10" "available (bitLock (pm s)) (ks s)"
    "\<And>fd. fd \<in> {0..<20} \<Longrightarrow> available (fsLock (pm s) ! nat fd) (ks s)"
proof -
  define k where "k = \<lparr>currentThread = 0, readyList = [], tstatus = (\<lambda>t. if t = 0 then RUNNING else JUST_CREATED),
      cont = (\<lambda>_. Code), switched = {}, allocated = {0}, threadToBeDestroyed = None,
      sems = (\<lambda>_. new_Semaphore 0), locks = (\<lambda>_. new_Lock None), conds = (\<lambda>_. []), bars = (\<lambda>_. new_Barrier 2)\<rparr>"
  define s0 where "s0 = \<lparr>pm = \<lparr>pcbTable = [], conditionTable = [], lockTable = [], bitLock = 0, fsLock = [],
        pid_map = \<lparr>numBits = 0, numWords = 0, map_words = []\<rparr>, returnStatus = [], sysOpenFileTable = [],
        sysOpenFileMap = \<lparr>numBits = 0, numWords = 0, map_words = []\<rparr>\<rparr>,
      ks = k, next_lock = 0, next_cond = 0, pcbs = (\<lambda>_. None), next_pcb = 0, sys_files = (\<lambda>_. None), next_sys = 0,
      user_files = (\<lambda>_. None), next_user = 0\<rparr>"
  have s0: "length (replicate 10 (0 :: int)) = 10" "\<forall>a. next_sys s0 \<le> a \<longrightarrow> sys_files s0 a = None"
    by (simp_all add: s0_def)
  obtain s where s: "new_ProcessManager (\<lambda>_. 0) (replicate 10 0) None s0 = Inr s" "files_ok s" "open_fds s = {}"
    "bm_wf (pid_map (pm s))" "numBits (pid_map (pm s)) = 10" "marked (pid_map (pm s)) = {}"
    "length (conditionTable (pm s)) = 10" "length (lockTable (pm s)) = 10" "length (pcbTable (pm s)) = 10"
    "length (returnStatus (pm s)) = 10" "locks (ks s) (bitLock (pm s)) = new_Lock None"
    "\<And>fd. fd \<in> {0..<20} \<Longrightarrow> locks (ks s) (fsLock (pm s) ! nat fd) = new_Lock None"
    by (rule new_ProcessManager_ok [OF s0]) blast
  show thesis by (rule that [of s]) (use s in \<open>simp_all add: available_def new_Lock_def\<close>)
qed

text \<open>
  C32: the system-wide table of open files is a map from names to descriptors. \<^verbatim>\<open>getOpenFile\<close> for a name
  fails only if the name is not open and all descriptors from 2 to 19 are taken, and then changes
  nothing. Otherwise it returns the file of that name, which was open under its descriptor before or
  has been entered under a descriptor that was free; \<^verbatim>\<open>getFD\<close> then finds this descriptor, opening the name again
  returns the same file, and all other files keep their descriptors.
\<close>

theorem open_files_are_a_map:
  assumes ok: "files_ok s"
  shows "\<exists>p s'. sys_getOpenFile name g s = Inr (p, s') \<and> files_ok s' \<and>
    (p = Null \<and> s' = s \<and> open_fds s = {2..<20} \<and>
       (\<forall>fd a f. fd \<in> open_fds s \<longrightarrow> file_at s fd a f \<longrightarrow> sof_fileName f \<noteq> name)
     \<or> (\<exists>a fd f. p = Ptr a \<and> file_at s' fd a f \<and> sof_fileName f = name \<and> open_fds s' = insert fd (open_fds s) \<and>
          getFD name s' = Inr fd \<and> sys_getOpenFile name g' s' = Inr (Ptr a, s') \<and>
          (\<forall>fd'\<in>open_fds s. \<forall>b h. file_at s' fd' b h = file_at s fd' b h)))"
proof (cases "\<exists>fd a f. fd \<in> open_fds s \<and> file_at s fd a f \<and> sof_fileName f = name")
  case True
  then obtain fd a f where f: "fd \<in> open_fds s" "file_at s fd a f" "sof_fileName f = name" by blast
  have "open_fds s = insert fd (open_fds s)" using f(1) by blast
  with f ok getOpenFile_known [OF ok f] getFD_present [OF ok f] show ?thesis
    by (intro exI [of _ "Ptr a"] exI [of _ s] conjI disjI2 exI [of _ a] exI [of _ fd] exI [of _ f]) simp_all
next
  case False
  then have absent: "sof_fileName f \<noteq> name" if "fd \<in> open_fds s" "file_at s fd a f" for fd a f using that by blast
  show ?thesis
  proof (cases "open_fds s = {2..<20}")
    case True
    have "sys_getOpenFile name g s = Inr (Null, s)" by (rule getOpenFile_full [OF ok _ True]) (rule absent)
    moreover have "\<forall>fd a f. fd \<in> open_fds s \<longrightarrow> file_at s fd a f \<longrightarrow> sof_fileName f \<noteq> name"
      by (intro allI impI) (rule absent)
    ultimately show ?thesis using True ok by (intro exI [of _ Null] exI [of _ s] conjI disjI1) simp_all
  next
    case room: False
    obtain fd s' where s': "sys_getOpenFile name g s = Inr (Ptr (next_sys s), s')" "files_ok s'"
        "open_fds s' = insert fd (open_fds s)" "file_at s' fd (next_sys s) (new_SysOpenFile g name fd)"
        "\<And>fd' a f. fd' \<in> open_fds s \<Longrightarrow> file_at s' fd' a f = file_at s fd' a f"
      by (rule getOpenFile_new [OF ok _ room, of name g]) (rule absent, assumption+, blast)
    have n: "sof_fileName (new_SysOpenFile g name fd) = name" "fd \<in> open_fds s'"
      using s'(3) by (simp_all add: new_SysOpenFile_def)
    note again = getOpenFile_known [OF s'(2) n(2) s'(4) n(1)] getFD_present [OF s'(2) n(2) s'(4) n(1)]
    show ?thesis
      using s' n(1) again
      by (intro exI [of _ "Ptr (next_sys s)"] exI [of _ s'] conjI disjI2 exI [of _ "next_sys s"] exI [of _ fd]
          exI [of _ "new_SysOpenFile g name fd"]) auto
  qed
qed

theorem open_files_are_a_map_witness:
  "\<exists>s. files_ok s \<and> (\<exists>p s'. sys_getOpenFile [0x66] None s = Inr (p, s') \<and> files_ok s' \<and> p \<noteq> Null)"
proof -
  obtain s where s: "files_ok s" "open_fds s = {}" by (rule sample_procs)
  have ne: "{} \<noteq> {2..<20 :: int}" by auto
  from open_files_are_a_map [OF s(1), of "[0x66]" None None] obtain p s' where
    "sys_getOpenFile [0x66] None s = Inr (p, s')" "files_ok s'" "p \<noteq> Null"
    using s(2) ne by auto
  with s(1) show ?thesis by blast
qed





end
