(* ===== verification/Space_Lifecycle.thy ===== *)
theory Space_Lifecycle
  imports Address_Space
begin

text \<open>
  The life of an address space: what \<^verbatim>\<open>AddrSpace::AddrSpace\<close>, \<^verbatim>\<open>AddrSpace::~AddrSpace\<close> and
  \<^verbatim>\<open>AddrSpace::CopyAddrSpace\<close> of theory \<open>Address_Space\<close> do to the pages of the machine. The constructor builds a page table of fresh
  pages and loads the program into them; the destructor returns every page; the copy duplicates what the swap file holds.
\<close>

subsection \<open>Changes outside the virtual memory manager\<close>

lemma truncate_fields:
  assumes "vm.truncate k' = vm.truncate k"
  shows "host k' = host k" "diskBuffer k' = diskBuffer k" "memMgr k' = memMgr k" "swapFile k' = swapFile k"
    "swapMap k' = swapMap k" "policy k' = policy k" "activePageMap k' = activePageMap k" "activePages k' = activePages k"
  using assms by (simp_all add: vm.defs)

lemma other_kernel_state:
  assumes "vm.truncate k' = vm.truncate (kern s)"
  shows "vm_ok invar pages i (s\<lparr>kern := k'\<rparr>) = vm_ok invar pages i s"
    "page_bytes i (s\<lparr>kern := k'\<rparr>) = page_bytes i s" "swap_used (s\<lparr>kern := k'\<rparr>) = swap_used s"
    "table_pages t (s\<lparr>kern := k'\<rparr>) = table_pages t s" "space_bytes i t (s\<lparr>kern := k'\<rparr>) = space_bytes i t s"
    "get_entry q (s\<lparr>kern := k'\<rparr>) = get_entry q s"
proof -
  note f = truncate_fields [OF assms]
  show pb: "page_bytes i (s\<lparr>kern := k'\<rparr>) = page_bytes i s"
    by (simp add: fun_eq_iff page_bytes_def frame_bytes_def swap_bytes_def f split: option.split)
  show tp: "table_pages t (s\<lparr>kern := k'\<rparr>) = table_pages t s" by (simp add: table_pages_def)
  show "space_bytes i t (s\<lparr>kern := k'\<rparr>) = space_bytes i t s" by (simp add: space_bytes_def pb tp)
  show "vm_ok invar pages i (s\<lparr>kern := k'\<rparr>) = vm_ok invar pages i s" "swap_used (s\<lparr>kern := k'\<rparr>) = swap_used s"
    "get_entry q (s\<lparr>kern := k'\<rparr>) = get_entry q s"
    by (simp_all add: vm_ok_def vm_base_def slot_ok_def swap_used_def active_def frame_bytes_def swap_bytes_def
        get_entry_cong f)
qed

lemma more_fields:
  assumes "vm.more k' = vm.more k"
  shows "pr k' = pr k" "spaces k' = spaces k" "next_space k' = next_space k" "next_table k' = next_table k"
    "space_of k' = space_of k" "userRegisters k' = userRegisters k" "forked k' = forked k"
    "term_in k' = term_in k" "term_out k' = term_out k"
  using assms by (cases k; cases k'; simp)+

subsection \<open>Entries that no frame refers to\<close>

definition unreferenced :: "entry_ptr \<Rightarrow> ('p, 'x) vm_scheme hw \<Rightarrow> bool" where
  "unreferenced q s \<longleftrightarrow> (\<forall>k<32. activePageMap (kern s) ! k \<noteq> -1 \<longrightarrow> activePages (kern s) ! k \<noteq> Some q)"

lemma unreferenced_absent:
  assumes "vm_ok invar pages i s" "get_entry q s = Inl f" shows "unreferenced q s"
  unfolding unreferenced_def
proof (intro allI impI notI)
  fix k assume k: "k < 32" "activePageMap (kern s) ! k \<noteq> -1" "activePages (kern s) ! k = Some q"
  have "slot_ok i s k" using assms(1) k(1) by (simp add: vm_ok_def)
  from slot_okE [OF this refl k(2)] obtain q' e where "activePages (kern s) ! k = Some q'" "get_entry q' s = Inr e" .
  with k(3) assms(2) show False by simp
qed

lemma entries_unreferenced:
  assumes ok: "vm_ok invar pages i s" and same: "kern s' = kern s" "mainMemory s' = mainMemory s"
    and ent: "\<And>q. \<not> unreferenced q s \<Longrightarrow> get_entry q s' = get_entry q s"
  shows "vm_ok invar pages i s'" "page_bytes i s' sq = page_bytes i s sq" "swap_used s' = swap_used s"
proof -
  have u: "frame_bytes s' k = frame_bytes s k" "swap_bytes i s' x = swap_bytes i s x" "swap_used s' = swap_used s"
      "active s' = active s" "vm_base i s' = vm_base i s" for k x
    using same by (simp_all add: frame_bytes_def swap_bytes_def swap_used_def active_def vm_base_def)
  have "slot_ok i s' k" if k: "k < 32" for k
  proof (cases "activePageMap (kern s) ! k = -1")
    case True
    then show ?thesis by (simp add: slot_ok_def same)
  next
    case False
    have "slot_ok i s k" using ok k by (simp add: vm_ok_def)
    then have 1: "activePageMap (kern s) ! k \<in> swap_used s"
        "\<forall>j<32. activePageMap (kern s) ! j = activePageMap (kern s) ! k \<longrightarrow> j = k"
      and "\<exists>r x. activePages (kern s) ! k = Some r \<and> get_entry r s = Inr x \<and> physicalPage x = activePageMap (kern s) ! k \<and>
        (dirty x \<or> frame_bytes s k = swap_bytes i s (activePageMap (kern s) ! k))"
      using False unfolding slot_ok_def Let_def by blast+
    then obtain r x where r: "activePages (kern s) ! k = Some r" "get_entry r s = Inr x"
        "physicalPage x = activePageMap (kern s) ! k"
        "dirty x \<or> frame_bytes s k = swap_bytes i s (activePageMap (kern s) ! k)" by blast
    have "\<not> unreferenced r s" using k False r(1) unfolding unreferenced_def by blast
    then have "get_entry r s' = Inr x" using ent r(2) by simp
    with 1 r show ?thesis unfolding slot_ok_def Let_def same(1) u by blast
  qed
  with ok u show "vm_ok invar pages i s'" by (simp add: vm_ok_def same)
  show "page_bytes i s' sq = page_bytes i s sq" by (simp add: page_bytes_def u same split: option.split)
  show "swap_used s' = swap_used s" by (rule u)
qed

lemma set_entry_unreferenced:
  assumes ok: "vm_ok invar pages i s" and un: "unreferenced q s" and set: "set_entry q e s = Inr s'"
  shows "vm_ok invar pages i s'" "page_bytes i s' sq = page_bytes i s sq" "swap_used s' = swap_used s"
  by (rule entries_unreferenced [OF ok]; use set_entry_frame [OF set] set_entry_other [OF set] un in auto)+

lemma table_unreferenced:
  assumes ok: "vm_ok invar pages i s" and un: "\<And>m. unreferenced (PageEntry t m) s"
  shows "vm_ok invar pages i (s\<lparr>pageTables := (pageTables s)(t := es)\<rparr>)"
    "page_bytes i (s\<lparr>pageTables := (pageTables s)(t := es)\<rparr>) sq = page_bytes i s sq"
    "swap_used (s\<lparr>pageTables := (pageTables s)(t := es)\<rparr>) = swap_used s"
proof -
  have "get_entry q (s\<lparr>pageTables := (pageTables s)(t := es)\<rparr>) = get_entry q s" if "\<not> unreferenced q s" for q
    using that un by (auto simp: get_entry_def split: entry_ptr.split)
  note * = entries_unreferenced [OF ok, of "s\<lparr>pageTables := (pageTables s)(t := es)\<rparr>", OF _ _ this]
  show "vm_ok invar pages i (s\<lparr>pageTables := (pageTables s)(t := es)\<rparr>)"
    "page_bytes i (s\<lparr>pageTables := (pageTables s)(t := es)\<rparr>) sq = page_bytes i s sq"
    "swap_used (s\<lparr>pageTables := (pageTables s)(t := es)\<rparr>) = swap_used s"
    by (rule *; simp)+
qed

subsection \<open>Building a page table\<close>

text \<open>
  \<open>grows i t s s'\<close>: pages have been allocated, the table \<open>t\<close> has been filled, and nothing but the files of the host and
  \<^verbatim>\<open>diskBuffer\<close> has changed besides.
\<close>

definition grows :: "nat \<Rightarrow> nat \<Rightarrow> ('p, 'x) vm_scheme hw \<Rightarrow> ('p, 'x) vm_scheme hw \<Rightarrow> bool" where
  "grows i t s s' \<longleftrightarrow>
     (\<exists>u b m es. s' = s\<lparr>pageTables := (pageTables s)(t := es), kern := (kern s)\<lparr>host := u, diskBuffer := b, swapMap := m\<rparr>\<rparr> \<and>
        (\<forall>g j. stub_ok g j u = stub_ok g j (host (kern s))) \<and> (\<forall>j. j \<noteq> i \<longrightarrow> inodes u j = inodes (host (kern s)) j))"

lemma growsE:
  assumes "grows i t s s'"
  obtains u b m es where
    "s' = s\<lparr>pageTables := (pageTables s)(t := es), kern := (kern s)\<lparr>host := u, diskBuffer := b, swapMap := m\<rparr>\<rparr>"
    "\<And>g j. stub_ok g j u = stub_ok g j (host (kern s))" "\<And>j. j \<noteq> i \<Longrightarrow> inodes u j = inodes (host (kern s)) j"
  using assms unfolding grows_def by (elim exE conjE) (erule that; blast)

lemma growsD:
  assumes "grows i t s s'"
  shows "t' \<noteq> t \<Longrightarrow> pageTables s' t' = pageTables s t'" "activePageMap (kern s') = activePageMap (kern s)"
    "activePages (kern s') = activePages (kern s)" "vm.more (kern s') = vm.more (kern s)"
    "stub_ok g j (host (kern s')) = stub_ok g j (host (kern s))"
    "j \<noteq> i \<Longrightarrow> inodes (host (kern s')) j = inodes (host (kern s)) j"
    "mainMemory s' = mainMemory s" "registers s' = registers s" "tlb s' = tlb s"
    "unreferenced q s' = unreferenced q s"
proof -
  obtain u b m es where
    *: "s' = s\<lparr>pageTables := (pageTables s)(t := es), kern := (kern s)\<lparr>host := u, diskBuffer := b, swapMap := m\<rparr>\<rparr>"
    "\<And>g j. stub_ok g j u = stub_ok g j (host (kern s))" "\<And>j. j \<noteq> i \<Longrightarrow> inodes u j = inodes (host (kern s)) j"
    by (rule growsE [OF assms]) (rule that)
  show "t' \<noteq> t \<Longrightarrow> pageTables s' t' = pageTables s t'" "activePageMap (kern s') = activePageMap (kern s)"
    "activePages (kern s') = activePages (kern s)" "vm.more (kern s') = vm.more (kern s)"
    "stub_ok g j (host (kern s')) = stub_ok g j (host (kern s))"
    "mainMemory s' = mainMemory s" "registers s' = registers s" "tlb s' = tlb s"
    "unreferenced q s' = unreferenced q s"
    unfolding *(1) by (simp_all add: *(2) unreferenced_def)
  show "j \<noteq> i \<Longrightarrow> inodes (host (kern s')) j = inodes (host (kern s)) j" unfolding *(1) by (simp add: *(3))
qed

lemma grows_refl [simp]: "grows i t s s"
  unfolding grows_def
  by (intro exI [of _ "host (kern s)"] exI [of _ "diskBuffer (kern s)"] exI [of _ "swapMap (kern s)"]
      exI [of _ "pageTables s t"]) simp

lemma grows_trans:
  assumes "grows i t s s1" "grows i t s1 s2" shows "grows i t s s2"
proof -
  obtain u b m es where
    1: "s1 = s\<lparr>pageTables := (pageTables s)(t := es), kern := (kern s)\<lparr>host := u, diskBuffer := b, swapMap := m\<rparr>\<rparr>"
    "\<And>g j. stub_ok g j u = stub_ok g j (host (kern s))" "\<And>j. j \<noteq> i \<Longrightarrow> inodes u j = inodes (host (kern s)) j"
    by (rule growsE [OF assms(1)]) (rule that)
  obtain u' b' m' es' where
    2: "s2 = s1\<lparr>pageTables := (pageTables s1)(t := es'), kern := (kern s1)\<lparr>host := u', diskBuffer := b', swapMap := m'\<rparr>\<rparr>"
    "\<And>g j. stub_ok g j u' = stub_ok g j (host (kern s1))" "\<And>j. j \<noteq> i \<Longrightarrow> inodes u' j = inodes (host (kern s1)) j"
    by (rule growsE [OF assms(2)]) (rule that)
  show ?thesis
    unfolding grows_def by (intro exI [of _ u'] exI [of _ b'] exI [of _ m'] exI [of _ es']) (simp add: 1 2)
qed

lemma no_frame:
  assumes "vm_ok invar pages i s" "sp \<notin> swap_used s" "sp \<noteq> -1"
  shows "sp \<notin> set (activePageMap (kern s))"
proof
  assume "sp \<in> set (activePageMap (kern s))"
  then obtain k where k: "k < 32" "activePageMap (kern s) ! k = sp"
    using vm_ok_lengths [OF assms(1)] by (auto simp: in_set_conv_nth)
  have "slot_ok i s k" using assms(1) k(1) by (simp add: vm_ok_def)
  from slot_okE [OF this k(2) assms(3)] have "sp \<in> swap_used s" .
  with assms(2) show False by simp
qed

text \<open>The pages in the order of the table.\<close>

definition table_of :: "int list \<Rightarrow> TranslationEntry list" where
  "table_of ps = map (\<lambda>k. page_entry (int k) (ps ! k)) [0..<length ps]"

lemma table_of_simps [simp]:
  "length (table_of ps) = length ps" "k < length ps \<Longrightarrow> table_of ps ! k = page_entry (int k) (ps ! k)"
  "map physicalPage (table_of ps) = ps" "table_of [] = []"
  by (auto simp: table_of_def page_entry_def intro: nth_equalityI)

lemma table_of_snoc: "(table_of ps @ replicate (Suc m) e)[length ps := page_entry (int (length ps)) p] =
    table_of (ps @ [p]) @ replicate m e"
  by (rule nth_equalityI) (auto simp: nth_append nth_list_update)

text \<open>
  One round of a loop that fills the table \<open>t\<close>: entry \<open>k\<close> now stands for the new page \<open>sp\<close>, which holds \<open>C\<close>, and no other page has
  changed.
\<close>

definition page_step ::
    "('p \<Rightarrow> bool) \<Rightarrow> ('p \<Rightarrow> int set) \<Rightarrow> nat \<Rightarrow> nat \<Rightarrow> nat \<Rightarrow> 8 word list \<Rightarrow> 'p os \<Rightarrow> int \<Rightarrow> 'p os \<Rightarrow> bool" where
  "page_step invar pages i t k C s sp s' \<longleftrightarrow>
     vm_ok invar pages i s' \<and> grows i t s s' \<and> sp \<in> {0..<512} - swap_used s \<and> swap_used s' = insert sp (swap_used s) \<and>
     page_bytes i s' sp = C \<and>
     (\<forall>sq\<in>swap_used s. page_bytes i s' sq = page_bytes i s sq \<and> swap_bytes i s' sq = swap_bytes i s sq) \<and>
     pageTables s' t = (pageTables s t)[k := page_entry (int k) sp]"

text \<open>The first half of a round: a page is allocated and entered.\<close>

lemma new_page_ok:
  assumes ok: "vm_ok invar pages i s" and free: "swap_used s \<noteq> {0..<512}"
    and k: "k < length (pageTables s t)" and un: "\<And>m. unreferenced (PageEntry t m) s"
  obtains sp s1 s2 where "vm_getPage s = Inr (sp, s1)" "set_entry (PageEntry t k) (page_entry (int k) sp) s1 = Inr s2"
    "page_step invar pages i t k (replicate 128 0) s sp s2"
proof -
  obtain sp s1 where s1: "sw_allocPage s = Inr (sp, s1)" "vm_ok invar pages i s1" "sp \<in> {0..<512} - swap_used s"
    "swap_used s1 = insert sp (swap_used s)" "page_bytes i s1 sp = replicate 128 0"
    "\<And>sq. sq \<in> swap_used s \<Longrightarrow> page_bytes i s1 sq = page_bytes i s sq"
    "\<And>g j. stub_ok g j (host (kern s1)) = stub_ok g j (host (kern s))"
    "\<And>j. j \<noteq> i \<Longrightarrow> inodes (host (kern s1)) j = inodes (host (kern s)) j"
    "\<exists>u b m. s1 = s\<lparr>kern := (kern s)\<lparr>host := u, diskBuffer := b, swapMap := m\<rparr>\<rparr>"
    "\<And>sq. sq \<in> swap_used s \<Longrightarrow> swap_bytes i s1 sq = swap_bytes i s sq"
    by (rule sw_allocPage_ok [OF ok free]) (rule that)
  from s1(9) obtain u b m where eq: "s1 = s\<lparr>kern := (kern s)\<lparr>host := u, diskBuffer := b, swapMap := m\<rparr>\<rparr>" by blast
  define s2 where "s2 = s1\<lparr>pageTables := (pageTables s)(t := (pageTables s t)[k := page_entry (int k) sp])\<rparr>"
  have set: "set_entry (PageEntry t k) (page_entry (int k) sp) s1 = Inr s2"
    using k by (simp add: set_entry_def s2_def eq)
  have un1: "unreferenced (PageEntry t k) s1" using un by (simp add: unreferenced_def eq)
  note s2 = set_entry_unreferenced [OF s1(2) un1 set]
  have sw: "swap_bytes i s2 sq = swap_bytes i s1 sq" for sq by (simp add: swap_bytes_def s2_def)
  have "grows i t s s2"
    unfolding grows_def using s1(7,8)
    by (intro exI [of _ u] exI [of _ b] exI [of _ m] exI [of _ "(pageTables s t)[k := page_entry (int k) sp]"])
      (simp add: s2_def eq)
  then have "page_step invar pages i t k (replicate 128 0) s sp s2"
    unfolding page_step_def using s1(3-6,10) s2 sw by (simp add: s2_def [symmetric]) (simp add: s2_def)
  with s1(1) set show thesis by (intro that) (simp_all add: vm_getPage_def)
qed

text \<open>The state of the loop after some rounds: \<open>ps\<close> are the pages allocated so far, \<open>C\<close> says what they hold.\<close>

definition filled ::
    "('p \<Rightarrow> bool) \<Rightarrow> ('p \<Rightarrow> int set) \<Rightarrow> nat \<Rightarrow> nat \<Rightarrow> (nat \<Rightarrow> 8 word list) \<Rightarrow> TranslationEntry \<Rightarrow> nat \<Rightarrow> 'p os \<Rightarrow>
     int list \<Rightarrow> 'p os \<Rightarrow> bool" where
  "filled invar pages i t C e m s0 ps s \<longleftrightarrow>
     vm_ok invar pages i s \<and> grows i t s0 s \<and> distinct ps \<and> set ps \<subseteq> {0..<512} - swap_used s0 \<and>
     swap_used s = swap_used s0 \<union> set ps \<and> pageTables s t = table_of ps @ replicate m e \<and>
     (\<forall>k<length ps. page_bytes i s (ps ! k) = C k) \<and>
     (\<forall>sq\<in>swap_used s0. page_bytes i s sq = page_bytes i s0 sq \<and> swap_bytes i s sq = swap_bytes i s0 sq)"

lemma filled_step:
  assumes f: "filled invar pages i t C e (Suc m) s0 ps s"
    and st: "page_step invar pages i t (length ps) (C (length ps)) s sp s'"
  shows "filled invar pages i t C e m s0 (ps @ [sp]) s'"
proof -
  have fs: "grows i t s0 s" "distinct ps" "set ps \<subseteq> {0..<512} - swap_used s0"
      "swap_used s = swap_used s0 \<union> set ps" "pageTables s t = table_of ps @ replicate (Suc m) e"
      "\<forall>k<length ps. page_bytes i s (ps ! k) = C k"
      "\<forall>sq\<in>swap_used s0. page_bytes i s sq = page_bytes i s0 sq \<and> swap_bytes i s sq = swap_bytes i s0 sq"
    using f by (simp_all add: filled_def)
  have s': "vm_ok invar pages i s'" "grows i t s s'" "sp \<in> {0..<512} - swap_used s" "swap_used s' = insert sp (swap_used s)"
      "page_bytes i s' sp = C (length ps)"
      "\<forall>sq\<in>swap_used s. page_bytes i s' sq = page_bytes i s sq \<and> swap_bytes i s' sq = swap_bytes i s sq"
      "pageTables s' t = (pageTables s t)[length ps := page_entry (int (length ps)) sp]"
    using st by (simp_all add: page_step_def)
  have "pageTables s' t = table_of (ps @ [sp]) @ replicate m e" using s'(7) fs(5) table_of_snoc [of ps m e sp] by simp
  moreover have "distinct (ps @ [sp])" "set (ps @ [sp]) \<subseteq> {0..<512} - swap_used s0"
    "swap_used s' = swap_used s0 \<union> set (ps @ [sp])"
    using fs(2-4) s'(3,4) by auto
  moreover have "\<forall>k<length (ps @ [sp]). page_bytes i s' ((ps @ [sp]) ! k) = C k"
    using fs(4,6) s'(5,6) by (auto simp: nth_append less_Suc_eq)
  moreover have "\<forall>sq\<in>swap_used s0. page_bytes i s' sq = page_bytes i s0 sq \<and> swap_bytes i s' sq = swap_bytes i s0 sq"
    using fs(4,7) s'(6) by auto
  ultimately show ?thesis unfolding filled_def using s'(1) grows_trans [OF fs(1) s'(2)] by blast
qed

lemma filled_room:
  assumes "filled invar pages i t C e m s0 ps s" "\<And>q. unreferenced (PageEntry t q) s0" "card (swap_used s0) + length ps < 512"
  shows "vm_ok invar pages i s" "swap_used s \<noteq> {0..<512}" "\<And>q. unreferenced (PageEntry t q) s"
proof -
  have fs: "vm_ok invar pages i s" "grows i t s0 s" "swap_used s = swap_used s0 \<union> set ps"
    using assms(1) by (simp_all add: filled_def)
  show "vm_ok invar pages i s" by (rule fs)
  show "unreferenced (PageEntry t q) s" for q using assms(2) growsD(10) [OF fs(2)] by simp
  have "card (swap_used s) \<le> card (swap_used s0) + length ps"
    unfolding fs(3) using card_Un_le [of "swap_used s0" "set ps"] card_length [of ps] by linarith
  with assms(3) show "swap_used s \<noteq> {0..<512}" by auto
qed

lemma fill_table:
  assumes ok: "vm_ok invar pages i s" and table: "pageTables s t = replicate n e"
    and body: "\<And>ps s' m. length ps < n \<Longrightarrow> filled invar pages i t C e (Suc m) s ps s' \<Longrightarrow>
      \<exists>sp s''. body (int (length ps)) s' = Inr s'' \<and> page_step invar pages i t (length ps) (C (length ps)) s' sp s''"
  obtains ps s' where "for_each [0..int n - 1] body s = Inr s'" "length ps = n" "filled invar pages i t C e 0 s ps s'"
proof -
  let ?I = "\<lambda>k s'. \<exists>ps. int (length ps) = k \<and> filled invar pages i t C e (n - length ps) s ps s'"
  have "\<exists>s'. for_each [0..int n - 1] body s = Inr s' \<and> ?I (int n) s'"
  proof (rule for_loop_invariant)
    show "?I 0 s" using ok table by (intro exI [of _ "[]"]) (simp add: filled_def)
    show "\<exists>s''. body k s' = Inr s'' \<and> ?I (k + 1) s''" if k: "0 \<le> k" "k < int n" "?I k s'" for k s'
    proof -
      obtain ps where ps: "int (length ps) = k" "filled invar pages i t C e (n - length ps) s ps s'" using k(3) by blast
      have "n - length ps = Suc (n - Suc (length ps))" "length ps < n" using ps(1) k(2) by simp_all
      with ps(2) have f: "filled invar pages i t C e (Suc (n - Suc (length ps))) s ps s'" by simp
      obtain sp s'' where s'': "body (int (length ps)) s' = Inr s''" "page_step invar pages i t (length ps) (C (length ps)) s' sp s''"
        using body [OF \<open>length ps < n\<close> f] by blast
      from filled_step [OF f s''(2)] s''(1) ps(1) show ?thesis
        by (intro exI [of _ s''] conjI exI [of _ "ps @ [sp]"]) auto
    qed
  qed simp
  then obtain s' ps where *: "for_each [0..int n - 1] body s = Inr s'" "int (length ps) = int n"
      "filled invar pages i t C e (n - length ps) s ps s'" by blast
  then show thesis using that [of s' ps] by simp
qed

subsection \<open>Loading a program\<close>

text \<open>A segment that lies inside its file \<open>c\<close> and inside an address space of \<open>n\<close> pages, and what loading it does.\<close>

definition seg_fits :: "8 word list \<Rightarrow> nat \<Rightarrow> Segment \<Rightarrow> bool" where
  "seg_fits c n g \<longleftrightarrow> sint (seg_size g) \<le> 0 \<or>
     0 \<le> sint (virtualAddr g) \<and> sint (virtualAddr g) + sint (seg_size g) \<le> 128 * int n \<and>
     0 \<le> sint (inFileAddr g) \<and> sint (inFileAddr g) + sint (seg_size g) \<le> int (length c)"

definition seg_put :: "8 word list \<Rightarrow> Segment \<Rightarrow> 8 word list \<Rightarrow> 8 word list" where
  "seg_put c g img =
     (if sint (seg_size g) > 0
      then put_bytes (nat (sint (virtualAddr g))) (take (nat (sint (seg_size g))) (drop (nat (sint (inFileAddr g))) c)) img
      else img)"

lemma load_segment_ok:
  assumes ok: "vm_ok invar pages i s" "unloaded t s" and f: "stub_ok f j (host (kern s))" "j \<noteq> i"
    and c: "c = inodes (host (kern s)) j" and fit: "seg_fits c (length (pageTables s t)) g"
  shows "\<exists>s'. load_segment t f g s = Some (Inr s') \<and> vm_ok invar pages i s' \<and> file_only i s s' \<and>
    space_bytes i t s' = seg_put c g (space_bytes i t s) \<and>
    (\<forall>sq\<in>swap_used s - set (table_pages t s). page_bytes i s' sq = page_bytes i s sq)"
proof (cases "sint (seg_size g) > 0")
  case False
  with ok(1) show ?thesis by (simp add: load_segment_def seg_put_def)
next
  case True
  with fit have g: "0 \<le> sint (virtualAddr g)" "0 \<le> sint (inFileAddr g)"
    "nat (sint (virtualAddr g)) + nat (sint (seg_size g)) \<le> 128 * length (pageTables s t)"
    "nat (sint (inFileAddr g)) + nat (sint (seg_size g)) \<le> length c"
    by (auto simp: seg_fits_def)
  have "\<exists>s'. ReadFile_loop t f PageSize (sint (virtualAddr g)) (sint (seg_size g)) (sint (inFileAddr g)) s = Some (Inr s') \<and>
      vm_ok invar pages i s' \<and> file_only i s s' \<and>
      space_bytes i t s' = put_bytes (nat (sint (virtualAddr g)))
        (take (nat (sint (seg_size g))) (drop (nat (sint (inFileAddr g))) c)) (space_bytes i t s) \<and>
      (\<forall>sq\<in>swap_used s - set (table_pages t s). page_bytes i s' sq = page_bytes i s sq)"
    by (rule ReadFile_loop_ok [OF ok f c g(1) _ g(3) _ _ g(2,4)]) (use True in simp_all)
  with True show ?thesis by (simp add: load_segment_def ReadFile_def seg_put_def)
qed

lemma load_segments_ok:
  assumes ok: "vm_ok invar pages i s" "unloaded t s" and f: "stub_ok f j (host (kern s))" "j \<noteq> i"
    and c: "c = inodes (host (kern s)) j" and fit: "seg_fits c (length (pageTables s t)) g" "seg_fits c (length (pageTables s t)) g'"
  obtains s1 s' where "load_segment t f g s = Some (Inr s1)" "load_segment t f g' s1 = Some (Inr s')" "vm_ok invar pages i s'"
    "file_only i s s'" "space_bytes i t s' = seg_put c g' (seg_put c g (space_bytes i t s))"
    "\<And>sq. sq \<in> swap_used s - set (table_pages t s) \<Longrightarrow> page_bytes i s' sq = page_bytes i s sq"
proof -
  from load_segment_ok [OF ok f c fit(1)] obtain s1 where s1: "load_segment t f g s = Some (Inr s1)" "vm_ok invar pages i s1"
      "file_only i s s1" "space_bytes i t s1 = seg_put c g (space_bytes i t s)"
      "\<forall>sq\<in>swap_used s - set (table_pages t s). page_bytes i s1 sq = page_bytes i s sq" by (elim exE conjE)
  note k = file_onlyD [OF s1(3)]
  have "\<exists>s'. load_segment t f g' s1 = Some (Inr s') \<and> vm_ok invar pages i s' \<and> file_only i s1 s' \<and>
      space_bytes i t s' = seg_put c g' (space_bytes i t s1) \<and>
      (\<forall>sq\<in>swap_used s1 - set (table_pages t s1). page_bytes i s' sq = page_bytes i s1 sq)"
    by (rule load_segment_ok [OF s1(2) unloaded_file_only [OF ok(2) s1(3)], of f j]) (use f c fit(2) k in simp_all)
  then obtain s' where s': "load_segment t f g' s1 = Some (Inr s')" "vm_ok invar pages i s'"
      "file_only i s1 s'" "space_bytes i t s' = seg_put c g' (space_bytes i t s1)"
      "\<forall>sq\<in>swap_used s1 - set (table_pages t s1). page_bytes i s' sq = page_bytes i s1 sq" by (elim exE conjE)
  have "page_bytes i s' sq = page_bytes i s sq" if "sq \<in> swap_used s - set (table_pages t s)" for sq
    using that s1(5) s'(5) by (simp add: k(2,13))
  with s1 s' show thesis by (intro that [of s1 s'] file_only_trans [OF s1(3) s'(3)]) simp_all
qed

text \<open>The header a file has, and the memory image it describes.\<close>

definition file_header :: "8 word list \<Rightarrow> NoffHeader" where
  "file_header c = fix_header HOST_IS_BIG_ENDIAN (host_header HOST_IS_BIG_ENDIAN (take 40 c))"

definition image :: "8 word list \<Rightarrow> 8 word list" where
  "image c =
     (let h = file_header c in
      seg_put c (initData h) (seg_put c (code h) (replicate (128 * nat (space_pages h)) 0)))"

definition noff_ok :: "8 word list \<Rightarrow> bool" where
  "noff_ok c \<longleftrightarrow>
     (let h = file_header c in
      40 \<le> length c \<and> noffMagic h = NOFFMAGIC \<and>
      seg_fits c (nat (space_pages h)) (code h) \<and> seg_fits c (nat (space_pages h)) (initData h))"

lemma space_pages_nonneg: "0 \<le> space_pages h"
  by (simp add: space_pages_def divRoundUp_nonneg)

lemma host_header_append: "length bs = 40 \<Longrightarrow> host_header be (bs @ x) = host_header be bs"
  by (simp add: host_header_def header_segment_def header_word_def)

lemma read_header_ok:
  assumes ok: "vm_ok invar pages i s" and f: "stub_ok f j (host (kern s))"
    and c: "c = inodes (host (kern s)) j" "40 \<le> length c" "noffMagic (file_header c) = NOFFMAGIC"
  obtains s' where "read_header raw f s = Inr (file_header c, s')" "vm_ok invar pages i s'" "file_only i s s'"
    "page_bytes i s' = page_bytes i s" "inodes (host (kern s')) = inodes (host (kern s))"
proof -
  obtain u where u: "stub_ReadAt f 40 0 (host (kern s)) = Inr (int (length (take (nat 40) (drop (nat 0) c))), take (nat 40) (drop (nat 0) c), u)"
      "inodes u = inodes (host (kern s))" "\<And>g j. stub_ok g j u = stub_ok g j (host (kern s))"
    by (rule stub_ReadAt_ok [OF f, of 0 40, folded c(1)]) (simp, rule that)
  have "length (take 40 c) = 40" using c(2) by simp
  then have "host_header HOST_IS_BIG_ENDIAN (take 40 c @ drop 40 (raw_bytes raw)) = host_header HOST_IS_BIG_ENDIAN (take 40 c)"
    by (rule host_header_append)
  with u(1) c(2,3) have "read_header raw f s = Inr (file_header c, s\<lparr>kern := (kern s)\<lparr>host := u\<rparr>\<rparr>)"
    by (simp add: read_header_def file_header_def Let_def min_absorb2)
  moreover have "length (diskBuffer (kern s)) = 128" using ok by (simp add: vm_ok_def vm_base_def)
  note b = vm_ok_buffer [OF ok u(2,3) this]
  have "s\<lparr>kern := (kern s)\<lparr>host := u, diskBuffer := diskBuffer (kern s)\<rparr>\<rparr> = s\<lparr>kern := (kern s)\<lparr>host := u\<rparr>\<rparr>" by simp
  ultimately show thesis using that b u(2) by simp
qed

lemma filled_space:
  assumes f: "filled invar pages i t C e 0 s0 ps s" and ok: "vm_ok invar pages i s0"
  shows "unloaded t s" "space_bytes i t s = concat (map C [0..<length ps])" "pageTables s t = table_of ps"
proof -
  have fs: "grows i t s0 s" "distinct ps" "set ps \<subseteq> {0..<512} - swap_used s0" "swap_used s = swap_used s0 \<union> set ps"
      "\<forall>k<length ps. page_bytes i s (ps ! k) = C k"
    using f by (simp_all add: filled_def)
  show tb: "pageTables s t = table_of ps" using f by (simp add: filled_def)
  then have tp: "table_pages t s = ps" by (simp add: table_pages_def)
  have "sp \<notin> set (activePageMap (kern s0))" if "sp \<in> set ps" for sp
    using that fs(3) by (intro no_frame [OF ok]) auto
  then show "unloaded t s" using fs(2,4) growsD(2) [OF fs(1)] by (auto simp: unloaded_def tp)
  have "map (page_bytes i s) ps = map C [0..<length ps]" using fs(5) by (intro nth_equalityI) simp_all
  then show "space_bytes i t s = concat (map C [0..<length ps])" by (simp add: space_bytes_def tp)
qed

lemma concat_zeros: "concat (map (\<lambda>_. replicate 128 0) xs) = replicate (128 * length xs) (0 :: 8 word)"
  by (induction xs) (simp_all add: replicate_add [symmetric])

text \<open>A new table of entries that hold garbage, and no frame that refers to it.\<close>

lemma alloc_table_ok:
  assumes ok: "vm_ok invar pages i s" and fresh: "pageTables s (next_table (kern s)) = []"
  obtains s' where "alloc_table raw (int n) s = (next_table (kern s), s')" "vm_ok invar pages i s'"
    "swap_used s' = swap_used s" "page_bytes i s' = page_bytes i s" "swap_bytes i s' = swap_bytes i s"
    "\<And>m. unreferenced (PageEntry (next_table (kern s)) m) s'"
    "s' = s\<lparr>pageTables := (pageTables s)(next_table (kern s) := replicate n (raw_entry raw)),
      kern := (kern s)\<lparr>next_table := Suc (next_table (kern s))\<rparr>\<rparr>"
proof -
  let ?t = "next_table (kern s)"
  define s1 where "s1 = s\<lparr>pageTables := (pageTables s)(?t := replicate n (raw_entry raw))\<rparr>"
  define s2 where "s2 = s1\<lparr>kern := (kern s)\<lparr>next_table := Suc ?t\<rparr>\<rparr>"
  have un: "unreferenced (PageEntry ?t m) s" for m
    by (rule unreferenced_absent [OF ok]) (simp add: get_entry_def aget_def fresh)
  note 1 = table_unreferenced [OF ok un, where es = "replicate n (raw_entry raw)", folded s1_def]
  have "vm.truncate ((kern s)\<lparr>next_table := Suc ?t\<rparr>) = vm.truncate (kern s1)" by (simp add: vm.defs s1_def)
  note 2 = other_kernel_state [OF this, folded s2_def]
  have "vm_ok invar pages i s2" "swap_used s2 = swap_used s" "page_bytes i s2 = page_bytes i s"
    using 1 2 by (simp_all add: fun_eq_iff)
  moreover have "unreferenced (PageEntry ?t m) s2" for m using un [of m] by (simp add: unreferenced_def s2_def s1_def)
  moreover have "alloc_table raw (int n) s = (?t, s2)" by (simp add: alloc_table_def s2_def s1_def Let_def)
  moreover have "swap_bytes i s2 = swap_bytes i s" by (simp add: swap_bytes_def s2_def s1_def fun_eq_iff)
  ultimately show thesis by (intro that [of s2]) (simp_all add: s2_def s1_def)
qed

lemma new_pageTable_ok:
  assumes ok: "vm_ok invar pages i s" and fresh: "pageTables s (next_table (kern s)) = []"
    and room: "card (swap_used s) + n \<le> 512"
  obtains ps s2 s' where "new_pageTable raw (int n) s = Inr (next_table (kern s), s')" "length ps = n"
    "filled invar pages i (next_table (kern s)) (\<lambda>_. replicate 128 0) (raw_entry raw) 0 s2 ps s'"
    "vm_ok invar pages i s2" "swap_used s2 = swap_used s" "page_bytes i s2 = page_bytes i s"
    "s2 = s\<lparr>pageTables := (pageTables s)(next_table (kern s) := replicate n (raw_entry raw)),
      kern := (kern s)\<lparr>next_table := Suc (next_table (kern s))\<rparr>\<rparr>"
proof -
  let ?t = "next_table (kern s)" and ?z = "\<lambda>_ :: nat. replicate 128 0 :: 8 word list"
  obtain s2 where s2: "alloc_table raw (int n) s = (?t, s2)" "vm_ok invar pages i s2"
    "swap_used s2 = swap_used s" "page_bytes i s2 = page_bytes i s" "\<And>m. unreferenced (PageEntry ?t m) s2"
    "s2 = s\<lparr>pageTables := (pageTables s)(?t := replicate n (raw_entry raw)), kern := (kern s)\<lparr>next_table := Suc ?t\<rparr>\<rparr>"
    by (rule alloc_table_ok [OF ok fresh]) (rule that)
  have tb: "pageTables s2 ?t = replicate n (raw_entry raw)" by (simp add: s2(6))
  obtain ps s' where "for_each [0..int n - 1] (new_page ?t) s2 = Inr s'" "length ps = n"
      "filled invar pages i ?t ?z (raw_entry raw) 0 s2 ps s'"
  proof (rule fill_table [OF s2(2) tb, of ?z "new_page ?t"])
    fix ps s' m assume ps: "length ps < n" and f: "filled invar pages i ?t ?z (raw_entry raw) (Suc m) s2 ps s'"
    have "card (swap_used s2) + length ps < 512" using room s2(3) ps by simp
    note r = filled_room [OF f s2(5) this]
    have "length ps < length (pageTables s' ?t)" using f by (simp add: filled_def)
    from new_page_ok [OF r(1,2) this r(3)] show "\<exists>sp s''. new_page ?t (int (length ps)) s' = Inr s'' \<and>
        page_step invar pages i ?t (length ps) (replicate 128 0) s' sp s''"
      by (metis (no_types, lifting) case_prod_conv nat_int new_page_def rbind_Inr)
  qed
  with s2 show thesis by (intro that [of s' ps s2]) (simp_all add: new_pageTable_def)
qed

lemma free_count: "vm_ok invar pages i s \<Longrightarrow> vm_getFreePageCount s = Inr (512 - int (card (swap_used s)))"
  using NumClear_ok [of "swapMap (kern s)"]
  by (simp add: vm_getFreePageCount_def sw_getFreePageCount_def vm_ok_def vm_base_def swap_used_def)

lemma load_program_ok:
  assumes ok: "vm_ok invar pages i s" and fresh: "pageTables s (next_table (kern s)) = []"
    and f: "stub_ok f j (host (kern s))" "j \<noteq> i" and c: "c = inodes (host (kern s)) j" "noff_ok c"
    and room: "int (card (swap_used s)) + space_pages (file_header c) \<le> 512"
  obtains ps s' where "load_program raw f s = Some (Inr ((space_pages (file_header c), next_table (kern s)), s'))"
    "vm_ok invar pages i s'" "int (length ps) = space_pages (file_header c)" "distinct ps"
    "set ps \<subseteq> {0..<512} - swap_used s" "swap_used s' = swap_used s \<union> set ps"
    "pageTables s' = (pageTables s)(next_table (kern s) := table_of ps)"
    "space_bytes i (next_table (kern s)) s' = image c"
    "\<And>sq. sq \<in> swap_used s \<Longrightarrow> page_bytes i s' sq = page_bytes i s sq"
    "vm.more (kern s') = vm.more ((kern s)\<lparr>next_table := Suc (next_table (kern s))\<rparr>)" "tlb s' = tlb s"
    "\<And>g j. stub_ok g j (host (kern s')) = stub_ok g j (host (kern s))"
    "\<And>l. l \<noteq> i \<Longrightarrow> inodes (host (kern s')) l = inodes (host (kern s)) l"
    "s' = s\<lparr>pageTables := pageTables s', kern := kern s'\<rparr>" "activePageMap (kern s') = activePageMap (kern s)"
proof -
  let ?t = "next_table (kern s)" and ?h = "file_header c"
  have n: "40 \<le> length c" "noffMagic ?h = NOFFMAGIC" "seg_fits c (nat (space_pages ?h)) (code ?h)"
      "seg_fits c (nat (space_pages ?h)) (initData ?h)"
    using c(2) by (simp_all add: noff_ok_def Let_def)
  obtain s1 where s1: "read_header raw f s = Inr (?h, s1)" "vm_ok invar pages i s1" "file_only i s s1"
      "page_bytes i s1 = page_bytes i s" "inodes (host (kern s1)) = inodes (host (kern s))"
    by (rule read_header_ok [OF ok f(1) c(1) n(1,2)]) (rule that)
  note k1 = file_onlyD [OF s1(3)]
  have t1: "next_table (kern s1) = ?t" by (rule more_fields [OF k1(5)])
  define m where "m = nat (space_pages ?h)"
  have m: "space_pages ?h = int m" using space_pages_nonneg by (simp add: m_def)
  have "pageTables s1 (next_table (kern s1)) = []" "card (swap_used s1) + m \<le> 512" using fresh room k1(1,2) t1 m by simp_all
  from new_pageTable_ok [OF s1(2) this, of raw, unfolded t1] obtain ps s2 s3 where
    s3: "new_pageTable raw (int m) s1 = Inr (?t, s3)" "length ps = m"
      "filled invar pages i ?t (\<lambda>_. replicate 128 0) (raw_entry raw) 0 s2 ps s3"
      "vm_ok invar pages i s2" "swap_used s2 = swap_used s1" "page_bytes i s2 = page_bytes i s1" and
    s2: "s2 = s1\<lparr>pageTables := (pageTables s1)(?t := replicate m (raw_entry raw)), kern := (kern s1)\<lparr>next_table := Suc ?t\<rparr>\<rparr>" .
  note fl = s3(3) and fs = filled_space [OF s3(3,4), unfolded concat_zeros, simplified]
  have f3: "vm_ok invar pages i s3" "grows i ?t s2 s3" "distinct ps" "set ps \<subseteq> {0..<512} - swap_used s"
      "swap_used s3 = swap_used s \<union> set ps" "\<And>sq. sq \<in> swap_used s \<Longrightarrow> page_bytes i s3 sq = page_bytes i s sq"
    using fl s3(5,6) k1(2) s1(4) by (simp_all add: filled_def)
  have file3: "stub_ok g l (host (kern s3)) = stub_ok g l (host (kern s))" "c = inodes (host (kern s3)) j" for g l
    using growsD(5) [OF f3(2), of g l] growsD(6) [OF f3(2) f(2)] k1(6) s1(5) c(1) by (simp_all add: s2)
  have fit: "seg_fits c (length (pageTables s3 ?t)) (code ?h)" "seg_fits c (length (pageTables s3 ?t)) (initData ?h)"
    using n(3,4) fs(3) s3(2) m by simp_all
  have stub3: "stub_ok f j (host (kern s3))" using f(1) file3 by simp
  obtain s4 s5 where s5: "load_segment ?t f (code ?h) s3 = Some (Inr s4)" "load_segment ?t f (initData ?h) s4 = Some (Inr s5)"
      "vm_ok invar pages i s5" "file_only i s3 s5"
      "space_bytes i ?t s5 = seg_put c (initData ?h) (seg_put c (code ?h) (space_bytes i ?t s3))"
      "\<And>sq. sq \<in> swap_used s3 - set (table_pages ?t s3) \<Longrightarrow> page_bytes i s5 sq = page_bytes i s3 sq"
    by (rule load_segments_ok [OF f3(1) fs(1) stub3 f(2) file3(2) fit]) (rule that)
  note k5 = file_onlyD [OF s5(4)]
  have "load_program raw f s = Some (Inr ((space_pages ?h, ?t), s5))"
    using s1(1) free_count [OF s1(2)] room k1(2) s3(1) s5(1,2) m by (simp add: load_program_def)
  moreover have "pageTables s5 = (pageTables s)(?t := table_of ps)"
    using k5(1) fs(3) growsD(1) [OF f3(2)] k1(1) by (auto simp: fun_eq_iff s2)
  moreover have "space_bytes i ?t s5 = image c" using s5(5) fs(2) s3(2) m by (simp add: image_def Let_def)
  moreover have "page_bytes i s5 sq = page_bytes i s sq" if "sq \<in> swap_used s" for sq
    using s5(6) [of sq] f3(4-6) that fs(3) by (auto simp: table_pages_def)
  moreover have "vm.more (kern s5) = vm.more ((kern s)\<lparr>next_table := Suc ?t\<rparr>)"
  proof -
    have "vm.more (kern s5) = vm.more (kern s2)" using k5(5) growsD(4) [OF f3(2)] by simp
    also have "\<dots> = vm.more ((kern s1)\<lparr>next_table := Suc ?t\<rparr>)" by (simp add: s2)
    also have "\<dots> = vm.more ((kern s)\<lparr>next_table := Suc ?t\<rparr>)" using k1(5) by (cases "kern s"; cases "kern s1") simp
    finally show ?thesis .
  qed
  moreover have "tlb s5 = tlb s" using k5(11) growsD(9) [OF f3(2)] k1(11) by (simp add: s2)
  moreover have "swap_used s5 = swap_used s \<union> set ps" using k5(2) f3(5) by simp
  moreover have "stub_ok g l (host (kern s5)) = stub_ok g l (host (kern s))" for g l using k5(6) file3(1) by simp
  moreover have "inodes (host (kern s5)) l = inodes (host (kern s)) l" if "l \<noteq> i" for l
    using k5(7) [OF that] growsD(6) [OF f3(2) that] s1(5) by (simp add: s2)
  moreover have "s5 = s\<lparr>pageTables := pageTables s5, kern := kern s5\<rparr>"
    using s1(3) s2 f3(2) s5(4) unfolding file_only_def grows_def by (elim exE conjE) simp
  moreover have "activePageMap (kern s5) = activePageMap (kern s)" using k5(3) growsD(2) [OF f3(2)] k1(3) by (simp add: s2)
  ultimately show thesis using s5(3) s3(2) m f3(3,4) by (intro that [of s5 ps]) simp_all
qed

subsection \<open>A new process\<close>

text \<open>\<open>pages_live\<close>: every entry of a table stands for a page that is in use. \<open>tables_new\<close>: table numbers from the next one on are free.\<close>

definition pages_live :: "('p, 'x) vm_scheme hw \<Rightarrow> bool" where
  "pages_live s \<longleftrightarrow> (\<forall>q e. get_entry q s = Inr e \<longrightarrow> physicalPage e \<in> swap_used s)"

definition tables_new :: "'p os \<Rightarrow> bool" where
  "tables_new s \<longleftrightarrow> (\<forall>t \<ge> next_table (kern s). pageTables s t = [])"

definition os_ok :: "('p \<Rightarrow> bool) \<Rightarrow> ('p \<Rightarrow> int set) \<Rightarrow> nat \<Rightarrow> 'p os \<Rightarrow> bool" where
  "os_ok invar pages i s \<longleftrightarrow> vm_ok invar pages i s \<and> private_pages s \<and> pages_live s \<and> tables_new s"

lemma new_table_entries:
  assumes s': "pageTables s' = (pageTables s)(t := table_of ps)" "tlb s' = tlb s"
  shows "get_entry q s' = (case q of
      PageEntry t' k \<Rightarrow> if t' = t then if k < length ps then Inr (page_entry (int k) (ps ! k)) else Inl OutOfBounds
                        else get_entry q s
    | TlbEntry k \<Rightarrow> get_entry q s)"
  by (auto simp: get_entry_def s' aget_def split: entry_ptr.split)

lemma new_table_private:
  assumes priv: "private_pages s" "pages_live s" and s': "pageTables s' = (pageTables s)(t := table_of ps)" "tlb s' = tlb s"
    and ps: "distinct ps" "set ps \<inter> swap_used s = {}" "swap_used s' = swap_used s \<union> set ps"
  shows "private_pages s'" "pages_live s'"
proof -
  have cases: "(\<exists>k<length ps. q = PageEntry t k \<and> physicalPage e = ps ! k) \<or>
      get_entry q s = Inr e \<and> physicalPage e \<in> swap_used s" if "get_entry q s' = Inr e" for q e
    using that priv(2) unfolding new_table_entries [OF s'] pages_live_def
    by (auto simp: page_entry_def split: entry_ptr.splits if_splits)
  then show "pages_live s'" unfolding pages_live_def ps(3) by (metis UnCI nth_mem)
  show "private_pages s'"
    unfolding private_pages_def
  proof (intro allI impI)
    fix q q' e e'
    assume a: "get_entry q s' = Inr e" "get_entry q' s' = Inr e'" "physicalPage e = physicalPage e'"
    from cases [OF a(1)] cases [OF a(2)] show "q = q'"
    proof (elim disjE exE conjE)
      fix k k' assume "k < length ps" "q = PageEntry t k" "physicalPage e = ps ! k"
        "k' < length ps" "q' = PageEntry t k'" "physicalPage e' = ps ! k'"
      then show "q = q'" using a(3) ps(1) by (simp add: nth_eq_iff_index_eq)
    next
      fix k assume "k < length ps" "physicalPage e = ps ! k" "physicalPage e' \<in> swap_used s"
      then show "q = q'" using a(3) ps(2) by (metis disjoint_iff nth_mem)
    next
      fix k assume "k < length ps" "physicalPage e' = ps ! k" "physicalPage e \<in> swap_used s"
      then show "q = q'" using a(3) ps(2) by (metis disjoint_iff nth_mem)
    next
      assume "get_entry q s = Inr e" "get_entry q' s = Inr e'" "physicalPage e \<in> swap_used s"
      then show "q = q'" by (intro private_pagesD [OF priv(1) _ _ a(3)])
    qed
  qed
qed

lemma os_ok_other:
  assumes "vm.truncate k' = vm.truncate (kern s)" "next_table k' = next_table (kern s)"
  shows "os_ok invar pages i (s\<lparr>kern := k'\<rparr>) = os_ok invar pages i s"
  using other_kernel_state [OF assms(1)] assms(2)
  by (simp add: os_ok_def private_pages_def pages_live_def tables_new_def)

lemma load_program_os:
  assumes ok: "os_ok invar pages i s" and f: "stub_ok f j (host (kern s))" "j \<noteq> i"
    and c: "c = inodes (host (kern s)) j" "noff_ok c" and room: "int (card (swap_used s)) + space_pages (file_header c) \<le> 512"
  obtains s' where "load_program raw f s = Some (Inr ((space_pages (file_header c), next_table (kern s)), s'))"
    "os_ok invar pages i s'" "int (length (pageTables s' (next_table (kern s)))) = space_pages (file_header c)"
    "space_bytes i (next_table (kern s)) s' = image c" "\<forall>sq\<in>swap_used s. page_bytes i s' sq = page_bytes i s sq"
    "\<forall>t < next_table (kern s). pageTables s' t = pageTables s t"
    "vm.more (kern s') = vm.more ((kern s)\<lparr>next_table := Suc (next_table (kern s))\<rparr>)"
    "swap_used s' = swap_used s \<union> set (table_pages (next_table (kern s)) s')"
    "\<And>g j. stub_ok g j (host (kern s')) = stub_ok g j (host (kern s))"
    "\<And>l. l \<noteq> i \<Longrightarrow> inodes (host (kern s')) l = inodes (host (kern s)) l"
    "s' = s\<lparr>pageTables := pageTables s', kern := kern s'\<rparr>" "activePageMap (kern s') = activePageMap (kern s)"
    "pageTables s' (next_table (kern s)) = table_of (table_pages (next_table (kern s)) s')"
proof -
  let ?t = "next_table (kern s)"
  have v: "vm_ok invar pages i s" "private_pages s" "pages_live s" "tables_new s" "pageTables s ?t = []"
    using ok by (simp_all add: os_ok_def tables_new_def)
  obtain ps s' where s': "load_program raw f s = Some (Inr ((space_pages (file_header c), ?t), s'))"
      "vm_ok invar pages i s'" "int (length ps) = space_pages (file_header c)" "distinct ps"
      "set ps \<subseteq> {0..<512} - swap_used s" "swap_used s' = swap_used s \<union> set ps"
      "pageTables s' = (pageTables s)(?t := table_of ps)" "space_bytes i ?t s' = image c"
      "\<And>sq. sq \<in> swap_used s \<Longrightarrow> page_bytes i s' sq = page_bytes i s sq"
      "vm.more (kern s') = vm.more ((kern s)\<lparr>next_table := Suc ?t\<rparr>)" "tlb s' = tlb s"
      "\<And>g j. stub_ok g j (host (kern s')) = stub_ok g j (host (kern s))"
      "\<And>l. l \<noteq> i \<Longrightarrow> inodes (host (kern s')) l = inodes (host (kern s)) l"
      "s' = s\<lparr>pageTables := pageTables s', kern := kern s'\<rparr>" "activePageMap (kern s') = activePageMap (kern s)"
    by (rule load_program_ok [OF v(1,5) f c room]) (rule that)
  have "set ps \<inter> swap_used s = {}" using s'(5) by blast
  note pv = new_table_private [OF v(2,3) s'(7,11,4) this s'(6)]
  have "tables_new s'" using v(4) s'(7) more_fields(4) [OF s'(10)] by (simp add: tables_new_def)
  then have "os_ok invar pages i s'" using s'(2) pv by (simp add: os_ok_def)
  moreover have "table_pages ?t s' = ps" using s'(7) by (simp add: table_pages_def)
  ultimately show thesis by (intro that [OF s'(1)]; use s'(3,6-10,12-15) in \<open>simp add: table_pages_def\<close>)
qed

definition can_spawn :: "procs \<Rightarrow> bool" where
  "can_spawn p \<longleftrightarrow>
     bm_wf (pid_map (pm p)) \<and> numBits (pid_map (pm p)) = 10 \<and> length (conditionTable (pm p)) = 10 \<and>
     length (lockTable (pm p)) = 10 \<and> length (pcbTable (pm p)) = 10 \<and> length (returnStatus (pm p)) = 10 \<and>
     available (bitLock (pm p)) (ks p) \<and>
     marked (pid_map (pm p)) \<noteq> {0..<10}"

lemma spawn_ok:
  assumes "can_spawn p"
  obtains pid p1 b p2 fb where "getPID own p = Inr (Returns pid, p1)" "currentThread (ks p1) = currentThread (ks p)"
    "new_process raw pid parent th p1 = Inr (b, p2)" "pid \<in> {0..<10} - marked (pid_map (pm p))"
    "pcbs p2 = (pcbs p)(b \<mapsto> \<lparr>PID = pid, parentPID = parent, pcb_thread = th,
         openFileTable = replicate 20 Uninit, openFileMap = fb\<rparr>)" "marked fb = {}"
    "marked (pid_map (pm p2)) = insert pid (marked (pid_map (pm p)))" "pcbTable (pm p2) = (pcbTable (pm p))[nat pid := Ptr b]"
    "pid_tables pid (next_cond p) (next_lock p) p2" "locks (ks p2) (next_lock p) = new_Lock own" "conds (ks p2) (next_cond p) = []"
    "lock_queue (locks (ks p) (bitLock (pm p))) = [] \<Longrightarrow> locks_only (ks p) (ks p2)" "b = next_pcb p"
proof -
  have a: "bm_wf (pid_map (pm p))" "numBits (pid_map (pm p)) = 10" "length (conditionTable (pm p)) = 10"
      "length (lockTable (pm p)) = 10" "length (pcbTable (pm p)) = 10" "available (bitLock (pm p)) (ks p)"
      "marked (pid_map (pm p)) \<noteq> {0..<10}" "length (returnStatus (pm p)) = 10"
    using assms by (simp_all add: can_spawn_def)
  obtain pid p1 where p1: "getPID own p = Inr (Returns pid, p1)" "pid \<in> {0..<10} - marked (pid_map (pm p))"
      "marked (pid_map (pm p1)) = insert pid (marked (pid_map (pm p)))" "pcbTable (pm p1) = pcbTable (pm p)"
      "pcbs p1 = pcbs p" "next_pcb p1 = next_pcb p" "currentThread (ks p1) = currentThread (ks p)"
      "bm_wf (pid_map (pm p1))" "numBits (pid_map (pm p1)) = 10" "returnStatus (pm p1) = returnStatus (pm p)"
      "conditionTable (pm p1) = (conditionTable (pm p))[nat pid := Ptr (next_cond p)]"
      "lockTable (pm p1) = (lockTable (pm p))[nat pid := Ptr (next_lock p)]"
      "conds (ks p1) (next_cond p) = []" "locks (ks p1) (next_lock p) = new_Lock own"
      "lock_queue (locks (ks p) (bitLock (pm p))) = [] \<Longrightarrow> locks_only (ks p) (ks p1)"
    by (rule getPID_ok [OF a(1-4,6,7)]) (rule that)
  obtain fb where fb: "BitMap (raw_words raw) 20 = Inr fb" "marked fb = {}" using BitMap_ok [of 20 "raw_words raw"] by auto
  let ?b = "next_pcb p"
  let ?pcb = "\<lparr>PID = pid, parentPID = parent, pcb_thread = th, openFileTable = replicate 20 Uninit, openFileMap = fb\<rparr>"
  define p2 where "p2 = p1\<lparr>pcbs := (pcbs p)(?b \<mapsto> ?pcb), next_pcb := Suc ?b,
      pm := (pm p1)\<lparr>pcbTable := (pcbTable (pm p))[nat pid := Ptr ?b]\<rparr>\<rparr>"
  have "new_process raw pid parent th p1 = Inr (?b, p2)"
    using fb(1) p1 a(5) by (simp add: new_process_def new_PCB_def storePCB_def deref_def MAX_OPEN_FILES_def p2_def)
  moreover have "nat pid < 10" using p1(2) by auto
  with p1 a have "pid_tables pid (next_cond p) (next_lock p) p2" by (simp add: pid_tables_def p2_def)
  ultimately show thesis using p1 fb(2) by (intro that [of pid p1 ?b p2 fb]) (simp_all add: p2_def)
qed

lemma new_AddrSpace_ok:
  assumes "os_ok invar pages i s" and "stub_ok f j (host (kern s))" "j \<noteq> i" and "noff_ok (inodes (host (kern s)) j)"
    and "int (card (swap_used s)) + space_pages (file_header (inodes (host (kern s)) j)) \<le> 512" and "can_spawn (pr (kern s))"
  shows "\<exists>a b t pid fb s'. new_AddrSpace raw f s = Some (Inr (Returns a, s')) \<and>
    spaces (kern s') a = Some \<lparr>as_pcb = Ptr b, numPages = int (length (pageTables s' t)), as_pageTable = Ptr t\<rparr> \<and>
    space_bytes i t s' = image (inodes (host (kern s)) j) \<and> os_ok invar pages i s' \<and>
    (\<forall>sq\<in>swap_used s. page_bytes i s' sq = page_bytes i s sq) \<and> (\<forall>t' < next_table (kern s). pageTables s' t' = pageTables s t') \<and>
    pid \<in> {0..<10} - marked (pid_map (pm (pr (kern s)))) \<and> pcbTable (pm (pr (kern s'))) = (pcbTable (pm (pr (kern s))))[nat pid := Ptr b] \<and>
    pcbs (pr (kern s')) b = Some \<lparr>PID = pid, parentPID = -1, pcb_thread = thread s,
      openFileTable = replicate 20 Uninit, openFileMap = fb\<rparr> \<and> marked fb = {} \<and>
    swap_used s' = swap_used s \<union> set (table_pages t s') \<and> t < next_table (kern s') \<and>
    pid_tables pid (next_cond (pr (kern s))) (next_lock (pr (kern s))) (pr (kern s')) \<and>
    locks (ks (pr (kern s'))) (next_lock (pr (kern s))) = new_Lock (raw_owner raw) \<and>
    conds (ks (pr (kern s'))) (next_cond (pr (kern s))) = [] \<and>
    spaces (kern s') = (spaces (kern s))(a := spaces (kern s') a) \<and> pcbs (pr (kern s')) = (pcbs (pr (kern s)))(b := pcbs (pr (kern s')) b) \<and>
    space_of (kern s') = space_of (kern s) \<and> userRegisters (kern s') = userRegisters (kern s) \<and>
    forked (kern s') = forked (kern s) \<and> (\<forall>g l. stub_ok g l (host (kern s')) = stub_ok g l (host (kern s))) \<and>
    (\<forall>l. l \<noteq> i \<longrightarrow> inodes (host (kern s')) l = inodes (host (kern s)) l) \<and>
    s' = s\<lparr>pageTables := pageTables s', kern := kern s'\<rparr> \<and> activePageMap (kern s') = activePageMap (kern s) \<and>
    pageTables s' t = table_of (table_pages t s') \<and> a = next_space (kern s) \<and> b = next_pcb (pr (kern s)) \<and>
    (lock_queue (locks (ks (pr (kern s))) (bitLock (pm (pr (kern s))))) = [] \<longrightarrow> locks_only (ks (pr (kern s))) (ks (pr (kern s'))))"
proof -
  let ?c = "inodes (host (kern s)) j" and ?t = "next_table (kern s)"
  obtain pid p1 b p2 fb where p: "getPID (raw_owner raw) (pr (kern s)) = Inr (Returns pid, p1)" "currentThread (ks p1) = thread s"
    "new_process raw pid (-1) (thread s) p1 = Inr (b, p2)" "pid \<in> {0..<10} - marked (pid_map (pm (pr (kern s))))"
    "pcbs p2 = (pcbs (pr (kern s)))(b \<mapsto> \<lparr>PID = pid, parentPID = -1, pcb_thread = thread s,
         openFileTable = replicate 20 Uninit, openFileMap = fb\<rparr>)" "marked fb = {}"
    "pcbTable (pm p2) = (pcbTable (pm (pr (kern s))))[nat pid := Ptr b]"
    "pid_tables pid (next_cond (pr (kern s))) (next_lock (pr (kern s))) p2"
    "locks (ks p2) (next_lock (pr (kern s))) = new_Lock (raw_owner raw)" "conds (ks p2) (next_cond (pr (kern s))) = []"
    "lock_queue (locks (ks (pr (kern s))) (bitLock (pm (pr (kern s))))) = [] \<Longrightarrow> locks_only (ks (pr (kern s))) (ks p2)" "b = next_pcb (pr (kern s))"
    by (rule spawn_ok [OF assms(6), of "raw_owner raw" raw "-1" "thread s"]) (rule that)
  define s1 where "s1 = set_pr p2 s"
  have "vm.truncate ((kern s)\<lparr>pr := p2\<rparr>) = vm.truncate (kern s)" by (simp add: vm.defs)
  note e1 = other_kernel_state [OF this, folded s1_def] os_ok_other [OF this, folded s1_def]
  have s1: "os_ok invar pages i s1" "stub_ok f j (host (kern s1))" "?c = inodes (host (kern s1)) j"
      "next_table (kern s1) = ?t" "int (card (swap_used s1)) + space_pages (file_header ?c) \<le> 512"
    using assms(1,2,5) e1(3,7) by (simp_all add: s1_def)
  obtain s2 where s2: "load_program raw f s1 = Some (Inr ((space_pages (file_header ?c), ?t), s2))"
    "os_ok invar pages i s2" "int (length (pageTables s2 ?t)) = space_pages (file_header ?c)"
    "space_bytes i ?t s2 = image ?c" "\<forall>sq\<in>swap_used s1. page_bytes i s2 sq = page_bytes i s1 sq"
    "\<forall>t<?t. pageTables s2 t = pageTables s1 t" "vm.more (kern s2) = vm.more ((kern s1)\<lparr>next_table := Suc ?t\<rparr>)"
    "swap_used s2 = swap_used s1 \<union> set (table_pages ?t s2)" "\<And>g j. stub_ok g j (host (kern s2)) = stub_ok g j (host (kern s1))"
    "\<And>l. l \<noteq> i \<Longrightarrow> inodes (host (kern s2)) l = inodes (host (kern s1)) l"
    "s2 = s1\<lparr>pageTables := pageTables s2, kern := kern s2\<rparr>" "activePageMap (kern s2) = activePageMap (kern s1)"
    "pageTables s2 ?t = table_of (table_pages ?t s2)"
    by (rule load_program_os [OF s1(1,2) assms(3) s1(3) assms(4) s1(5), unfolded s1(4)]) (rule that)
  define A where "A = \<lparr>as_pcb = Ptr b, numPages = space_pages (file_header ?c), as_pageTable = Ptr ?t\<rparr>"
  define a where "a = next_space (kern s2)"
  define s3 where "s3 = s2\<lparr>kern := (kern s2)\<lparr>spaces := (spaces (kern s2))(a \<mapsto> A), next_space := Suc a\<rparr>\<rparr>"
  have "vm.truncate ((kern s2)\<lparr>spaces := (spaces (kern s2))(a \<mapsto> A), next_space := Suc a\<rparr>) = vm.truncate (kern s2)"
    by (simp add: vm.defs)
  note e3 = other_kernel_state [OF this, folded s3_def] os_ok_other [OF this, folded s3_def]
  have "new_AddrSpace raw f s = Some (Inr (Returns a, s3))"
    using p(1-3) s2(1)
    by (simp add: new_AddrSpace_def in_procs_def s1_def [symmetric] put_space_def A_def [symmetric] a_def [symmetric] s3_def)
  moreover have "os_ok invar pages i s3" "space_bytes i ?t s3 = image ?c" using s2(2,4) e3(5,7) by simp_all
  moreover have "swap_used s3 = swap_used s \<union> set (table_pages ?t s3)" "?t < next_table (kern s3)"
    using s2(8) e1(3) e3(3,4) more_fields(4) [OF s2(7)] by (simp_all add: s3_def)
  moreover have "\<forall>sq\<in>swap_used s. page_bytes i s3 sq = page_bytes i s sq" using s2(5) e1(2,3) e3(2) by simp
  moreover have "pr (kern s3) = p2" "spaces (kern s3) a = Some A" "pageTables s3 = pageTables s2" "pageTables s1 = pageTables s"
    using more_fields(1) [OF s2(7)] by (simp_all add: s3_def s1_def)
  moreover have "spaces (kern s3) = (spaces (kern s))(a := spaces (kern s3) a)" "space_of (kern s3) = space_of (kern s)"
      "userRegisters (kern s3) = userRegisters (kern s)" "forked (kern s3) = forked (kern s)"
    using more_fields [OF s2(7)] by (simp_all add: s3_def s1_def)
  moreover have "\<forall>g l. stub_ok g l (host (kern s3)) = stub_ok g l (host (kern s))"
      "\<forall>l. l \<noteq> i \<longrightarrow> inodes (host (kern s3)) l = inodes (host (kern s)) l"
    using s2(9,10) by (simp_all add: s3_def s1_def)
  moreover have "s3 = s\<lparr>pageTables := pageTables s3, kern := kern s3\<rparr>"
    using s2(11) unfolding s3_def s1_def by (cases s; cases s2) simp
  moreover have "activePageMap (kern s3) = activePageMap (kern s)" "pageTables s3 ?t = table_of (table_pages ?t s3)"
      "a = next_space (kern s)"
    using s2(12,13) e3(4) more_fields(3) [OF s2(7)] by (simp_all add: s3_def s1_def a_def)
  ultimately show ?thesis
    using p(4-12) s2(3,6)
    by (intro exI [of _ a] exI [of _ b] exI [of _ ?t] exI [of _ pid] exI [of _ fb] exI [of _ s3]) (simp add: A_def)
qed


lemma table_entry: "k < length (pageTables s t) \<Longrightarrow> get_entry (PageEntry t k) s = Inr (pageTables s t ! k)"
  by (simp add: get_entry_def)

lemma table_empty: "pageTables s t = [] \<longleftrightarrow> (\<exists>f. get_entry (PageEntry t 0) s = Inl f)"
  by (auto simp: get_entry_def aget_def)

lemma same_map_absent:
  assumes "same_map s s'" "get_entry q s = Inl f" shows "get_entry q s' = Inl f"
proof -
  obtain u d where "get_entry q s' = map_sum id (\<lambda>e. e\<lparr>use := u, dirty := d\<rparr>) (get_entry q s)"
    using assms(1) unfolding same_map_def by blast
  with assms(2) show ?thesis by simp
qed

lemma table_private:
  assumes "private_pages s" "pages_live s"
  shows "distinct (table_pages t s)" "set (table_pages t s) \<subseteq> swap_used s"
    and "get_entry q s = Inr e \<Longrightarrow> physicalPage e \<in> set (table_pages t s) \<Longrightarrow> \<exists>k. q = PageEntry t k"
proof -
  have live: "physicalPage (pageTables s t ! k) \<in> swap_used s" if "k < length (pageTables s t)" for k
    using table_entry [OF that] assms(2) by (auto simp: pages_live_def)
  show "set (table_pages t s) \<subseteq> swap_used s" using live by (auto simp: table_pages_def in_set_conv_nth)
  show "distinct (table_pages t s)"
    unfolding distinct_conv_nth table_pages_def
  proof (intro allI impI notI)
    fix j k assume jk: "j < length (map physicalPage (pageTables s t))" "k < length (map physicalPage (pageTables s t))"
      "j \<noteq> k" "map physicalPage (pageTables s t) ! j = map physicalPage (pageTables s t) ! k"
    then have "PageEntry t j = PageEntry t k"
      by (intro private_pagesD [OF assms(1) table_entry table_entry]) (use live in simp_all)
    with jk(3) show False by simp
  qed
  show "\<exists>k. q = PageEntry t k" if q: "get_entry q s = Inr e" "physicalPage e \<in> set (table_pages t s)"
  proof -
    obtain k where "k < length (pageTables s t)" "physicalPage e = physicalPage (pageTables s t ! k)"
      using q(2) by (auto simp: table_pages_def in_set_conv_nth)
    then have "q = PageEntry t k" by (intro private_pagesD [OF assms(1) q(1) table_entry]) (use live in simp_all)
    then show ?thesis by blast
  qed
qed

subsection \<open>Copying an address space\<close>

text \<open>Copying one page of the swap file over another one that is in no frame.\<close>

lemma vm_copy_ok:
  assumes ok: "vm_ok invar pages i s" and src: "src \<in> swap_used s" and dst: "dst \<in> swap_used s" "dst \<notin> set (activePageMap (kern s))"
  obtains s' where "vm_copy src dst s = Inr s'" "vm_ok invar pages i s'" "file_only i s s'"
    "page_bytes i s' dst = swap_bytes i s src"
    "\<And>sq. sq \<in> swap_used s \<Longrightarrow> sq \<noteq> dst \<Longrightarrow> page_bytes i s' sq = page_bytes i s sq \<and> swap_bytes i s' sq = swap_bytes i s sq"
proof -
  have base: "vm_base i s" using ok by (simp add: vm_ok_def)
  have r: "0 \<le> src" "src < 512" using swap_used_range [OF base src] by auto
  obtain f where f: "swapFile (kern s) = Some f" "stub_ok f i (host (kern s))" using base by (auto simp: vm_base_def)
  let ?bs = "swap_bytes i s src"
  have lb: "length ?bs = 128" by (rule length_swap_bytes [OF base src])
  obtain u where u: "stub_ReadAt f 128 (src * 128) (host (kern s)) =
        Inr (int (length (take (nat 128) (drop (nat (src * 128)) (inodes (host (kern s)) i)))),
          take (nat 128) (drop (nat (src * 128)) (inodes (host (kern s)) i)), u)"
      "inodes u = inodes (host (kern s))" "\<And>g j. stub_ok g j u = stub_ok g j (host (kern s))"
    by (rule stub_ReadAt_ok [OF f(2), of "src * 128" 128]) (use r in simp, rule that)
  have pos: "nat (src * 128) = nat src * 128" by (simp add: nat_mult_distrib r)
  define s1 where "s1 = s\<lparr>kern := (kern s)\<lparr>host := u, diskBuffer := ?bs\<rparr>\<rparr>"
  note b = vm_ok_buffer [OF ok u(2,3) lb, folded s1_def]
  note k = file_onlyD [OF b(4)]
  have "length (diskBuffer (kern s)) = 128" using base by (simp add: vm_base_def)
  then have fill: "swap_ReadAt 128 (src * 128) s = Inr (?bs, s\<lparr>kern := (kern s)\<lparr>host := u\<rparr>\<rparr>)"
      "fill_buffer ?bs (s\<lparr>kern := (kern s)\<lparr>host := u\<rparr>\<rparr>) = Inr s1"
    using f(1) u(1) pos lb by (simp_all add: swap_ReadAt_def swap_bytes_def fill_buffer_def s1_def)
  have buf: "diskBuffer (kern s1) = ?bs" by (simp add: s1_def)
  have d1: "dst \<in> swap_used s1" "dst \<notin> set (activePageMap (kern s1))" using dst k(2,3) by simp_all
  obtain s2 where s2: "swap_WriteAt ?bs 128 (dst * 128 + 0) s1 = Inr s2" "vm_ok invar pages i s2" "file_only i s1 s2"
      "page_bytes i s2 dst = put_bytes (nat 0) (take (nat 128) ?bs) (page_bytes i s1 dst)"
      "\<And>sq. sq \<in> swap_used s1 \<Longrightarrow> sq \<noteq> dst \<Longrightarrow> page_bytes i s2 sq = page_bytes i s1 sq"
      "\<And>sq. sq \<in> swap_used s1 \<Longrightarrow> sq \<noteq> dst \<Longrightarrow> swap_bytes i s2 sq = swap_bytes i s1 sq"
    by (rule swap_write_part [OF b(1) d1, of 0 128 ?bs]) (simp, simp, simp, simp add: lb, rule that)
  have run: "vm_copy src dst s = Inr s2" using fill s2(1) buf by (simp add: vm_copy_def sw_copy_def)
  have new: "page_bytes i s2 dst = ?bs"
    using s2(4) lb length_page_bytes [OF ok dst(1)] b(2) by (simp add: put_bytes_def)
  show thesis
    by (rule that [OF run s2(2) file_only_trans [OF b(4) s2(3)] new]) (use s2(5,6) b(2,3) k(2) in simp)
qed

lemma copy_page_ok:
  assumes ok: "vm_ok invar pages i s" and free: "swap_used s \<noteq> {0..<512}" and k: "k < length (pageTables s t')" "t \<noteq> t'"
    and un: "\<And>m. unreferenced (PageEntry t' m) s"
    and src: "k < length (pageTables s t)" "physicalPage (pageTables s t ! k) \<in> swap_used s"
  shows "\<exists>sp s'. copy_page t t' (int k) s = Inr s' \<and>
    page_step invar pages i t' k (swap_bytes i s (physicalPage (pageTables s t ! k))) s sp s'"
proof -
  let ?src = "physicalPage (pageTables s t ! k)"
  obtain sp s1 s2 where s2: "vm_getPage s = Inr (sp, s1)" "set_entry (PageEntry t' k) (page_entry (int k) sp) s1 = Inr s2"
    "page_step invar pages i t' k (replicate 128 0) s sp s2"
    by (rule new_page_ok [OF ok free k(1) un]) (rule that)
  have st: "vm_ok invar pages i s2" "grows i t' s s2" "sp \<in> {0..<512} - swap_used s" "swap_used s2 = insert sp (swap_used s)"
      "\<forall>sq\<in>swap_used s. page_bytes i s2 sq = page_bytes i s sq \<and> swap_bytes i s2 sq = swap_bytes i s sq"
      "pageTables s2 t' = (pageTables s t')[k := page_entry (int k) sp]"
    using s2(3) by (simp_all add: page_step_def)
  note g = growsD [OF st(2)]
  have e: "get_entry (PageEntry t k) s2 = Inr (pageTables s t ! k)" using src(1) g(1) [OF k(2)] by (simp add: get_entry_def)
  have na: "sp \<notin> set (activePageMap (kern s2))" using no_frame [OF ok, of sp] st(3) g(2) by auto
  obtain s3 where s3: "vm_copy ?src sp s2 = Inr s3" "vm_ok invar pages i s3" "file_only i s2 s3"
    "page_bytes i s3 sp = swap_bytes i s2 ?src"
    "\<And>sq. sq \<in> swap_used s2 \<Longrightarrow> sq \<noteq> sp \<Longrightarrow> page_bytes i s3 sq = page_bytes i s2 sq \<and> swap_bytes i s3 sq = swap_bytes i s2 sq"
    by (rule vm_copy_ok [OF st(1) _ _ na, of ?src]) (simp add: st(4) src(2), simp add: st(4), rule that)
  note f = file_onlyD [OF s3(3)]
  have "grows i t' s2 s3"
  proof -
    obtain u b where "s3 = s2\<lparr>kern := (kern s2)\<lparr>host := u, diskBuffer := b\<rparr>\<rparr>" "\<And>g j. stub_ok g j u = stub_ok g j (host (kern s2))"
        "\<And>j. j \<noteq> i \<Longrightarrow> inodes u j = inodes (host (kern s2)) j"
      using s3(3) unfolding file_only_def by blast
    then show ?thesis
      unfolding grows_def
      by (intro exI [of _ u] exI [of _ b] exI [of _ "swapMap (kern s2)"] exI [of _ "pageTables s2 t'"]) simp
  qed
  then have "grows i t' s s3" by (rule grows_trans [OF st(2)])
  moreover have "\<forall>sq\<in>swap_used s. page_bytes i s3 sq = page_bytes i s sq \<and> swap_bytes i s3 sq = swap_bytes i s sq"
    using s3(5) st(3-5) by auto
  ultimately have "page_step invar pages i t' k (swap_bytes i s ?src) s sp s3"
    unfolding page_step_def using s3(2,4) st(3-6) src(2) f(1,2) by simp
  moreover have "copy_page t t' (int k) s = Inr s3" using s2(1,2) st(3) e s3(1) by (simp add: copy_page_def)
  ultimately show ?thesis by blast
qed

lemma copy_table_ok:
  assumes ok: "vm_ok invar pages i s" and un: "\<And>m. unreferenced (PageEntry t' m) s" and t: "t \<noteq> t'"
    and table: "pageTables s t' = replicate (length (pageTables s t)) e"
    and used: "set (table_pages t s) \<subseteq> swap_used s" and room: "card (swap_used s) + length (pageTables s t) \<le> 512"
  obtains ps s' where "for_each [0..int (length (pageTables s t)) - 1] (copy_page t t') s = Inr s'"
    "length ps = length (pageTables s t)" "filled invar pages i t' (\<lambda>k. swap_bytes i s (table_pages t s ! k)) e 0 s ps s'"
proof (rule fill_table [OF ok table, of "\<lambda>k. swap_bytes i s (table_pages t s ! k)" "copy_page t t'"])
  fix ps s' m
  assume ps: "length ps < length (pageTables s t)"
    and f: "filled invar pages i t' (\<lambda>k. swap_bytes i s (table_pages t s ! k)) e (Suc m) s ps s'"
  have "card (swap_used s) + length ps < 512" using room ps by simp
  note r = filled_room [OF f un this]
  have fs: "grows i t' s s'" "swap_used s' = swap_used s \<union> set ps" "length ps < length (pageTables s' t')"
      "\<forall>sq\<in>swap_used s. swap_bytes i s' sq = swap_bytes i s sq"
    using f by (simp_all add: filled_def)
  have tb: "pageTables s' t = pageTables s t" by (rule growsD(1) [OF fs(1) t])
  have src: "physicalPage (pageTables s t ! length ps) = table_pages t s ! length ps" "table_pages t s ! length ps \<in> swap_used s"
    using ps used nth_mem [of "length ps" "table_pages t s"] by (auto simp: table_pages_def)
  then have "physicalPage (pageTables s' t ! length ps) \<in> swap_used s'" using fs(2) tb by simp
  from copy_page_ok [OF r(1,2) fs(3) t r(3) _ this] ps tb src fs(4)
  show "\<exists>sp s''. copy_page t t' (int (length ps)) s' = Inr s'' \<and>
      page_step invar pages i t' (length ps) (swap_bytes i s (table_pages t s ! length ps)) s' sp s''" by simp
qed (rule that)

lemma concat_blocks_eq:
  assumes "\<forall>p\<in>set ps. length (f p) = 128 \<and> length (g p) = (128 :: nat)"
  shows "concat (map f ps) = concat (map g ps) \<longleftrightarrow> (\<forall>p\<in>set ps. f p = g p)"
proof -
  have "concat (map f ps) = concat (map g ps) \<longleftrightarrow> map f ps = map g ps"
    using assms by (intro concat_eq_concat_iff) (auto simp: set_zip)
  then show ?thesis by simp
qed

lemma CopyAddrSpace_run:
  assumes ok: "vm_ok invar pages i s" "pageTables s (next_table (kern s)) = []" "set (table_pages t s) \<subseteq> swap_used s"
    and a: "spaces (kern s) a = Some sp" "as_pageTable sp = Ptr t" "t < next_table (kern s)"
      "numPages sp = int (length (pageTables s t))" "spaces (kern s) d = Some dest"
    and room: "card (swap_used s) + length (pageTables s t) \<le> 512"
  obtains s2 ps s3 where "CopyAddrSpace raw a d s = Inr s3" "length ps = length (pageTables s t)" "vm_ok invar pages i s2"
    "filled invar pages i (next_table (kern s)) (\<lambda>k. swap_bytes i s (table_pages t s ! k)) (raw_entry raw) 0 s2 ps s3"
    "swap_used s2 = swap_used s" "page_bytes i s2 = page_bytes i s"
    "pageTables s2 = (pageTables s)(next_table (kern s) := replicate (length (pageTables s t)) (raw_entry raw))" "tlb s2 = tlb s"
    "next_table (kern s2) = Suc (next_table (kern s))"
    "spaces (kern s2) = (spaces (kern s))(d \<mapsto> dest\<lparr>as_pageTable := Ptr (next_table (kern s)), numPages := numPages sp\<rparr>)"
proof -
  let ?t = "next_table (kern s)" and ?n = "length (pageTables s t)"
  obtain s1 where s1: "alloc_table raw (int ?n) s = (?t, s1)" "vm_ok invar pages i s1" "swap_used s1 = swap_used s"
    "page_bytes i s1 = page_bytes i s" "swap_bytes i s1 = swap_bytes i s" "\<And>m. unreferenced (PageEntry ?t m) s1"
    "s1 = s\<lparr>pageTables := (pageTables s)(?t := replicate ?n (raw_entry raw)), kern := (kern s)\<lparr>next_table := Suc ?t\<rparr>\<rparr>"
    by (rule alloc_table_ok [OF ok(1,2)]) (rule that)
  let ?D = "dest\<lparr>as_pageTable := Ptr ?t, numPages := numPages sp\<rparr>"
  define k2 where "k2 = (kern s1)\<lparr>spaces := (spaces (kern s))(d \<mapsto> ?D)\<rparr>"
  define s2 where "s2 = s1\<lparr>kern := k2\<rparr>"
  have tr: "vm.truncate k2 = vm.truncate (kern s1)" by (simp add: k2_def vm.defs)
  note e2 = other_kernel_state [OF tr, folded s2_def] and f2 = truncate_fields [OF tr]
  have un2: "unreferenced (PageEntry ?t m) s2" for m using s1(6) [of m] f2(7,8) by (simp add: unreferenced_def s2_def)
  have tb2: "pageTables s2 = (pageTables s)(?t := replicate ?n (raw_entry raw))" "tlb s2 = tlb s" "table_pages t s2 = table_pages t s"
      "pageTables s2 t = pageTables s t"
    using s1(7) a(3) by (simp_all add: s2_def table_pages_def)
  have tt: "t \<noteq> ?t" "pageTables s2 ?t = replicate (length (pageTables s2 t)) (raw_entry raw)"
    "set (table_pages t s2) \<subseteq> swap_used s2" "card (swap_used s2) + length (pageTables s2 t) \<le> 512"
    using a(3) room tb2 ok(3) e2(3) s1(3) by simp_all
  have ok2: "vm_ok invar pages i s2" using e2(1) s1(2) by simp
  have sw2: "swap_bytes i s2 = swap_bytes i s" using s1(5) f2(1) by (simp add: swap_bytes_def s2_def fun_eq_iff)
  obtain ps s3 where s3: "for_each [0..int ?n - 1] (copy_page t ?t) s2 = Inr s3" "length ps = ?n"
      "filled invar pages i ?t (\<lambda>k. swap_bytes i s (table_pages t s ! k)) (raw_entry raw) 0 s2 ps s3"
    by (rule copy_table_ok [OF ok2 un2 tt, unfolded tb2(3,4) sw2]) (rule that)
  have run: "CopyAddrSpace raw a d s = Inr s3"
    using a s1(1,7) s3(1) by (simp add: CopyAddrSpace_def deref_def ptr_def k2_def s2_def)
  show thesis
    by (rule that [OF run s3(2) ok2 s3(3)]) (use e2(2,3) s1(3,4,7) tb2(1,2) in \<open>simp_all add: s2_def k2_def\<close>)
qed

text \<open>
  C35: the system call Fork copies the swap file. \<^verbatim>\<open>CopyAddrSpace\<close> returns when the swap space has room. The copy is a new address
  space of the same size whose memory is what the swap file holds for the pages of the parent; no page that was in use
  changes, and no page is shared. The copy therefore equals the memory of the parent exactly if the swap file is up to
  date for all pages of the parent: a page that the parent has changed since it was brought in appears in the child with
  its old content.
\<close>

theorem fork_copies_swap_file:
  assumes "os_ok invar pages i s" and "spaces (kern s) a = Some sp" "as_pageTable sp = Ptr t" "t < next_table (kern s)"
    and "numPages sp = int (length (pageTables s t))" and "spaces (kern s) d = Some dest"
    and "card (swap_used s) + length (pageTables s t) \<le> 512"
  shows "\<exists>t' s'. CopyAddrSpace raw a d s = Inr s' \<and> os_ok invar pages i s' \<and>
    spaces (kern s') d = Some (dest\<lparr>as_pageTable := Ptr t', numPages := numPages sp\<rparr>) \<and>
    length (pageTables s' t') = length (pageTables s t) \<and>
    space_bytes i t' s' = concat (map (swap_bytes i s) (table_pages t s)) \<and>
    (space_bytes i t' s' = space_bytes i t s \<longleftrightarrow> (\<forall>p\<in>set (table_pages t s). swap_bytes i s p = page_bytes i s p)) \<and>
    (\<forall>sq\<in>swap_used s. page_bytes i s' sq = page_bytes i s sq)"
proof -
  let ?t = "next_table (kern s)" and ?n = "length (pageTables s t)"
  have v: "vm_ok invar pages i s" "private_pages s" "pages_live s" "tables_new s" "pageTables s ?t = []"
    using assms(1) by (simp_all add: os_ok_def tables_new_def)
  have live: "set (table_pages t s) \<subseteq> swap_used s" by (rule table_private(2) [OF v(2,3)])
  obtain s2 ps s3 where s3: "CopyAddrSpace raw a d s = Inr s3" "length ps = ?n" "vm_ok invar pages i s2"
    "filled invar pages i ?t (\<lambda>k. swap_bytes i s (table_pages t s ! k)) (raw_entry raw) 0 s2 ps s3"
    "swap_used s2 = swap_used s" "page_bytes i s2 = page_bytes i s"
    "pageTables s2 = (pageTables s)(?t := replicate ?n (raw_entry raw))" "tlb s2 = tlb s" "next_table (kern s2) = Suc ?t"
    "spaces (kern s2) = (spaces (kern s))(d \<mapsto> dest\<lparr>as_pageTable := Ptr ?t, numPages := numPages sp\<rparr>)"
    by (rule CopyAddrSpace_run [OF v(1,5) live assms(2-7)]) (rule that)
  note fs = filled_space [OF s3(4,3)]
  have fl: "vm_ok invar pages i s3" "grows i ?t s2 s3" "distinct ps" "set ps \<inter> swap_used s = {}"
      "swap_used s3 = swap_used s \<union> set ps" "\<forall>sq\<in>swap_used s. page_bytes i s3 sq = page_bytes i s sq"
    using s3(4-6) by (auto simp: filled_def)
  have tb3: "pageTables s3 = (pageTables s)(?t := table_of ps)" "tlb s3 = tlb s"
    using fs(3) growsD(1,9) [OF fl(2)] s3(7,8) by (auto simp: fun_eq_iff)
  note m3 = more_fields [OF growsD(4) [OF fl(2)]]
  have "tables_new s3" using v(4) tb3(1) m3(4) s3(9) by (simp add: tables_new_def)
  then have os3: "os_ok invar pages i s3"
    using fl(1) new_table_private [OF v(2,3) tb3 fl(3,4,5)] by (simp add: os_ok_def)
  have "length (table_pages t s) = ?n" by (simp add: table_pages_def)
  then have "map (\<lambda>k. swap_bytes i s (table_pages t s ! k)) [0..<?n] = map (swap_bytes i s) (table_pages t s)"
    by (intro nth_equalityI) simp_all
  then have sp3: "space_bytes i ?t s3 = concat (map (swap_bytes i s) (table_pages t s))" using fs(2) s3(2) by simp
  have "space_bytes i ?t s3 = space_bytes i t s \<longleftrightarrow> (\<forall>p\<in>set (table_pages t s). swap_bytes i s p = page_bytes i s p)"
    unfolding sp3 unfolding space_bytes_def using length_page_bytes [OF v(1)] length_swap_bytes [of i s] v(1) live
    by (intro concat_blocks_eq) (auto simp: vm_ok_def)
  moreover have "spaces (kern s3) d = Some (dest\<lparr>as_pageTable := Ptr ?t, numPages := numPages sp\<rparr>)" using m3(2) s3(10) by simp
  ultimately show ?thesis
    using s3(1) os3 sp3 fl(6) fs(3) s3(2) by (intro exI [of _ ?t] exI [of _ s3]) simp
qed

subsection \<open>The end of a process\<close>

lemma unreferenced_unused:
  assumes "vm_ok invar pages i s" "\<And>e. get_entry q s = Inr e \<Longrightarrow> physicalPage e \<notin> swap_used s"
  shows "unreferenced q s"
  unfolding unreferenced_def
proof (intro allI impI notI)
  fix k assume k: "k < 32" "activePageMap (kern s) ! k \<noteq> -1" "activePages (kern s) ! k = Some q"
  have "slot_ok i s k" using assms(1) k(1) by (simp add: vm_ok_def)
  from slot_okE [OF this refl k(2)] obtain q' e where "activePages (kern s) ! k = Some q'" "get_entry q' s = Inr e"
      "physicalPage e = activePageMap (kern s) ! k" "activePageMap (kern s) ! k \<in> swap_used s" .
  with k(3) assms(2) show False by simp
qed

text \<open>Dropping a table whose pages have been released.\<close>

lemma drop_table:
  assumes os: "os_ok invar pages i s" and ok: "vm_ok invar pages i s1" and sm: "same_map s s1"
    and used: "swap_used s1 = swap_used s - set (table_pages t s)" and nt: "next_table (kern s1) = next_table (kern s)"
  defines "s2 \<equiv> s1\<lparr>pageTables := (pageTables s1)(t := [])\<rparr>"
  shows "os_ok invar pages i s2" "page_bytes i s2 sq = page_bytes i s1 sq" "swap_used s2 = swap_used s1"
proof -
  have v: "private_pages s" "pages_live s" "tables_new s" using os by (simp_all add: os_ok_def)
  note tp = table_private [OF v(1,2)]
  have un: "unreferenced (PageEntry t m) s1" for m
  proof (rule unreferenced_unused [OF ok])
    fix e assume "get_entry (PageEntry t m) s1 = Inr e"
    then obtain u d e0 where 0: "get_entry (PageEntry t m) s = Inr e0" "e = e0\<lparr>use := u, dirty := d\<rparr>"
      by (rule same_map_back [OF sm])
    then have "physicalPage e \<in> set (table_pages t s)"
      by (auto simp: get_entry_def aget_def table_pages_def split: if_splits)
    then show "physicalPage e \<notin> swap_used s1" using used by simp
  qed
  note t = table_unreferenced [OF ok un, where es = "[]", folded s2_def]
  show "page_bytes i s2 sq = page_bytes i s1 sq" "swap_used s2 = swap_used s1" by (rule t)+
  have orig: "\<exists>e0. get_entry q s = Inr e0 \<and> physicalPage e = physicalPage e0 \<and> (\<forall>k. q \<noteq> PageEntry t k)"
    if e: "get_entry q s2 = Inr e" for q e
  proof -
    have q: "get_entry q s1 = Inr e" "\<forall>k. q \<noteq> PageEntry t k"
      using e by (auto simp: s2_def get_entry_def aget_def split: entry_ptr.splits if_splits)
    obtain u d e0 where "get_entry q s = Inr e0" "e = e0\<lparr>use := u, dirty := d\<rparr>" by (rule same_map_back [OF sm q(1)])
    with q(2) show ?thesis by auto
  qed
  have "pages_live s2" unfolding pages_live_def
  proof (intro allI impI)
    fix q e assume "get_entry q s2 = Inr e"
    from orig [OF this] obtain e0 where
      e0: "get_entry q s = Inr e0" "physicalPage e = physicalPage e0" "\<forall>k. q \<noteq> PageEntry t k" by (elim exE conjE)
    have "physicalPage e0 \<in> swap_used s" using v(2) e0(1) unfolding pages_live_def by simp
    moreover have "physicalPage e0 \<notin> set (table_pages t s)" using tp(3) [OF e0(1), of t] e0(3) by blast
    ultimately show "physicalPage e \<in> swap_used s2" using e0(2) used t(3) by simp
  qed
  moreover have "private_pages s2" unfolding private_pages_def
  proof (intro allI impI)
    fix q q' e e' assume q: "get_entry q s2 = Inr e" "get_entry q' s2 = Inr e'" and
      pp: "physicalPage e = physicalPage e'" "physicalPage e \<in> swap_used s2"
    from orig [OF q(1)] obtain e0 where 0: "get_entry q s = Inr e0" "physicalPage e = physicalPage e0" by (elim exE conjE)
    from orig [OF q(2)] obtain e1 where 1: "get_entry q' s = Inr e1" "physicalPage e' = physicalPage e1" by (elim exE conjE)
    show "q = q'" by (rule private_pagesD [OF v(1) 0(1) 1(1)]) (use pp 0 1 used t(3) in simp_all)
  qed
  moreover have "tables_new s2"
  proof -
    have "pageTables s1 t' = []" if "pageTables s t' = []" for t'
      using that same_map_absent [OF sm] unfolding table_empty by blast
    then show ?thesis using v(3) nt by (simp add: tables_new_def s2_def)
  qed
  ultimately show "os_ok invar pages i s2" using t(1) by (simp add: os_ok_def)
qed

context replacement_policy
begin

lemma release_page_ok:
  assumes ok: "vm_ok invar pages i s" and e: "get_entry (PageEntry t (nat k)) s = Inr e" "physicalPage e \<in> swap_used s"
  obtains s' where "release_page P t k s = Inr s'" "vm_ok invar pages i s'" "same_map s s'"
    "swap_used s' = swap_used s - {physicalPage e}" "vm.more (kern s') = vm.more (kern s)"
    "\<And>sq. sq \<in> swap_used s - {physicalPage e} \<Longrightarrow> page_bytes i s' sq = page_bytes i s sq"
proof -
  let ?sp = "physicalPage e"
  obtain j s1 where s1: "vm_getPhysicalPage P (PageEntry t (nat k)) s = Inr (int j, s1)" "brings_in invar pages i ?sp j s s1"
    using vm_getPhysicalPage_ok [OF ok e] by blast
  have b: "vm_ok invar pages i s1" "same_map s s1" "j < 32" "activePageMap (kern s1) ! j = ?sp"
      "swap_used s1 = swap_used s" "vm.more (kern s1) = vm.more (kern s)"
      "\<And>sq. sq \<in> swap_used s \<Longrightarrow> page_bytes i s1 sq = page_bytes i s sq"
    using s1(2) by (simp_all add: brings_in_def swap_used_def)
  obtain u d where e1: "get_entry (PageEntry t (nat k)) s1 = Inr (e\<lparr>use := u, dirty := d\<rparr>)"
    by (rule same_map_entry [OF b(2) e(1)])
  have "?sp \<in> swap_used s1" using e(2) b(5) by simp
  from vm_clearPage_ok [OF b(1,3,4) this] obtain s2 where s2: "vm_clearPage P ?sp s1 = Inr s2" "vm_ok invar pages i s2"
      "swap_used s2 = swap_used s1 - {?sp}" "same_map s1 s2" "vm.more (kern s2) = vm.more (kern s1)"
      "\<forall>sq\<in>swap_used s1 - {?sp}. page_bytes i s2 sq = page_bytes i s1 sq" by blast
  have run: "release_page P t k s = Inr s2" using s1(1) e1 s2(1) by (simp add: release_page_def)
  show thesis
    by (rule that [OF run s2(2) same_map_trans [OF b(2) s2(4)]]) (use s2(3,5,6) b(5-7) in simp_all)
qed

text \<open>The loop of the destructor: after \<open>k\<close> rounds the first \<open>k\<close> pages are free.\<close>

lemma release_pages_ok:
  assumes ok: "vm_ok invar pages i s" and ps: "distinct (table_pages t s)" "set (table_pages t s) \<subseteq> swap_used s"
  obtains s' where "for_each [0..int (length (pageTables s t)) - 1] (release_page P t) s = Inr s'" "vm_ok invar pages i s'"
    "same_map s s'" "swap_used s' = swap_used s - set (table_pages t s)" "vm.more (kern s') = vm.more (kern s)"
    "\<And>sq. sq \<in> swap_used s - set (table_pages t s) \<Longrightarrow> page_bytes i s' sq = page_bytes i s sq"
proof -
  let ?n = "length (pageTables s t)" and ?ps = "table_pages t s"
  let ?I = "\<lambda>k s'. vm_ok invar pages i s' \<and> same_map s s' \<and> swap_used s' = swap_used s - set (take (nat k) ?ps) \<and>
    vm.more (kern s') = vm.more (kern s) \<and>
    (\<forall>sq\<in>swap_used s - set (take (nat k) ?ps). page_bytes i s' sq = page_bytes i s sq)"
  have "\<exists>s'. for_each [0..int ?n - 1] (release_page P t) s = Inr s' \<and> ?I (int ?n) s'"
  proof (rule for_loop_invariant)
    show "?I 0 s" using ok by simp
    fix k s' assume k: "0 \<le> k" "k < int ?n" and I: "?I k s'"
    have kn: "nat k < length ?ps" using k by (simp add: table_pages_def)
    have "get_entry (PageEntry t (nat k)) s = Inr (pageTables s t ! nat k)" using k by (simp add: get_entry_def)
    then obtain u d where e: "get_entry (PageEntry t (nat k)) s' = Inr ((pageTables s t ! nat k)\<lparr>use := u, dirty := d\<rparr>)"
      using I by (metis same_map_entry)
    have pp: "physicalPage ((pageTables s t ! nat k)\<lparr>use := u, dirty := d\<rparr>) = ?ps ! nat k"
      using k by (simp add: table_pages_def)
    have tk: "take (nat (k + 1)) ?ps = take (nat k) ?ps @ [?ps ! nat k]"
      using k kn by (simp add: nat_add_distrib take_Suc_conv_app_nth)
    have "?ps ! nat k \<notin> set (take (nat k) ?ps)"
      using ps(1) kn distinct_take [of ?ps "nat (k + 1)"] unfolding tk by simp
    then have "?ps ! nat k \<in> swap_used s'" using I ps(2) nth_mem [OF kn] by blast
    with release_page_ok [of i s' t k, OF _ e, unfolded pp] I obtain s'' where
      "release_page P t k s' = Inr s''" "vm_ok invar pages i s''" "same_map s' s''"
      "swap_used s'' = swap_used s' - {?ps ! nat k}" "vm.more (kern s'') = vm.more (kern s')"
      "\<And>sq. sq \<in> swap_used s' - {?ps ! nat k} \<Longrightarrow> page_bytes i s'' sq = page_bytes i s' sq" by blast
    with I show "\<exists>s''. release_page P t k s' = Inr s'' \<and> ?I (k + 1) s''"
      unfolding tk by (intro exI [of _ s''] conjI) (auto intro: same_map_trans)
  qed simp
  then obtain s' where "for_each [0..int ?n - 1] (release_page P t) s = Inr s'" "?I (int ?n) s'" by blast
  then show thesis by (intro that [of s']) (simp_all add: table_pages_def)
qed

lemma delete_AddrSpace_ok:
  assumes os: "os_ok invar pages i s"
    and a: "spaces (kern s) a = Some \<lparr>as_pcb = Ptr b, numPages = int (length (pageTables s t)), as_pageTable = Ptr t\<rparr>"
    and b: "pcbs (pr (kern s)) b = Some pcb" "pid_tables (PID pcb) c l (pr (kern s))" "available l (ks (pr (kern s)))"
      "lock_queue (locks (ks (pr (kern s))) l) = []"
  shows "\<exists>s'. delete_AddrSpace P a s = Inr (Returns (), s') \<and> os_ok invar pages i s' \<and>
    swap_used s' = swap_used s - set (table_pages t s) \<and> (\<forall>sq\<in>swap_used s'. page_bytes i s' sq = page_bytes i s sq) \<and>
    pageTables s' t = [] \<and> spaces (kern s') a = None \<and> pcbs (pr (kern s')) b = None \<and>
    marked (pid_map (pm (pr (kern s')))) = marked (pid_map (pm (pr (kern s)))) - {PID pcb} \<and>
    readyList (ks (pr (kern s'))) = readyList (ks (pr (kern s))) @ conds (ks (pr (kern s))) c"
proof -
  have v: "vm_ok invar pages i s" "private_pages s" "pages_live s" using os by (simp_all add: os_ok_def)
  obtain s1 where s1: "for_each [0..int (length (pageTables s t)) - 1] (release_page P t) s = Inr s1" "vm_ok invar pages i s1"
    "same_map s s1" "swap_used s1 = swap_used s - set (table_pages t s)" "vm.more (kern s1) = vm.more (kern s)"
    "\<And>sq. sq \<in> swap_used s - set (table_pages t s) \<Longrightarrow> page_bytes i s1 sq = page_bytes i s sq"
    by (rule release_pages_ok [OF v(1) table_private(1,2) [OF v(2,3)]]) (rule that)
  note m1 = more_fields [OF s1(5)]
  define s2 where "s2 = s1\<lparr>pageTables := (pageTables s1)(t := [])\<rparr>"
  note s2 = drop_table [OF os s1(2-4) m1(4), folded s2_def]
  obtain p where p: "clearPID (PID pcb) (pr (kern s)) = Inr (Returns (), p)" "marked (pid_map (pm p)) = marked (pid_map (pm (pr (kern s)))) - {PID pcb}"
      "readyList (ks p) = readyList (ks (pr (kern s))) @ conds (ks (pr (kern s))) c" "pcbs p = pcbs (pr (kern s))"
    by (rule clearPID_ok [OF b(2-4)]) (rule that)
  define k where "k = (kern s2)\<lparr>pr := p\<lparr>pcbs := (pcbs p)(b := None)\<rparr>, spaces := (spaces (kern s))(a := None)\<rparr>"
  have tr: "vm.truncate k = vm.truncate (kern s2)" "next_table k = next_table (kern s2)" by (simp_all add: k_def vm.defs)
  have kern2: "kern s2 = kern s1" by (simp add: s2_def)
  have "delete_AddrSpace P a s = Inr (Returns (), s2\<lparr>kern := k\<rparr>)"
    using a s1(1) b(1) p(1,4) m1(1,2)
    by (simp add: delete_AddrSpace_def deref_def ptr_def Let_def s2_def [symmetric] in_procs_def kern2 delete_PCB_def k_def)
  then show ?thesis
    using s2 s1(4,6) p(2-4) os_ok_other [OF tr] other_kernel_state(2,3) [OF tr(1)]
    by (intro exI [of _ "s2\<lparr>kern := k\<rparr>"]) (simp add: k_def s2_def)
qed

end

text \<open>
  C36: a process that ends gives back what it had. The destructor of \<^verbatim>\<open>AddrSpace\<close> brings every page of the space into a frame and
  clears it; with the random replacement policy of the code it returns, if nobody holds the lock of the process. Afterwards exactly
  the pages of the space are free in the swap file, the frames and the policy agree again, all other pages have their old
  contents, the control block and the process number are free, and the threads that wait for the process are ready, in the
  order in which they came.
\<close>

theorem exit_releases_process:
  assumes "os_ok rr_ok rr_pages i s"
    and "spaces (kern s) a = Some \<lparr>as_pcb = Ptr b, numPages = int (length (pageTables s t)), as_pageTable = Ptr t\<rparr>"
    and "pcbs (pr (kern s)) b = Some pcb" "pid_tables (PID pcb) c l (pr (kern s))" "available l (ks (pr (kern s)))"
      "lock_queue (locks (ks (pr (kern s))) l) = []"
  shows "\<exists>s'. delete_AddrSpace RandomReplacement_policy a s = Inr (Returns (), s') \<and> os_ok rr_ok rr_pages i s' \<and>
    swap_used s' = swap_used s - set (table_pages t s) \<and> (\<forall>sq\<in>swap_used s'. page_bytes i s' sq = page_bytes i s sq) \<and>
    pageTables s' t = [] \<and> spaces (kern s') a = None \<and> pcbs (pr (kern s')) b = None \<and>
    marked (pid_map (pm (pr (kern s')))) = marked (pid_map (pm (pr (kern s)))) - {PID pcb} \<and>
    readyList (ks (pr (kern s'))) = readyList (ks (pr (kern s))) @ conds (ks (pr (kern s))) c"
  by (rule random_policy.delete_AddrSpace_ok [OF assms])

subsection \<open>A running example\<close>

text \<open>An object file with four bytes of code and two bytes of data.\<close>

definition sample_noff :: "8 word list" where
  "sample_noff =
     [0xad, 0xdf, 0xba, 0,  0, 0, 0, 0,  40, 0, 0, 0,  4, 0, 0, 0,  4, 0, 0, 0,  44, 0, 0, 0,  2, 0, 0, 0,
      0, 0, 0, 0,  0, 0, 0, 0,  0, 0, 0, 0,  1, 2, 3, 4, 5, 6]"

lemma sample_noff_ok: "noff_ok sample_noff" "space_pages (file_header sample_noff) = 9"
  by code_simp+

lemma sample_image: "take 6 (image sample_noff) = [1, 2, 3, 4, 5, 6]"
  by code_simp

text \<open>A kernel that has started, with the object file open.\<close>

lemma sample_os:
  obtains i and s :: "RandomReplacement os" where "os_ok rr_ok rr_pages i s" "stub_ok (new_StubFile 3) 0 (host (kern s))" "0 \<noteq> i"
    "inodes (host (kern s)) 0 = sample_noff" "swap_used s = {}" "can_spawn (pr (kern s))" "tlb s = None"
    "set (activePageMap (kern s)) = {-1}"
proof -
  obtain p :: procs where p: "bm_wf (pid_map (pm p))" "numBits (pid_map (pm p)) = 10"
    "marked (pid_map (pm p)) = {}" "length (conditionTable (pm p)) = 10" "length (lockTable (pm p)) = 10"
    "length (pcbTable (pm p)) = 10" "length (returnStatus (pm p)) = 10" "available (bitLock (pm p)) (ks p)"
    by (rule sample_procs) (rule that)
  obtain m where m: "MemoryManager (\<lambda>_. 0) = Inr m" "mm_wf m" "frames_used m = {}" using MemoryManager_ok by blast
  define rr where "rr = \<lparr>rr_queue = replicate 32 (-1), randoms = replicate 624 0, randIdx = 0\<rparr>"
  have rr: "rr_ok rr" "rr_pages rr = {}" by (simp_all add: rr_def rr_ok_def q_ok_def q_pages_def)
  define u where "u = \<lparr>names = (\<lambda>n. if n = [112] then Some 0 else None), inodes = (\<lambda>_. sample_noff), next_inode = 1,
    fds = (\<lambda>fd. if fd = 3 then Some (0, 0) else None), next_fd = 4\<rparr>"
  define s0 :: "RandomReplacement os" where
    "s0 = \<lparr>registers = (\<lambda>_. 0), mainMemory = (\<lambda>_. 0), tlb = None, pageTable = None,
       pageTables = (\<lambda>t. []), pageTableSize = 0, singleStep = False, level = IntOn,
       pending = [], inHandler = False, yieldOnReturn = False, status = SystemMode, stats = new_Statistics,
       kern = \<lparr>host = u, diskBuffer = replicate 128 0, memMgr = m, swapFile = None, swapMap = mm_bitmap m,
         policy = rr, activePageMap = [], activePages = [], pr = p, spaces = (\<lambda>_. None), next_space = 0, next_table = 0,
         space_of = (\<lambda>_. Null), userRegisters = (\<lambda>_ _. 0), forked = (\<lambda>_. (ExecBridge, 0)), term_in = [], term_out = []\<rparr>\<rparr>"
  have new0: "length (diskBuffer (kern s0)) = 128" "memMgr (kern s0) = m" "host (kern s0) = u" "next_fd u = 4"
    by (simp_all add: s0_def u_def)
  obtain i s where s: "new_VMManager (\<lambda>_. 0) rr s0 = Inr s" "vm_ok rr_ok rr_pages i s" "swap_used s = {}"
      "pageTables s = pageTables s0" "tlb s = tlb s0" "vm.more (kern s) = vm.more (kern s0)"
      "i = (case names u swap_name of None \<Rightarrow> next_inode u | Some j \<Rightarrow> j)"
      "inodes (host (kern s)) = (inodes u)(i := [])" "fds (host (kern s)) 3 = fds u 3"
    using new_VMManager_ok [of s0 rr_ok rr rr_pages "\<lambda>_. 0"] m rr new0 by auto
  have i: "i = 1" using s(7) by (simp add: u_def swap_name_def)
  have "get_entry q s = (case q of TlbEntry _ \<Rightarrow> Inl NullPointer | PageEntry _ _ \<Rightarrow> Inl OutOfBounds)" for q
    using s(4,5) by (simp add: get_entry_def s0_def aget_def split: entry_ptr.split)
  then have no: "get_entry q s \<noteq> Inr e" for q e by (simp split: entry_ptr.split)
  have "os_ok rr_ok rr_pages i s"
    using s(2,4) no by (simp add: os_ok_def private_pages_def pages_live_def tables_new_def s0_def)
  moreover have "stub_ok (new_StubFile 3) 0 (host (kern s))" using s(9) by (simp add: stub_ok_def new_StubFile_def u_def)
  moreover have "inodes (host (kern s)) 0 = sample_noff" using s(8) i by (simp add: u_def)
  moreover have "can_spawn (pr (kern s))"
    using more_fields(1) [OF s(6)] p by (simp add: s0_def can_spawn_def)
  moreover have "activePageMap (kern s) ! k = -1" if "k < 32" for k
    using s(2,3) that by (auto simp: vm_ok_def slot_ok_def Let_def)
  then have "activePageMap (kern s) = replicate 32 (-1)" using vm_ok_lengths [OF s(2)] by (intro nth_equalityI) simp_all
  moreover have "tlb s = None" using s(5) by (simp add: s0_def)
  ultimately show thesis using s(3) i by (intro that [of i s]) simp_all
qed

definition sample_raw :: raw where
  "sample_raw = \<lparr>raw_words = (\<lambda>_. 0), raw_owner = None, raw_bytes = replicate 40 0, raw_entry = page_entry 0 0\<rparr>"


text \<open>The same kernel after the constructor.\<close>

lemma sample_process:
  obtains i and s :: "RandomReplacement os" and a b t pid pcb c l where "os_ok rr_ok rr_pages i s"
    "spaces (kern s) a = Some \<lparr>as_pcb = Ptr b, numPages = int (length (pageTables s t)), as_pageTable = Ptr t\<rparr>"
    "take 6 (space_bytes i t s) = [1, 2, 3, 4, 5, 6]" "length (pageTables s t) = 9" "swap_used s = set (table_pages t s)"
    "t < next_table (kern s)" "pcbs (pr (kern s)) b = Some pcb" "PID pcb = pid" "pid_tables pid c l (pr (kern s))"
    "locks (ks (pr (kern s))) l = new_Lock None" "stub_ok (new_StubFile 3) 0 (host (kern s))" "0 \<noteq> i"
    "inodes (host (kern s)) 0 = sample_noff" "tlb s = None" "set (activePageMap (kern s)) = {-1}"
    "pageTables s t = table_of (table_pages t s)"
proof -
  obtain i and s :: "RandomReplacement os" where s: "os_ok rr_ok rr_pages i s" "stub_ok (new_StubFile 3) 0 (host (kern s))" "0 \<noteq> i"
    "inodes (host (kern s)) 0 = sample_noff" "swap_used s = {}" "can_spawn (pr (kern s))" "tlb s = None"
    "set (activePageMap (kern s)) = {-1}"
    by (rule sample_os)
  have n: "noff_ok (inodes (host (kern s)) 0)"
      "int (card (swap_used s)) + space_pages (file_header (inodes (host (kern s)) 0)) \<le> 512"
    using s(4,5) sample_noff_ok by simp_all
  from new_AddrSpace_ok [OF s(1-3) n s(6), of sample_raw, unfolded s(4)] obtain a b t pid fb s' where
    s': "spaces (kern s') a = Some \<lparr>as_pcb = Ptr b, numPages = int (length (pageTables s' t)), as_pageTable = Ptr t\<rparr>"
      "space_bytes i t s' = image sample_noff" "os_ok rr_ok rr_pages i s'" "swap_used s' = swap_used s \<union> set (table_pages t s')"
      "t < next_table (kern s')" "pid_tables pid (next_cond (pr (kern s))) (next_lock (pr (kern s))) (pr (kern s'))"
      "locks (ks (pr (kern s'))) (next_lock (pr (kern s))) = new_Lock (raw_owner sample_raw)"
      "pcbs (pr (kern s')) b = Some \<lparr>PID = pid, parentPID = -1, pcb_thread = thread s,
        openFileTable = replicate 20 Uninit, openFileMap = fb\<rparr>"
      "\<forall>g l. stub_ok g l (host (kern s')) = stub_ok g l (host (kern s))"
      "\<forall>l. l \<noteq> i \<longrightarrow> inodes (host (kern s')) l = inodes (host (kern s)) l"
      "s' = s\<lparr>pageTables := pageTables s', kern := kern s'\<rparr>" "activePageMap (kern s') = activePageMap (kern s)"
      "pageTables s' t = table_of (table_pages t s')" by (elim exE conjE)
  have "tlb s' = tlb s" by (subst s'(11)) simp
  note more = this s'(9,10,12,13) s(2-4,7,8)
  have vm: "vm_ok rr_ok rr_pages i s'" using s'(3) by (simp add: os_ok_def)
  have "128 * length (pageTables s' t) = length (image sample_noff)"
    using length_space_bytes [OF vm, of t] s'(2,4) by simp
  also have "\<dots> = 1152" by code_simp
  finally have "length (pageTables s' t) = 9" by simp
  with s'(1-8) s(5) more sample_image show thesis
    by (intro that [OF s'(3,1) _ _ _ s'(5,8) refl]) (simp_all add: sample_raw_def)
qed

theorem exit_releases_process_witness:
  "\<exists>(s :: RandomReplacement os) a s'. card (swap_used s) = 9 \<and>
    delete_AddrSpace RandomReplacement_policy a s = Inr (Returns (), s') \<and> swap_used s' = {}"
proof -
  obtain i and s :: "RandomReplacement os" and a b t pid pcb c l where s: "os_ok rr_ok rr_pages i s"
    "spaces (kern s) a = Some \<lparr>as_pcb = Ptr b, numPages = int (length (pageTables s t)), as_pageTable = Ptr t\<rparr>"
    "length (pageTables s t) = 9" "swap_used s = set (table_pages t s)"
    "pcbs (pr (kern s)) b = Some pcb" "PID pcb = pid" "pid_tables pid c l (pr (kern s))" "locks (ks (pr (kern s))) l = new_Lock None"
    by (rule sample_process) (rule that)
  have l: "available l (ks (pr (kern s)))" "lock_queue (locks (ks (pr (kern s))) l) = []"
    using s(8) by (simp_all add: available_def new_Lock_def)
  from exit_releases_process [OF s(1,2,5) s(7) [folded s(6)] l] obtain s' where
    s': "delete_AddrSpace RandomReplacement_policy a s = Inr (Returns (), s')"
      "swap_used s' = swap_used s - set (table_pages t s)" by (elim exE conjE)
  have "distinct (table_pages t s)" using s(1) table_private(1) by (auto simp: os_ok_def)
  from distinct_card [OF this] have "card (swap_used s) = 9" using s(3,4) by (simp add: table_pages_def)
  with s' s(4) show ?thesis by (intro exI [of _ s] exI [of _ a] exI [of _ s']) simp
qed

theorem fork_copies_swap_file_witness:
  "\<exists>i (s :: RandomReplacement os) a s' t t'. CopyAddrSpace sample_raw a (Suc a) s = Inr s' \<and>
    length (pageTables s t) = 9 \<and> length (pageTables s' t') = 9 \<and> os_ok rr_ok rr_pages i s'"
proof -
  obtain i and s :: "RandomReplacement os" and a b t where s: "os_ok rr_ok rr_pages i s"
    "spaces (kern s) a = Some \<lparr>as_pcb = Ptr b, numPages = int (length (pageTables s t)), as_pageTable = Ptr t\<rparr>"
    "length (pageTables s t) = 9" "swap_used s = set (table_pages t s)" "t < next_table (kern s)"
    by (rule sample_process) (rule that)
  define dest where "dest = \<lparr>as_pcb = Ptr b, numPages = 0, as_pageTable = Null\<rparr>"
  define s1 where "s1 = s\<lparr>kern := (kern s)\<lparr>spaces := (spaces (kern s))(Suc a \<mapsto> dest)\<rparr>\<rparr>"
  have os1: "os_ok rr_ok rr_pages i s1" using s(1) by (simp add: s1_def os_ok_other vm.defs)
  have sp1: "spaces (kern s1) a = Some \<lparr>as_pcb = Ptr b, numPages = int (length (pageTables s1 t)), as_pageTable = Ptr t\<rparr>"
      "spaces (kern s1) (Suc a) = Some dest" "t < next_table (kern s1)" "length (pageTables s1 t) = 9"
    using s(2,3,5) by (simp_all add: s1_def)
  have "card (swap_used s1) \<le> length (table_pages t s)"
    using s(4) card_length [of "table_pages t s"] by (simp add: s1_def swap_used_def)
  then have "card (swap_used s1) + length (pageTables s1 t) \<le> 512" using s(3) sp1(4) by (simp add: table_pages_def)
  from fork_copies_swap_file [OF os1 sp1(1) _ sp1(3) _ sp1(2) this, of sample_raw] obtain t' s' where
    s': "CopyAddrSpace sample_raw a (Suc a) s1 = Inr s'" "os_ok rr_ok rr_pages i s'"
      "length (pageTables s' t') = length (pageTables s1 t)" by auto
  with sp1(4) show ?thesis
    by (intro exI [of _ i] exI [of _ s1] exI [of _ a] exI [of _ s'] exI [of _ t] exI [of _ t']) simp
qed

end
