(* ===== verification/Syscalls.thy ===== *)
theory Syscalls
  imports Space_Lifecycle Interrupts
begin

text \<open>
  The system calls and the page fault handler of \<^verbatim>\<open>userprog/exception.cc\<close>, and the start of user programs.

  \<^item> A handler runs with interrupts disabled and without interruption until it returns or until its thread
    leaves the processor. It returns the new state and its \<open>outcome\<close>: it is done, or the thread was switched out in
    \<^verbatim>\<open>Yield\<close> or \<^verbatim>\<open>join\<close> and \<open>todo\<close> says what it has left to do (\<open>resume_call\<close>), or it waits for a lock of the
    process manager, or the process is gone, or the machine has halted.
  \<^item> The record \<open>env\<close> holds what the code takes from elsewhere: the replacement policy, the device handlers
    and \<^verbatim>\<open>Yield\<close> that \<^verbatim>\<open>Interrupt::OneTick\<close> calls when interrupts are enabled again (as in theory \<open>Interrupts\<close>),
    what uninitialised memory holds, the address of a new \<^verbatim>\<open>Thread\<close>, and the number of bytes that
    the allocator reserves for a block.
  \<^item> A file descriptor, an address and a size are the signed values of the registers.
\<close>

definition SC_Halt :: int where "SC_Halt = 0"
definition SC_Exit :: int where "SC_Exit = 1"
definition SC_Exec :: int where "SC_Exec = 2"
definition SC_Join :: int where "SC_Join = 3"
definition SC_Create :: int where "SC_Create = 4"
definition SC_Open :: int where "SC_Open = 5"
definition SC_Read :: int where "SC_Read = 6"
definition SC_Write :: int where "SC_Write = 7"
definition SC_Close :: int where "SC_Close = 8"
definition SC_Fork :: int where "SC_Fork = 9"
definition SC_Yield :: int where "SC_Yield = 10"
definition ConsoleInput :: int where "ConsoleInput = 0"
definition ConsoleOutput :: int where "ConsoleOutput = 1"

lemmas syscall_consts = SC_Halt_def SC_Exit_def SC_Exec_def SC_Join_def SC_Create_def SC_Open_def SC_Read_def
  SC_Write_def SC_Close_def SC_Fork_def SC_Yield_def ConsoleInput_def ConsoleOutput_def

record 'p env =
  ev_policy :: "'p IReplacement"
  ev_call :: "'p kernel callfn"
  ev_yield :: "'p os \<Rightarrow> 'p os result"
  ev_raw :: raw
  ev_thread :: "'p os \<Rightarrow> nat"
  ev_room :: "nat \<Rightarrow> nat"

datatype todo =
    AfterYield IntStatus
  | AfterForkYield IntStatus int IntStatus
  | JoinAcquire int
  | JoinWait int

datatype outcome = Completes | Suspended todo | AwaitsLock | Gone | Halts

subsection \<open>The current thread and the rest of the kernel\<close>

definition set_level :: "'p env \<Rightarrow> IntStatus \<Rightarrow> 'p os \<Rightarrow> (IntStatus \<times> 'p os) result option" where
  "set_level E now s = SetLevel True (ev_call E) (ev_yield E) now s"

definition restore_level :: "'p env \<Rightarrow> IntStatus \<Rightarrow> 'p os \<Rightarrow> 'p os result option" where
  "restore_level E oldLevel s = obind (set_level E oldLevel s) (\<lambda>(_, s). returns (Inr s))"

definition cur_space :: "'p os \<Rightarrow> nat result" where
  "cur_space s = ptr (space_of (kern s) (thread s))"

definition space_pcb :: "nat \<Rightarrow> 'p os \<Rightarrow> nat result" where
  "space_pcb a s = rbind (deref (spaces (kern s)) a) (\<lambda>sp. ptr (as_pcb sp))"

definition cur_pcb :: "'p os \<Rightarrow> nat result" where
  "cur_pcb s = rbind (cur_space s) (\<lambda>a. space_pcb a s)"

definition cur_pid :: "'p os \<Rightarrow> int result" where
  "cur_pid s = rbind (cur_pcb s) (\<lambda>b. rbind (deref (pcbs (pr (kern s))) b) (\<lambda>pcb. Inr (PID pcb)))"

definition in_host :: "(Unix \<Rightarrow> ('a \<times> Unix) result) \<Rightarrow> 'p os \<Rightarrow> ('a \<times> 'p os) result" where
  "in_host f s = rbind (f (host (kern s))) (\<lambda>(x, u). Inr (x, s\<lparr>kern := (kern s)\<lparr>host := u\<rparr>\<rparr>))"

text \<open>\<^verbatim>\<open>new Thread\<close> and \<^verbatim>\<open>Thread::Fork\<close>, which the handlers call with interrupts disabled.\<close>

definition new_user_thread :: "nat \<Rightarrow> 'p os \<Rightarrow> 'p os" where
  "new_user_thread th s =
     s\<lparr>kern := (kern s)\<lparr>pr := (pr (kern s))\<lparr>ks := new_Thread th (ks (pr (kern s)))\<rparr>,
                       space_of := (space_of (kern s))(th := Null)\<rparr>\<rparr>"

definition fork_thread :: "nat \<Rightarrow> bridge \<Rightarrow> int \<Rightarrow> 'p os \<Rightarrow> 'p os" where
  "fork_thread th func arg s =
     s\<lparr>kern := (kern s)\<lparr>pr := (pr (kern s))\<lparr>ks := Fork th (ks (pr (kern s)))\<rparr>,
                       forked := (forked (kern s))(th := (func, arg))\<rparr>\<rparr>"

text \<open>
  \<^verbatim>\<open>Thread::Yield\<close>. The result is \<open>Some oldLevel\<close> when another thread runs now: the last statement, which restores the level, is
  what the thread does when it runs again.
\<close>

definition user_Yield :: "'p env \<Rightarrow> 'p os \<Rightarrow> (IntStatus option \<times> 'p os) result option" where
  "user_Yield E s =
     obind (set_level E IntOff s) (\<lambda>(oldLevel, s).
     case FindNextToRun (ks (pr (kern s))) of
       (None, k) \<Rightarrow> obind (restore_level E oldLevel s) (\<lambda>s. returns (Inr (None, s)))
     | (Some nextThread, k) \<Rightarrow>
         let s = set_pr ((pr (kern s))\<lparr>ks := ReadyToRun (currentThread k) k\<rparr>) s in
         obind (returns (Run_user nextThread s)) (\<lambda>s. returns (Inr (Some oldLevel, s))))"

text \<open>The second half of \<^verbatim>\<open>Thread::Sleep\<close>, once the ready list is not empty.\<close>

definition user_Sleep_switch :: "'p os \<Rightarrow> 'p os result" where
  "user_Sleep_switch s =
     (case FindNextToRun (ks (pr (kern s))) of
        (None, k) \<Rightarrow> Inr s
      | (Some nextThread, k) \<Rightarrow> Run_user nextThread (set_pr ((pr (kern s))\<lparr>ks := k\<rparr>) s))"

subsection \<open>Program counters and user memory\<close>

definition incrementPC :: "'p os \<Rightarrow> 'p os" where
  "incrementPC s =
     (let r = (registers s)(PrevPCReg := registers s PCReg); r = r(PCReg := r NextPCReg);
          r = r(NextPCReg := r PCReg + 4) in s\<lparr>registers := r\<rparr>)"

definition decrementPC :: "'p os \<Rightarrow> 'p os" where
  "decrementPC s =
     (let r = (registers s)(NextPCReg := registers s PCReg); r = r(PCReg := r PrevPCReg);
          r = r(PrevPCReg := 0) in s\<lparr>registers := r\<rparr>)"

definition jumpPC :: "int \<Rightarrow> 'p os \<Rightarrow> 'p os" where
  "jumpPC newPC s =
     s\<lparr>registers := (registers s)(PCReg := word_of_int newPC, NextPCReg := word_of_int (newPC + 4))\<rparr>"

text \<open>The physical address; where \<^verbatim>\<open>Translate\<close> fails, \<^verbatim>\<open>pAddr\<close> stays uninitialised.\<close>

definition user_addr :: "'p env \<Rightarrow> int \<Rightarrow> 'p os \<Rightarrow> (int \<times> 'p os) result" where
  "user_addr E vAddr s =
     rbind (cur_space s) (\<lambda>a.
     rbind (space_Translate (ev_policy E) a vAddr s) (\<lambda>(r, s).
     case r of None \<Rightarrow> Inl Uninitialised | Some pAddr \<Rightarrow> Inr (pAddr, s)))"

text \<open>The bytes from an address of the main memory up to the first zero, which has to be inside it.\<close>

definition c_string :: "int \<Rightarrow> 'k hw \<Rightarrow> 8 word list result" where
  "c_string pAddr s =
     rbind (main_get pAddr (MemorySize - pAddr) s) (\<lambda>bs.
     if 0 \<in> set bs then Inr (takeWhile (\<lambda>b. b \<noteq> 0) bs) else Inl OutOfBounds)"

text \<open>The last assignment of \<^verbatim>\<open>getString\<close> is to the byte behind the block that it allocates.\<close>

definition getString :: "'p env \<Rightarrow> int \<Rightarrow> 'p os \<Rightarrow> (8 word list \<times> 'p os) result" where
  "getString E vAddr s =
     rbind (user_addr E vAddr s) (\<lambda>(pAddr, s).
     rbind (c_string pAddr s) (\<lambda>str.
     let sz = length str + 1 in
     if ev_room E sz \<le> sz then Inl OutOfBounds else Inr (str, s)))"

definition putString :: "'p env \<Rightarrow> 8 word list \<Rightarrow> int \<Rightarrow> 'p os \<Rightarrow> 'p os result" where
  "putString E str vAddr s =
     rbind (user_addr E vAddr s) (\<lambda>(pAddr, s). main_put pAddr (str @ [0]) s)"

definition getMemFromVAddr :: "'p env \<Rightarrow> int \<Rightarrow> int \<Rightarrow> 'p os \<Rightarrow> (8 word list \<times> 'p os) result" where
  "getMemFromVAddr E vAddr sz s =
     rbind (user_addr E vAddr s) (\<lambda>(pAddr, s).
     rbind (main_get pAddr sz s) (\<lambda>bs. Inr (bs, s)))"

definition putMemIntoVAddr :: "'p env \<Rightarrow> 8 word list \<Rightarrow> int \<Rightarrow> int \<Rightarrow> 'p os \<Rightarrow> 'p os result" where
  "putMemIntoVAddr E buffer vAddr sz s =
     rbind (user_addr E vAddr s) (\<lambda>(pAddr, s).
     if sz < 0 \<or> int (length buffer) < sz then Inl OutOfBounds
     else main_put pAddr (take (nat sz) buffer) s)"

subsection \<open>Processes\<close>

definition finish_thread :: "'p os \<Rightarrow> 'p os" where
  "finish_thread s = set_pr ((pr (kern s))\<lparr>ks := Finish (ks (pr (kern s)))\<rparr>) s"

definition myExit :: "'p env \<Rightarrow> int \<Rightarrow> 'p os \<Rightarrow> (outcome \<times> 'p os) result option" where
  "myExit E exitStatus s =
     obind (set_level E IntOff s) (\<lambda>(oldLevel, s).
     obind (returns (cur_pid s)) (\<lambda>pid.
     obind (returns (setExitStatus pid exitStatus (pr (kern s)))) (\<lambda>p.
     let s = set_pr p s in
     obind (returns (cur_space s)) (\<lambda>a.
     obind (returns (delete_AddrSpace (ev_policy E) a s)) (\<lambda>(c, s).
     case c of Sleeps \<Rightarrow> returns (Inr (AwaitsLock, s))
     | Returns _ \<Rightarrow> returns (Inr (Gone, finish_thread s)))))))"

text \<open>The end of a handler that gives up the processor before it returns.\<close>

definition yield_outcome :: "'p env \<Rightarrow> 'p os \<Rightarrow> (outcome \<times> 'p os) result option" where
  "yield_outcome E s =
     obind (user_Yield E s) (\<lambda>(left, s).
     returns (Inr (case left of None \<Rightarrow> Completes | Some oldLevel \<Rightarrow> Suspended (AfterYield oldLevel), s)))"

text \<open>The statements of \<^verbatim>\<open>myExec\<close> on the new process: its parent, its thread, and the start of the thread.\<close>

definition adopt_process :: "nat \<Rightarrow> nat \<Rightarrow> StubFile \<Rightarrow> 'p os \<Rightarrow> (int \<times> 'p os) result" where
  "adopt_process th a executable s =
     (let s = s\<lparr>kern := (kern s)\<lparr>space_of := (space_of (kern s))(th := Ptr a)\<rparr>\<rparr> in
      rbind (cur_pid s) (\<lambda>parent.
      rbind (space_pcb a s) (\<lambda>b.
      rbind (deref (pcbs (pr (kern s))) b) (\<lambda>pcb.
      let s = set_pr ((pr (kern s))\<lparr>pcbs := (pcbs (pr (kern s)))
                (b \<mapsto> pcb\<lparr>parentPID := parent, pcb_thread := th\<rparr>)\<rparr>) s in
      rbind (in_host (\<lambda>u. rbind (Close (sf_file executable) u) (\<lambda>u. Inr ((), u))) s) (\<lambda>(_, s).
      Inr (PID pcb, fork_thread th ExecBridge 0 s))))))"

definition myExec :: "'p env \<Rightarrow> int \<Rightarrow> 'p os \<Rightarrow> (outcome \<times> 'p os) result option" where
  "myExec E vAddr s =
     obind (set_level E IntOff s) (\<lambda>(oldLevel, s).
     obind (returns (getString E vAddr s)) (\<lambda>(fname, s).
     obind (returns (in_host (stub_Open fname) s)) (\<lambda>(r, s).
     case r of None \<Rightarrow> returns (Inr (Completes, s))
     | Some executable \<Rightarrow>
         let th = ev_thread E s; s = new_user_thread th s in
         obind (new_AddrSpace (ev_raw E) executable s) (\<lambda>(c, s).
         case c of Sleeps \<Rightarrow> returns (Inr (AwaitsLock, s))
         | Returns a \<Rightarrow>
             obind (returns (adopt_process th a executable s)) (\<lambda>(pid, s).
             obind (returns (WriteRegister 2 (word_of_int pid) s)) (\<lambda>s.
             obind (restore_level E oldLevel s) (\<lambda>s. yield_outcome E s)))))))"

text \<open>The bridges, up to \<^verbatim>\<open>machine->Run()\<close>, and what a new thread does first: \<^verbatim>\<open>ThreadRoot\<close> enables interrupts and calls its function.\<close>

definition execBridge :: "int \<Rightarrow> 'p os \<Rightarrow> 'p os result" where
  "execBridge newPC s = rbind (cur_space s) (\<lambda>a. rbind (InitRegisters a s) (RestoreState a))"

definition forkBridge :: "int \<Rightarrow> 'p os \<Rightarrow> 'p os result" where
  "forkBridge newPC s =
     rbind (cur_space s) (\<lambda>a.
     rbind (InitRegisters a s) (\<lambda>s.
     rbind (RestoreState a s) (\<lambda>s. Inr (jumpPC newPC s))))"

definition start_thread :: "'p env \<Rightarrow> 'p os \<Rightarrow> 'p os result option" where
  "start_thread E s =
     obind (restore_level E IntOn s) (\<lambda>s.
     case forked (kern s) (thread s) of
       (ExecBridge, arg) \<Rightarrow> returns (execBridge arg s) | (ForkBridge, arg) \<Rightarrow> returns (forkBridge arg s))"

text \<open>
  \<^verbatim>\<open>myFork\<close>. The constructor without arguments leaves the fields of the address space as they are; \<^verbatim>\<open>CopyAddrSpace\<close> sets
  \<^verbatim>\<open>pageTable\<close> and \<^verbatim>\<open>numPages\<close> before they are used.
\<close>

definition fork_space :: "'p env \<Rightarrow> nat \<Rightarrow> 'p os \<Rightarrow> (nat \<times> 'p os) result" where
  "fork_space E th s =
     (let (d, s) = put_space \<lparr>as_pcb = Uninit, numPages = 0, as_pageTable = Uninit\<rparr> s;
          s = s\<lparr>kern := (kern s)\<lparr>space_of := (space_of (kern s))(th := Ptr d)\<rparr>\<rparr> in
      rbind (cur_space s) (\<lambda>a.
      rbind (CopyAddrSpace (ev_raw E) a d s) (\<lambda>s. Inr (d, s))))"

definition fork_process :: "'p env \<Rightarrow> nat \<Rightarrow> nat \<Rightarrow> int \<Rightarrow> 'p os \<Rightarrow> 'p os result" where
  "fork_process E th d newPID s =
     rbind (cur_pid s) (\<lambda>parent.
     rbind (in_procs (new_process (ev_raw E) newPID parent th) s) (\<lambda>(b, s).
     rbind (deref (spaces (kern s)) d) (\<lambda>sp.
     Inr (s\<lparr>kern := (kern s)\<lparr>spaces := (spaces (kern s))(d \<mapsto> sp\<lparr>as_pcb := Ptr b\<rparr>)\<rparr>\<rparr>))))"

definition fork_return :: "'p env \<Rightarrow> int \<Rightarrow> IntStatus \<Rightarrow> 'p os \<Rightarrow> 'p os result option" where
  "fork_return E newPID oldLevel s =
     obind (returns (WriteRegister 2 (word_of_int newPID) s)) (\<lambda>s. restore_level E oldLevel s)"

definition myFork :: "'p env \<Rightarrow> int \<Rightarrow> 'p os \<Rightarrow> (outcome \<times> 'p os) result option" where
  "myFork E newPC s =
     obind (set_level E IntOff s) (\<lambda>(oldLevel, s).
     let th = ev_thread E s; s = new_user_thread th s in
     obind (returns (fork_space E th s)) (\<lambda>(d, s).
     obind (returns (in_procs (getPID (raw_owner (ev_raw E))) s)) (\<lambda>(c, s).
     case c of Sleeps \<Rightarrow> returns (Inr (AwaitsLock, s))
     | Returns newPID \<Rightarrow>
         obind (returns (fork_process E th d newPID s)) (\<lambda>s.
         obind (user_Yield E (fork_thread th ForkBridge newPC s)) (\<lambda>(left, s).
         case left of
           None \<Rightarrow> obind (fork_return E newPID oldLevel s) (\<lambda>s. returns (Inr (Completes, s)))
         | Some l \<Rightarrow> returns (Inr (Suspended (AfterForkYield l newPID oldLevel), s)))))))"

subsection \<open>Files and the console\<close>

definition myCreate :: "'p env \<Rightarrow> int \<Rightarrow> 'p os \<Rightarrow> 'p os result option" where
  "myCreate E vAddr s =
     obind (set_level E IntOff s) (\<lambda>(oldLevel, s).
     obind (returns (getString E vAddr s)) (\<lambda>(fname, s).
     obind (returns (in_host (stub_Create fname 0) s)) (\<lambda>(_, s).
     restore_level E oldLevel s)))"

text \<open>The first part of \<^verbatim>\<open>myOpen\<close>: open the file, or create and open it.\<close>

definition open_or_create :: "'p env \<Rightarrow> int \<Rightarrow> 8 word list \<Rightarrow> 'p os \<Rightarrow> (StubFile option \<times> 'p os) result option" where
  "open_or_create E vAddr fname s =
     obind (returns (in_host (stub_Open fname) s)) (\<lambda>(f, s).
     if f = None
     then obind (myCreate E vAddr s) (\<lambda>s. returns (in_host (stub_Open fname) s))
     else returns (Inr (f, s)))"

definition myOpen :: "'p env \<Rightarrow> int \<Rightarrow> 'p os \<Rightarrow> 'p os result option" where
  "myOpen E vAddr s =
     obind (set_level E IntOff s) (\<lambda>(oldLevel, s).
     obind (returns (getString E vAddr s)) (\<lambda>(fname, s).
     obind (open_or_create E vAddr fname s) (\<lambda>(f, s).
     obind (returns (in_procs (sys_getOpenFile fname f) s)) (\<lambda>(sysOpenFile, s).
     if sysOpenFile = Null then returns (Inr s)
     else
       obind (returns (ptr sysOpenFile)) (\<lambda>sf.
       obind (returns (cur_pcb s)) (\<lambda>b.
       obind (returns (in_procs (pcb_getOpenFile b fname sf) s)) (\<lambda>(userOpenFile, s).
       obind (returns (deref (sys_files (pr (kern s))) sf)) (\<lambda>sof.
       obind (returns (WriteRegister 2 (word_of_int (sof_fd sof)) s)) (\<lambda>s.
       obind (returns (rbind (ptr userOpenFile) (deref (user_files (pr (kern s)))))) (\<lambda>_.
       restore_level E oldLevel s))))))))))"

definition myClose :: "'p env \<Rightarrow> int \<Rightarrow> 'p os \<Rightarrow> (outcome \<times> 'p os) result option" where
  "myClose E fd s =
     obind (set_level E IntOff s) (\<lambda>(oldLevel, s).
     obind (returns (cur_pcb s)) (\<lambda>b.
     obind (returns (pcb_closeFile b fd (pr (kern s)))) (\<lambda>p.
     obind (returns (in_procs (sys_closeFile fd) (set_pr p s))) (\<lambda>(c, s).
     case c of Sleeps \<Rightarrow> returns (Inr (AwaitsLock, s))
     | Returns _ \<Rightarrow> obind (restore_level E oldLevel s) (\<lambda>s. returns (Inr (Completes, s)))))))"

text \<open>The \<^verbatim>\<open>UserOpenFile\<close> of a descriptor of the current process, and the file \<^verbatim>\<open>file->sysOpenFile->openFile\<close>.\<close>

definition user_file :: "int \<Rightarrow> 'p os \<Rightarrow> nat result" where
  "user_file fd s = rbind (cur_pcb s) (\<lambda>b. rbind (pcb_fileOf b fd (pr (kern s))) ptr)"

definition host_file :: "nat \<Rightarrow> 'p os \<Rightarrow> StubFile result" where
  "host_file u s =
     rbind (deref (user_files (pr (kern s))) u) (\<lambda>uf.
     rbind (deref (sys_files (pr (kern s))) (uof_sysOpenFile uf)) (\<lambda>sf.
     case sof_openFile sf of None \<Rightarrow> Inl NullPointer | Some f \<Rightarrow> Inr f))"

definition set_position :: "nat \<Rightarrow> (int \<Rightarrow> int) \<Rightarrow> 'p os \<Rightarrow> 'p os result" where
  "set_position u g s =
     rbind (deref (user_files (pr (kern s))) u) (\<lambda>uf.
     Inr (set_pr ((pr (kern s))\<lparr>user_files := (user_files (pr (kern s)))
       (u \<mapsto> uf\<lparr>uof_position := g (uof_position uf)\<rparr>)\<rparr>) s))"

definition bzero_buffer :: "'p os \<Rightarrow> 'p os result" where
  "bzero_buffer s = fill_buffer (replicate (nat PageSize) 0) s"

text \<open>Every round of the loops moves at least one byte.\<close>

lemma chunk_pos: "0 < sz \<Longrightarrow> 0 < chunk PageSize vAddr sz"
proof -
  have "vAddr smod 128 < 128" "- 128 < vAddr smod 128" using smod_int_range [of 128 vAddr] by simp_all
  then show "0 < sz \<Longrightarrow> ?thesis" by (simp add: chunk_def Let_def)
qed

text \<open>One round of the loop of \<^verbatim>\<open>myRead\<close>, with the number of bytes read.\<close>

definition read_chunk :: "'p env \<Rightarrow> nat \<Rightarrow> int \<Rightarrow> int \<Rightarrow> int \<Rightarrow> 'p os \<Rightarrow> (int \<times> 'p os) result" where
  "read_chunk E u vAddr copySize pos s =
     rbind (bzero_buffer s) (\<lambda>s.
     rbind (host_file u s) (\<lambda>f.
     rbind (stub_ReadAt f copySize pos (host (kern s))) (\<lambda>(numRead, bs, h).
     rbind (fill_buffer bs (s\<lparr>kern := (kern s)\<lparr>host := h\<rparr>\<rparr>)) (\<lambda>s.
     rbind (putMemIntoVAddr E (diskBuffer (kern s)) vAddr numRead s) (\<lambda>s. Inr (numRead, s))))))"

function read_loop :: "'p env \<Rightarrow> nat \<Rightarrow> int \<Rightarrow> int \<Rightarrow> int \<Rightarrow> int \<Rightarrow> 'p os \<Rightarrow> (int \<times> 'p os) result" where
  "read_loop E u vAddr sz pos tot s =
     (if sz > 0
      then let copySize = chunk PageSize vAddr sz in
           rbind (read_chunk E u vAddr copySize pos s) (\<lambda>(numRead, s).
           read_loop E u (vAddr + copySize) (sz - copySize) (pos + copySize) (tot + numRead) s)
      else Inr (tot, s))"
  by pat_completeness auto
termination
  by (relation "measure (\<lambda>(E, u, v, sz, p, t, s). nat sz)") (use chunk_pos in \<open>auto simp: nat_less_iff\<close>)

declare read_loop.simps [simp del]

definition getchar :: "'p os \<Rightarrow> 8 word \<times> 'p os" where
  "getchar s =
     (case term_in (kern s) of
        [] \<Rightarrow> (-1, s) | c # cs \<Rightarrow> (c, s\<lparr>kern := (kern s)\<lparr>term_in := cs\<rparr>\<rparr>))"

definition read_char :: "int \<Rightarrow> 'p os \<Rightarrow> 'p os result" where
  "read_char i s =
     (let (c, s) = getchar s in
      rbind (aset (diskBuffer (kern s)) i c) (\<lambda>b. Inr (s\<lparr>kern := (kern s)\<lparr>diskBuffer := b\<rparr>\<rparr>)))"

definition read_console :: "'p env \<Rightarrow> int \<Rightarrow> int \<Rightarrow> 'p os \<Rightarrow> 'p os result" where
  "read_console E vAddr sz s =
     rbind (for_each [0..sz - 1] read_char s) (\<lambda>s.
     rbind (putMemIntoVAddr E (diskBuffer (kern s)) vAddr (sz + 1) s) (\<lambda>s.
     WriteRegister 2 (word_of_int sz) s))"

definition read_file :: "'p env \<Rightarrow> int \<Rightarrow> int \<Rightarrow> int \<Rightarrow> 'p os \<Rightarrow> 'p os result" where
  "read_file E vAddr sz fd s =
     rbind (user_file fd s) (\<lambda>u.
     rbind (deref (user_files (pr (kern s))) u) (\<lambda>uf.
     rbind (read_loop E u vAddr sz (uof_position uf) 0 s) (\<lambda>(totNumRead, s).
     rbind (set_position u (\<lambda>pos. pos + totNumRead) s) (\<lambda>s.
     WriteRegister 2 (word_of_int totNumRead) s))))"

definition myRead :: "'p env \<Rightarrow> int \<Rightarrow> int \<Rightarrow> int \<Rightarrow> 'p os \<Rightarrow> 'p os result option" where
  "myRead E vAddr sz fd s =
     obind (set_level E IntOff s) (\<lambda>(oldLevel, s).
     obind (returns (if fd = ConsoleInput then read_console E vAddr sz s else read_file E vAddr sz fd s)) (\<lambda>s.
     restore_level E oldLevel s))"

text \<open>
  Output to the console: the loop copies the bytes to \<^verbatim>\<open>buffer\<close>, which has room for \<open>sz + 1\<close> bytes, without changing
  \<^verbatim>\<open>vAddr\<close>; \<^verbatim>\<open>printf\<close> writes them up to the first zero.
\<close>

function console_loop :: "'p env \<Rightarrow> int \<Rightarrow> int \<Rightarrow> 8 word list \<Rightarrow> 'p os \<Rightarrow> (8 word list \<times> 'p os) result" where
  "console_loop E vAddr sz buffer s =
     (if sz > 0
      then let copySize = chunk PageSize vAddr sz in
           rbind (getMemFromVAddr E vAddr copySize s) (\<lambda>(bs, s).
           console_loop E vAddr (sz - copySize) (buffer @ bs) s)
      else Inr (buffer, s))"
  by pat_completeness auto
termination
  by (relation "measure (\<lambda>(E, v, sz, b, s). nat sz)") (use chunk_pos in \<open>auto simp: nat_less_iff\<close>)

declare console_loop.simps [simp del]

definition write_console :: "'p env \<Rightarrow> int \<Rightarrow> int \<Rightarrow> 'p os \<Rightarrow> 'p os result" where
  "write_console E vAddr sz s =
     (if sz < 0 then Inl OutOfBounds
      else rbind (console_loop E vAddr sz [] s) (\<lambda>(buffer, s).
           Inr (s\<lparr>kern := (kern s)\<lparr>term_out := term_out (kern s) @ takeWhile (\<lambda>b. b \<noteq> 0) buffer\<rparr>\<rparr>)))"

definition write_chunk :: "'p env \<Rightarrow> nat \<Rightarrow> int \<Rightarrow> int \<Rightarrow> int \<Rightarrow> 'p os \<Rightarrow> 'p os result" where
  "write_chunk E u vAddr copySize pos s =
     rbind (bzero_buffer s) (\<lambda>s.
     rbind (getMemFromVAddr E vAddr copySize s) (\<lambda>(bs, s).
     rbind (fill_buffer bs s) (\<lambda>s.
     rbind (host_file u s) (\<lambda>f.
     rbind (in_host (stub_WriteAt f (diskBuffer (kern s)) copySize pos) s) (\<lambda>(_, s). Inr s)))))"

function write_loop :: "'p env \<Rightarrow> nat \<Rightarrow> int \<Rightarrow> int \<Rightarrow> int \<Rightarrow> 'p os \<Rightarrow> (int \<times> 'p os) result" where
  "write_loop E u vAddr sz pos s =
     (if sz > 0
      then let copySize = chunk PageSize vAddr sz in
           rbind (write_chunk E u vAddr copySize pos s) (\<lambda>s.
           write_loop E u (vAddr + copySize) (sz - copySize) (pos + copySize) s)
      else Inr (pos, s))"
  by pat_completeness auto
termination
  by (relation "measure (\<lambda>(E, u, v, sz, p, s). nat sz)") (use chunk_pos in \<open>auto simp: nat_less_iff\<close>)

declare write_loop.simps [simp del]

definition write_file :: "'p env \<Rightarrow> int \<Rightarrow> int \<Rightarrow> int \<Rightarrow> 'p os \<Rightarrow> 'p os result" where
  "write_file E vAddr sz fd s =
     rbind (user_file fd s) (\<lambda>u.
     rbind (deref (user_files (pr (kern s))) u) (\<lambda>uf.
     rbind (write_loop E u vAddr sz (uof_position uf) s) (\<lambda>(pos, s).
     set_position u (\<lambda>_. pos) s)))"

definition myWrite :: "'p env \<Rightarrow> int \<Rightarrow> int \<Rightarrow> int \<Rightarrow> 'p os \<Rightarrow> 'p os result option" where
  "myWrite E vAddr sz fd s =
     obind (set_level E IntOff s) (\<lambda>(oldLevel, s).
     obind (returns (if fd = ConsoleOutput then write_console E vAddr sz s else write_file E vAddr sz fd s)) (\<lambda>s.
     restore_level E oldLevel s))"

subsection \<open>Page faults and the dispatcher\<close>

definition fault_in :: "'p env \<Rightarrow> int \<Rightarrow> 'p os \<Rightarrow> 'p os result" where
  "fault_in E vAddr s =
     (let vPageNum = vAddr sdiv PageSize in
      rbind (cur_space s) (\<lambda>a.
      rbind (deref (spaces (kern s)) a) (\<lambda>sp.
      rbind (ptr (as_pageTable sp)) (\<lambda>t.
      rbind (aget (pageTables s t) vPageNum) (\<lambda>_.
      let page = PageEntry t (nat vPageNum) in
      rbind (vm_swap (ev_policy E) page s) (\<lambda>(_, s).
      rbind (get_entry page s) (\<lambda>e. set_entry page (e\<lparr>valid := True\<rparr>) s)))))))"

definition myPageFaultHandler :: "'p env \<Rightarrow> int \<Rightarrow> 'p os \<Rightarrow> 'p os result option" where
  "myPageFaultHandler E vAddr s =
     obind (set_level E IntOff s) (\<lambda>(oldLevel, s).
     obind (returns (fault_in E vAddr s)) (\<lambda>s.
     restore_level E oldLevel s))"

definition completes :: "'p os result option \<Rightarrow> (outcome \<times> 'p os) result option" where
  "completes r = obind r (\<lambda>s. returns (Inr (Completes, s)))"

text \<open>\<^verbatim>\<open>join\<close> sleeps in \<^verbatim>\<open>Acquire\<close>, when another thread holds the lock, or in \<^verbatim>\<open>Wait\<close>.\<close>

definition in_join :: "int \<Rightarrow> 'p os \<Rightarrow> todo" where
  "in_join pid s =
     (case cont (ks (pr (kern s))) (thread s) of InAcquire l \<Rightarrow> JoinAcquire pid | _ \<Rightarrow> JoinWait pid)"

definition sys_join :: "int \<Rightarrow> 'p os \<Rightarrow> (outcome \<times> 'p os) result" where
  "sys_join pid s = rbind (in_procs (join pid) s) (\<lambda>(_, s). Inr (Suspended (in_join pid s), s))"

definition syscall :: "'p env \<Rightarrow> int \<Rightarrow> int \<Rightarrow> int \<Rightarrow> int \<Rightarrow> 'p os \<Rightarrow> (outcome \<times> 'p os) result option" where
  "syscall E type arg1 arg2 arg3 s =
     (if type = SC_Halt then returns (Inr (Halts, s))
      else if type = SC_Exit then myExit E arg1 s
      else if type = SC_Exec then myExec E arg1 s
      else if type = SC_Join then returns (sys_join arg1 s)
      else if type = SC_Create then completes (myCreate E arg1 s)
      else if type = SC_Open then completes (myOpen E arg1 s)
      else if type = SC_Read then completes (myRead E arg1 arg2 arg3 s)
      else if type = SC_Write then completes (myWrite E arg1 arg2 arg3 s)
      else if type = SC_Close then myClose E arg1 s
      else if type = SC_Fork then myFork E arg1 s
      else if type = SC_Yield then yield_outcome E s
      else returns (Inr (Completes, s)))"

definition end_syscall :: "outcome \<times> 'p os \<Rightarrow> outcome \<times> 'p os" where
  "end_syscall r = (case r of (Completes, s) \<Rightarrow> (Completes, incrementPC s) | _ \<Rightarrow> r)"

definition ExceptionHandler :: "'p env \<Rightarrow> ExceptionType \<Rightarrow> 'p os \<Rightarrow> (outcome \<times> 'p os) result option" where
  "ExceptionHandler E which s =
     obind (returns (ReadRegister 2 s)) (\<lambda>type.
     obind (returns (ReadRegister 4 s)) (\<lambda>arg1.
     obind (returns (ReadRegister 5 s)) (\<lambda>arg2.
     obind (returns (ReadRegister 6 s)) (\<lambda>arg3.
     obind (returns (cur_pid s)) (\<lambda>pid.
     if which = PageFaultException
     then obind (returns (ReadRegister (int BadVAddrReg) s)) (\<lambda>vAddr.
          completes (myPageFaultHandler E (sint vAddr) s))
     else if which = SyscallException
     then obind (syscall E (sint type) (sint arg1) (sint arg2) (sint arg3) s) (\<lambda>r.
          returns (Inr (end_syscall r)))
     else returns (Inl AssertFailed))))))"

text \<open>
  What a thread that was switched out inside a system call does when it runs again, up to the end of the
  handler or until it sleeps again. In \<^verbatim>\<open>join\<close> it takes the lock it was waiting for, and then waits for the condition or, if it
  has done so, returns; the handler does nothing with the exit status.
\<close>

definition wanted_lock :: "ksync \<Rightarrow> nat result" where
  "wanted_lock k =
     (case cont k (currentThread k) of InWait c l \<Rightarrow> Inr l | InAcquire l \<Rightarrow> Inr l | _ \<Rightarrow> Inl AssertFailed)"

definition resume_acquire :: "int \<Rightarrow> 'p os \<Rightarrow> (outcome \<times> 'p os) result" where
  "resume_acquire pid s =
     rbind (wanted_lock (ks (pr (kern s)))) (\<lambda>l.
     rbind (in_procs (acquire_then l (\<lambda>p. rbind (aget (lockTable (pm p)) pid) (\<lambda>lk.
       rbind (ptr lk) (\<lambda>l'. join_locked pid l' p)))) s) (\<lambda>(_, s).
     Inr (Suspended (in_join pid s), s)))"

definition resume_wait :: "int \<Rightarrow> 'p os \<Rightarrow> (outcome \<times> 'p os) result" where
  "resume_wait pid s =
     rbind (wanted_lock (ks (pr (kern s)))) (\<lambda>l.
     rbind (in_procs (acquire_then l (join_return pid)) s) (\<lambda>(c, s).
     Inr (case c of Sleeps \<Rightarrow> Suspended (JoinWait pid) | Returns _ \<Rightarrow> Completes, s)))"

definition resume_call :: "'p env \<Rightarrow> todo \<Rightarrow> 'p os \<Rightarrow> (outcome \<times> 'p os) result option" where
  "resume_call E t s =
     obind (case t of
              AfterYield oldLevel \<Rightarrow> completes (restore_level E oldLevel s)
            | AfterForkYield l newPID oldLevel \<Rightarrow>
                completes (obind (restore_level E l s) (\<lambda>s. fork_return E newPID oldLevel s))
            | JoinAcquire pid \<Rightarrow> returns (resume_acquire pid s)
            | JoinWait pid \<Rightarrow> returns (resume_wait pid s))
       (\<lambda>r. returns (Inr (end_syscall r)))"

text \<open>\<^verbatim>\<open>StartProcess\<close>, the first user program, up to \<^verbatim>\<open>machine->Run()\<close>; false when there is no such file.\<close>

definition StartProcess :: "'p env \<Rightarrow> 8 word list \<Rightarrow> 'p os \<Rightarrow> (bool call \<times> 'p os) result option" where
  "StartProcess E filename s =
     obind (returns (in_host (stub_Open filename) s)) (\<lambda>(r, s).
     case r of None \<Rightarrow> returns (Inr (Returns False, s))
     | Some executable \<Rightarrow>
         obind (new_AddrSpace (ev_raw E) executable s) (\<lambda>(c, s).
         case c of Sleeps \<Rightarrow> returns (Inr (Sleeps, s))
         | Returns a \<Rightarrow>
             let s = s\<lparr>kern := (kern s)\<lparr>space_of := (space_of (kern s))(thread s := Ptr a)\<rparr>\<rparr> in
             obind (returns (in_host (\<lambda>u. rbind (Close (sf_file executable) u) (\<lambda>u. Inr ((), u))) s)) (\<lambda>(_, s).
             obind (returns (InitRegisters a s)) (\<lambda>s.
             obind (returns (RestoreState a s)) (\<lambda>s. returns (Inr (Returns True, s)))))))"

end
