(* ===== verification/User_Programs.thy ===== *)
theory User_Programs
  imports Syscalls
begin

text \<open>
  What the kernel does for user programs, from the theories of paging, processes and system calls together.

  \<^item> \<open>paging_frame\<close> says what moving pages leaves alone, \<open>user_ctx\<close> that an address space is that of the current thread.
    The memory of a process, \<open>space_bytes\<close>, does not depend on where its pages are.
  \<^item> The system call Write copies the memory of the process to the file; a page fault is invisible to the
    program apart from the repeated instruction; a context switch restores all user registers; and
    what Read has put into a page can be lost.
  \<^item> The interrupt level is restored at the end of a call; the properties are for the case that no interrupt is due then
    (\<open>quiet\<close>). Theory \<open>Devices\<close> has the behaviour when some are.
\<close>

subsection \<open>What paging leaves alone\<close>

text \<open>
  Moving pages changes the memory, the use and dirty bits, and the swap file, but no other file of the host
  and nothing of the rest of the kernel. \<open>J\<close> are the files that may change.
\<close>

definition paging_frame :: "nat set \<Rightarrow> ('p, 'x) vm_scheme hw \<Rightarrow> ('p, 'x) vm_scheme hw \<Rightarrow> bool" where
  "paging_frame J s s' \<longleftrightarrow>
     s' = s\<lparr>mainMemory := mainMemory s', tlb := tlb s', pageTables := pageTables s', kern := kern s'\<rparr> \<and>
     vm.more (kern s') = vm.more (kern s) \<and> swapFile (kern s') = swapFile (kern s) \<and> (tlb s = None \<longrightarrow> tlb s' = None) \<and>
     (\<forall>g j. stub_ok g j (host (kern s')) = stub_ok g j (host (kern s))) \<and>
     (\<forall>j. j \<notin> J \<longrightarrow> inodes (host (kern s')) j = inodes (host (kern s)) j)"

definition swap_on :: "nat \<Rightarrow> ('p, 'x) vm_scheme hw \<Rightarrow> bool" where
  "swap_on i s \<longleftrightarrow> (\<exists>f. swapFile (kern s) = Some f \<and> stub_ok f i (host (kern s)))"

lemma paging_frame_refl [simp]: "paging_frame J s s"
  by (simp add: paging_frame_def)

lemma paging_frame_trans:
  assumes "paging_frame J s s1" "paging_frame J s1 s2" shows "paging_frame J s s2"
proof -
  have "s2 = s\<lparr>mainMemory := mainMemory s2, tlb := tlb s2, pageTables := pageTables s2, kern := kern s2\<rparr>"
    using assms unfolding paging_frame_def by (cases s; cases s1; cases s2) simp
  with assms show ?thesis by (simp add: paging_frame_def)
qed

lemma paging_frame_swap: "paging_frame J s s1 \<Longrightarrow> swap_on i s \<Longrightarrow> swap_on i s1"
  by (auto simp: paging_frame_def swap_on_def)

lemma swap_ReadAt_frame:
  assumes "swap_on i s" "swap_ReadAt n p s = Inr (bs, s')" shows "paging_frame {i} s s'"
  using assms
  by (auto simp: swap_on_def swap_ReadAt_def stub_ReadAt_def Lseek_def unix_lseek_def ReadPartial_def unix_read_def
      rbind_eq_Inr_iff ASSERT_eq_Inr_iff Let_def stub_ok_def paging_frame_def split: if_splits)

lemma swap_WriteAt_frame:
  assumes "swap_on i s" "swap_WriteAt b n p s = Inr s'" shows "paging_frame {i} s s'"
  using assms
  by (auto simp: swap_on_def swap_WriteAt_def stub_WriteAt_def Lseek_def unix_lseek_def WriteFile_def unix_write_def
      rbind_eq_Inr_iff ASSERT_eq_Inr_iff Let_def stub_ok_def paging_frame_def split: if_splits)

lemma fill_buffer_frame: "fill_buffer bs s = Inr s' \<Longrightarrow> paging_frame J s s'"
  by (auto simp: fill_buffer_def paging_frame_def split: if_splits)

lemma main_put_frame: "main_put a bs s = Inr s' \<Longrightarrow> paging_frame J s s'"
  by (auto simp: main_put_def paging_frame_def split: if_splits)

lemma set_entry_paging: "set_entry q e s = Inr s' \<Longrightarrow> paging_frame J s s'"
  by (cases q) (auto simp: set_entry_def aset_def paging_frame_def split: option.splits if_splits)

lemma evict_frame:
  assumes "swap_on i s" "evict k s = Inr s'" shows "paging_frame {i} s s'"
proof -
  consider q e where "set_entry q e s = Inr s'"
    | q e q' e' s1 s2 bs s3 sp where "set_entry q e s = Inr s1" "set_entry q' e' s1 = Inr s2" "fill_buffer bs s2 = Inr s3"
      "swap_WriteAt (diskBuffer (kern s3)) 128 (sp * 128) s3 = Inr s'"
    using assms(2)
    by (simp add: evict_def sw_writePage_def rbind_eq_Inr_iff split: option.splits if_splits) (elim exE conjE; blast)+
  then show ?thesis
  proof cases
    case 1
    then show ?thesis by (rule set_entry_paging)
  next
    case 2
    have f3: "paging_frame {i} s s3"
      by (rule paging_frame_trans [OF paging_frame_trans [OF set_entry_paging [OF 2(1)] set_entry_paging [OF 2(2)]]
          fill_buffer_frame [OF 2(3)]])
    show ?thesis by (rule paging_frame_trans [OF f3 swap_WriteAt_frame [OF paging_frame_swap [OF f3 assms(1)] 2(4)]])
  qed
qed

lemma take_frame_frame:
  assumes "swap_on i s" "take_frame P s = Inr (k, s')" shows "paging_frame {i} s s'"
proof -
  have upd: "paging_frame {i} s (s\<lparr>kern := (kern s)\<lparr>memMgr := m, policy := w\<rparr>\<rparr>)"
      "paging_frame {i} s (s\<lparr>kern := (kern s)\<lparr>policy := w\<rparr>\<rparr>)" for m w
    by (simp_all add: paging_frame_def)
  consider m w where "s' = s\<lparr>kern := (kern s)\<lparr>memMgr := m, policy := w\<rparr>\<rparr>"
    | w where "evict k (s\<lparr>kern := (kern s)\<lparr>policy := w\<rparr>\<rparr>) = Inr s'"
    using assms(2) by (auto simp: take_frame_def rbind_eq_Inr_iff split: if_splits)
  then show ?thesis
  proof cases
    case 1
    with upd show ?thesis by simp
  next
    case 2
    show ?thesis
      by (rule paging_frame_trans [OF upd(2) evict_frame [OF paging_frame_swap [OF upd(2) assms(1)] 2]])
  qed
qed

lemma vm_swap_frame:
  assumes "swap_on i s" "vm_swap P q s = Inr (k, s')" shows "paging_frame {i} s s'"
proof -
  obtain e :: TranslationEntry and s1 bs s2 s3 s4 am ap where st: "take_frame P s = Inr (k, s1)"
      "swap_ReadAt PageSize (physicalPage e * PageSize) s1 = Inr (bs, s2)" "fill_buffer bs s2 = Inr s3"
      "main_put (k * PageSize) (take (nat PageSize) (diskBuffer (kern s3))) s3 = Inr s4"
      "s' = s4\<lparr>kern := (kern s4)\<lparr>activePageMap := am, activePages := ap\<rparr>\<rparr>"
    using assms(2) by (auto simp: vm_swap_def sw_swap_def rbind_eq_Inr_iff)
  note f1 = take_frame_frame [OF assms(1) st(1)]
  note f2 = paging_frame_trans [OF f1 swap_ReadAt_frame [OF paging_frame_swap [OF f1 assms(1)] st(2)]]
  note f4 = paging_frame_trans [OF paging_frame_trans [OF f2 fill_buffer_frame [OF st(3)]] main_put_frame [OF st(4)]]
  have "paging_frame {i} s4 s'" by (simp add: st(5) paging_frame_def)
  with f4 show ?thesis by (rule paging_frame_trans)
qed

lemma vm_getPhysicalPage_frame:
  assumes "swap_on i s" "vm_getPhysicalPage P q s = Inr (k, s')" shows "paging_frame {i} s s'"
  using assms vm_swap_frame [OF assms(1)]
  by (auto simp: vm_getPhysicalPage_def rbind_eq_Inr_iff split: if_splits)

subsection \<open>Address spaces under paging\<close>

lemma table_in_range: "k < length (pageTables s t) \<longleftrightarrow> (\<exists>e. get_entry (PageEntry t k) s = Inr e)"
  by (auto simp: get_entry_def aget_def split: if_splits)

text \<open>The same entries for the same pages of the swap file, up to their bits.\<close>

definition same_pages :: "'k hw \<Rightarrow> 'k hw \<Rightarrow> bool" where
  "same_pages s s' \<longleftrightarrow> (\<forall>q. map_sum id physicalPage (get_entry q s') = map_sum id physicalPage (get_entry q s))"

lemma same_pages_trans: "same_pages s s1 \<Longrightarrow> same_pages s1 s2 \<Longrightarrow> same_pages s s2"
  by (simp add: same_pages_def)

lemma same_map_pages: assumes "same_map s s'" shows "same_pages s s'"
  unfolding same_pages_def
proof
  fix q
  obtain u d where "get_entry q s' = map_sum id (\<lambda>e. e\<lparr>use := u, dirty := d\<rparr>) (get_entry q s)"
    using assms unfolding same_map_def by blast
  then show "map_sum id physicalPage (get_entry q s') = map_sum id physicalPage (get_entry q s)"
    by (cases "get_entry q s") simp_all
qed

lemma same_pages_back:
  assumes "same_pages s s'" "get_entry q s' = Inr e"
  obtains e0 where "get_entry q s = Inr e0" "physicalPage e0 = physicalPage e"
proof -
  have "map_sum id physicalPage (get_entry q s) = Inr (physicalPage e)"
    using assms unfolding same_pages_def by (metis map_sum.simps(2))
  then show thesis using that by (cases "get_entry q s") auto
qed

lemma same_pages_table:
  assumes "same_pages s s'" shows "table_pages t s' = table_pages t s" "length (pageTables s' t) = length (pageTables s t)"
proof -
  have entry: "map_sum id physicalPage (get_entry (PageEntry t k) s') = map_sum id physicalPage (get_entry (PageEntry t k) s)" for k
    using assms by (simp add: same_pages_def)
  have "k < length (pageTables s' t) \<longleftrightarrow> k < length (pageTables s t)" for k
    unfolding table_in_range using entry [of k] by (cases "get_entry (PageEntry t k) s"; cases "get_entry (PageEntry t k) s'") auto
  then show len: "length (pageTables s' t) = length (pageTables s t)" by (metis linorder_neqE_nat less_irrefl)
  have "physicalPage (pageTables s' t ! k) = physicalPage (pageTables s t ! k)" if "k < length (pageTables s t)" for k
    using entry [of k] that len by (simp add: table_entry)
  then show "table_pages t s' = table_pages t s" using len by (intro nth_equalityI) (simp_all add: table_pages_def)
qed

lemmas same_map_table = same_pages_table [OF same_map_pages]

lemma os_ok_paged:
  assumes os: "os_ok invar pages i s" and s': "vm_ok invar pages i s'" "same_pages s s'" "swap_used s' = swap_used s"
    "next_table (kern s') = next_table (kern s)"
  shows "os_ok invar pages i s'"
proof -
  have v: "private_pages s" "pages_live s" using os by (simp_all add: os_ok_def)
  have "pages_live s'"
    unfolding pages_live_def
  proof (intro allI impI)
    fix q e assume "get_entry q s' = Inr e"
    from same_pages_back [OF s'(2) this] obtain e0 where "get_entry q s = Inr e0" "physicalPage e0 = physicalPage e" .
    with v(2) s'(3) show "physicalPage e \<in> swap_used s'" by (metis pages_live_def)
  qed
  moreover have "private_pages s'"
    unfolding private_pages_def
  proof (intro allI impI)
    fix q q' e e' assume a: "get_entry q s' = Inr e" "get_entry q' s' = Inr e'" "physicalPage e = physicalPage e'"
      "physicalPage e \<in> swap_used s'"
    obtain e0 where 0: "get_entry q s = Inr e0" "physicalPage e0 = physicalPage e" by (rule same_pages_back [OF s'(2) a(1)])
    obtain e1 where 1: "get_entry q' s = Inr e1" "physicalPage e1 = physicalPage e'" by (rule same_pages_back [OF s'(2) a(2)])
    show "q = q'" by (rule private_pagesD [OF v(1) 0(1) 1(1)]) (use 0(2) 1(2) a(3,4) s'(3) in simp_all)
  qed
  moreover have "tables_new s'"
    using os s'(4) same_pages_table(2) [OF s'(2)] unfolding os_ok_def tables_new_def by (metis length_0_conv)
  ultimately show ?thesis using s'(1) by (simp add: os_ok_def)
qed

text \<open>The address space \<open>a\<close> with page table \<open>t\<close> belongs to the current thread.\<close>

definition user_ctx :: "nat \<Rightarrow> nat \<Rightarrow> 'p os \<Rightarrow> bool" where
  "user_ctx a t s \<longleftrightarrow>
     space_of (kern s) (thread s) = Ptr a \<and>
     (\<exists>b. spaces (kern s) a = Some \<lparr>as_pcb = Ptr b, numPages = int (length (pageTables s t)), as_pageTable = Ptr t\<rparr>)"

lemma user_ctx_cong:
  assumes "vm.more (kern s') = vm.more (kern s)" "same_pages s s'" shows "user_ctx a t s' = user_ctx a t s"
  using more_fields [OF assms(1)] same_pages_table(2) [OF assms(2)] by (simp add: user_ctx_def)

lemma table_bound:
  assumes "os_ok invar pages i s" shows "length (pageTables s t) \<le> 512"
proof -
  have v: "vm_base i s" "private_pages s" "pages_live s" using assms by (simp_all add: os_ok_def vm_ok_def)
  have "swap_used s \<subseteq> {0..<512}" using swap_used_range [OF v(1)] by auto
  then have "set (table_pages t s) \<subseteq> {0..<512}" using table_private(2) [OF v(2,3)] by blast
  then have "card (set (table_pages t s)) \<le> card {0..<512 :: int}" by (intro card_mono) simp_all
  with distinct_card [OF table_private(1) [OF v(2,3), of t]] show ?thesis by (simp add: table_pages_def)
qed

text \<open>A change of files other than the swap file and of the buffer.\<close>

lemma os_ok_host:
  assumes os: "os_ok invar pages i s" and u: "inodes u i = inodes (host (kern s)) i"
    "\<And>g j. stub_ok g j u = stub_ok g j (host (kern s))" and b: "length b = 128"
  defines "s' \<equiv> s\<lparr>kern := (kern s)\<lparr>host := u, diskBuffer := b\<rparr>\<rparr>"
  shows "os_ok invar pages i s'" "page_bytes i s' = page_bytes i s" "space_bytes i t s' = space_bytes i t s"
    "user_ctx a t s' = user_ctx a t s"
proof -
  show pb: "page_bytes i s' = page_bytes i s"
    by (simp add: s'_def fun_eq_iff page_bytes_def frame_bytes_def swap_bytes_def u(1) split: option.split)
  then show "space_bytes i t s' = space_bytes i t s" by (simp add: space_bytes_def table_pages_def s'_def)
  show "user_ctx a t s' = user_ctx a t s" by (simp add: s'_def user_ctx_def)
  have "vm_ok invar pages i s'"
    using os b by (simp add: s'_def os_ok_def vm_ok_def vm_base_def slot_ok_def swap_used_def active_def frame_bytes_def
        swap_bytes_def get_entry_cong u)
  then show "os_ok invar pages i s'"
    by (rule os_ok_paged [OF os]) (simp_all add: s'_def swap_used_def same_pages_def get_entry_cong)
qed

lemma space_bytes_cong:
  assumes "os_ok invar pages i s" "same_pages s s'" "\<forall>sq\<in>swap_used s. page_bytes i s' sq = page_bytes i s sq"
  shows "space_bytes i t s' = space_bytes i t s"
proof -
  have "set (table_pages t s) \<subseteq> swap_used s" using assms(1) table_private(2) by (auto simp: os_ok_def)
  with assms(3) show ?thesis
    unfolding space_bytes_def same_pages_table(1) [OF assms(2)] by (intro arg_cong [of _ _ concat] map_cong) auto
qed

text \<open>A part of one block of a list of blocks.\<close>

lemma concat_part:
  assumes "\<forall>x\<in>set xs. length x = 128" "k < length xs" "off + n \<le> 128"
  shows "take n (drop (k * 128 + off) (concat xs)) = take n (drop off (xs ! k))"
  using assms(1,2)
proof (induction xs arbitrary: k)
  case (Cons x xs)
  show ?case
  proof (cases k)
    case 0
    then show ?thesis using Cons.prems(1) assms(3) by simp
  next
    case (Suc m)
    then show ?thesis using Cons by (simp add: add.assoc)
  qed
qed simp

lemma put_bytes_join: "put_bytes (p + length a) b (put_bytes p a c) = put_bytes p (a @ b) c"
  using min_pad [of "length c" p] by (simp add: put_bytes_def add.commute add.left_commute)

lemma chunk_nat: "0 < n \<Longrightarrow> chunk 128 (int va) (int n) = int (min n (128 - va mod 128))"
proof -
  define off where "off = va mod 128"
  have off: "int va smod 128 = int off" "off < 128" by (simp_all add: off_def smod_nonneg zmod_int)
  have "chunk 128 (int va) (int n) = int (min n (128 - off))" if "0 < n"
    unfolding chunk_def Let_def off(1) [simplified] using off that by auto
  then show "0 < n \<Longrightarrow> ?thesis" by (simp add: off_def)
qed

lemma os_space_length:
  assumes "os_ok invar pages i s" shows "length (space_bytes i t s) = 128 * length (pageTables s t)"
  using assms table_private(2) by (intro length_space_bytes) (auto simp: os_ok_def)

lemma space_part:
  assumes os: "os_ok invar pages i s" and va: "va div 128 < length (pageTables s t)" "va mod 128 + n \<le> 128"
  shows "take n (drop (va mod 128) (page_bytes i s (table_pages t s ! (va div 128)))) = take n (drop va (space_bytes i t s))"
proof -
  let ?xs = "map (page_bytes i s) (table_pages t s)"
  have vm: "vm_ok invar pages i s" "private_pages s" "pages_live s" using os by (simp_all add: os_ok_def)
  have "\<forall>x\<in>set ?xs. length x = 128"
    using length_page_bytes [OF vm(1)] table_private(2) [OF vm(2,3), of t] by auto
  moreover have "va div 128 < length ?xs" using va(1) by (simp add: table_pages_def)
  ultimately have "take n (drop (va div 128 * 128 + va mod 128) (concat ?xs)) = take n (drop (va mod 128) (?xs ! (va div 128)))"
    using va(2) by (rule concat_part)
  with va(1) show ?thesis by (simp add: space_bytes_def table_pages_def)
qed

context replacement_policy
begin

lemma user_addr_ok:
  assumes os: "os_ok invar pages i s" and c: "user_ctx a t s" and P: "ev_policy E = P"
    and va: "va < 128 * length (pageTables s t)"
  defines "sp \<equiv> table_pages t s ! (va div 128)"
  obtains k s' where "user_addr E (int va) s = Inr (int (k * 128 + va mod 128), s')" "brings_in invar pages i sp k s s'"
    "paging_frame {i} s s'" "os_ok invar pages i s'" "user_ctx a t s'" "space_bytes i t s' = space_bytes i t s"
proof -
  let ?v = "va div 128" and ?q = "PageEntry t (va div 128)"
  have v: "?v < length (pageTables s t)" using va by (simp add: less_mult_imp_div_less mult.commute)
  have vm: "vm_ok invar pages i s" "private_pages s" "pages_live s" using os by (simp_all add: os_ok_def)
  have e: "get_entry ?q s = Inr (pageTables s t ! ?v)" by (rule table_entry [OF v])
  have sp: "physicalPage (pageTables s t ! ?v) = sp" using v by (simp add: sp_def table_pages_def)
  have "sp \<in> swap_used s" using e vm(3) sp by (auto simp: pages_live_def)
  with vm_getPhysicalPage_ok [OF vm(1) e] sp obtain k s' where
    s': "vm_getPhysicalPage P ?q s = Inr (int k, s')" "brings_in invar pages i sp k s s'" by auto
  have sw: "swap_on i s" using vm(1) by (auto simp: vm_ok_def vm_base_def swap_on_def)
  note fr = vm_getPhysicalPage_frame [OF sw s'(1)]
  have b: "vm_ok invar pages i s'" "same_pages s s'" "swap_used s' = swap_used s" "vm.more (kern s') = vm.more (kern s)"
      "\<forall>sq\<in>swap_used s. page_bytes i s' sq = page_bytes i s sq"
    using s'(2) same_map_pages by (auto simp: brings_in_def swap_used_def)
  have "int va sdiv 128 = int ?v" "int va smod 128 = int (va mod 128)"
    by (simp_all add: sdiv_nonneg smod_nonneg zdiv_int zmod_int)
  moreover have "?v < 2 ^ 32" using v table_bound [OF os, of t] by simp
  then have "uint (word_of_int (int ?v) :: 32 word) = int ?v" by (simp add: unsigned_of_nat take_bit_nat_eq_self)
  moreover obtain b where "cur_space s = Inr a"
      "spaces (kern s) a = Some \<lparr>as_pcb = Ptr b, numPages = int (length (pageTables s t)), as_pageTable = Ptr t\<rparr>"
    using c by (auto simp: user_ctx_def cur_space_def ptr_def)
  ultimately have "user_addr E (int va) s = Inr (int (k * 128 + va mod 128), s')"
    using v s'(1) P by (simp add: user_addr_def space_Translate_def deref_def ptr_def)
  moreover have "os_ok invar pages i s'" using more_fields(4) [OF b(4)] by (intro os_ok_paged [OF os b(1-3)]) simp
  moreover have "user_ctx a t s'" using c user_ctx_cong [OF b(4,2)] by simp
  ultimately show thesis using fr s'(2) space_bytes_cong [OF os b(2,5)] by (intro that)
qed

lemma getMem_ok:
  assumes os: "os_ok invar pages i s" and c: "user_ctx a t s" and P: "ev_policy E = P"
    and va: "va + n \<le> 128 * length (pageTables s t)" "va mod 128 + n \<le> 128" "0 < n"
  obtains s' where "getMemFromVAddr E (int va) (int n) s = Inr (take n (drop va (space_bytes i t s)), s')"
    "paging_frame {i} s s'" "os_ok invar pages i s'" "user_ctx a t s'" "space_bytes i t s' = space_bytes i t s"
    "length (pageTables s' t) = length (pageTables s t)"
proof -
  have lt: "va < 128 * length (pageTables s t)" using va by simp
  let ?sp = "table_pages t s ! (va div 128)"
  obtain k s' where s': "user_addr E (int va) s = Inr (int (k * 128 + va mod 128), s')" "brings_in invar pages i ?sp k s s'"
    "paging_frame {i} s s'" "os_ok invar pages i s'" "user_ctx a t s'" "space_bytes i t s' = space_bytes i t s"
    by (rule user_addr_ok [OF os c P lt]) (rule that)
  have b: "vm_ok invar pages i s'" "same_map s s'" "k < 32" "activePageMap (kern s') ! k = ?sp" "swap_used s' = swap_used s"
      "\<forall>sq\<in>swap_used s. page_bytes i s' sq = page_bytes i s sq"
    using s'(2) by (auto simp: brings_in_def swap_used_def)
  have v: "va div 128 < length (pageTables s t)" using lt by (simp add: less_mult_imp_div_less mult.commute)
  have vm: "vm_ok invar pages i s" "private_pages s" "pages_live s" using os by (simp_all add: os_ok_def)
  have live: "set (table_pages t s) \<subseteq> swap_used s" by (rule table_private(2) [OF vm(2,3)])
  have "?sp \<in> set (table_pages t s)" by (rule nth_mem) (use v in \<open>simp add: table_pages_def\<close>)
  then have used: "?sp \<in> swap_used s" using live by blast
  have u': "?sp \<in> swap_used s'" using used b(5) by simp
  have "int (k * 128 + va mod 128) + int n \<le> 4096" using b(3) va(2) by linarith
  then have "main_get (int (k * 128 + va mod 128)) (int n) s' = Inr (mem_bytes (mainMemory s') (k * 128 + va mod 128) n)"
    by (simp add: main_get_def nat_plus_as_int)
  also have "mem_bytes (mainMemory s') (k * 128 + va mod 128) n = take n (drop (va mod 128) (frame_bytes s' k))"
    unfolding frame_bytes_def by (rule mem_bytes_part [OF va(2)])
  also have "frame_bytes s' k = page_bytes i s ?sp" using page_bytes_frame(1) [OF b(1,3,4) u'] b(6) used by simp
  also have "take n (drop (va mod 128) (page_bytes i s ?sp)) = take n (drop va (space_bytes i t s))"
    by (rule space_part [OF os v va(2)])
  finally have "getMemFromVAddr E (int va) (int n) s = Inr (take n (drop va (space_bytes i t s)), s')"
    using s'(1) by (simp add: getMemFromVAddr_def)
  with s'(3-6) same_map_table(2) [OF b(2)] show thesis by (intro that)
qed

text \<open>One round of \<^verbatim>\<open>myWrite\<close>: a piece of the memory of the process goes to the file.\<close>

lemma write_chunk_ok:
  assumes os: "os_ok invar pages i s" and c: "user_ctx a t s" and P: "ev_policy E = P"
    and f: "host_file u s = Inr f" "stub_ok f j (host (kern s))" "j \<noteq> i"
    and va: "va + n \<le> 128 * length (pageTables s t)" "va mod 128 + n \<le> 128" "0 < n" and pos: "0 \<le> pos"
  obtains s' where "write_chunk E u (int va) (int n) pos s = Inr s'" "paging_frame {i, j} s s'"
    "os_ok invar pages i s'" "user_ctx a t s'" "space_bytes i t s' = space_bytes i t s"
    "length (pageTables s' t) = length (pageTables s t)"
    "inodes (host (kern s')) j = put_bytes (nat pos) (take n (drop va (space_bytes i t s))) (inodes (host (kern s)) j)"
proof -
  let ?bs = "take n (drop va (space_bytes i t s))"
  have db: "length (diskBuffer (kern s)) = 128" using os by (simp add: os_ok_def vm_ok_def vm_base_def)
  define s1 where "s1 = s\<lparr>kern := (kern s)\<lparr>host := host (kern s), diskBuffer := replicate 128 0\<rparr>\<rparr>"
  have z: "bzero_buffer s = Inr s1" using db by (simp add: bzero_buffer_def fill_buffer_def s1_def)
  note h1 = os_ok_host [OF os refl refl, of "replicate 128 0", folded s1_def, OF length_replicate]
  have pt1: "pageTables s1 = pageTables s" by (simp add: s1_def)
  have c1: "user_ctx a t s1" using c h1(4) by simp
  obtain s2 where s2: "getMemFromVAddr E (int va) (int n) s1 = Inr (?bs, s2)" "paging_frame {i} s1 s2" "os_ok invar pages i s2"
      "user_ctx a t s2" "space_bytes i t s2 = space_bytes i t s" "length (pageTables s2 t) = length (pageTables s t)"
    by (rule getMem_ok [OF h1(1) c1 P, unfolded pt1 h1(3), OF va]) (rule that)
  have fr2: "paging_frame {i} s s2"
    by (rule paging_frame_trans [OF _ s2(2)]) (simp add: s1_def paging_frame_def)
  have n: "length ?bs = n" using va os_space_length [OF os, of t] by simp
  have db2: "length (diskBuffer (kern s2)) = 128" using s2(3) by (simp add: os_ok_def vm_ok_def vm_base_def)
  define buf where "buf = ?bs @ drop n (diskBuffer (kern s2))"
  have buf: "length buf = 128" "take n buf = ?bs" using n db2 va(2) by (simp_all add: buf_def)
  have fill: "fill_buffer ?bs s2 = Inr (s2\<lparr>kern := (kern s2)\<lparr>diskBuffer := buf\<rparr>\<rparr>)"
    using n db2 va(2) by (simp add: fill_buffer_def buf_def)
  have more: "vm.more (kern s2) = vm.more (kern s)" and st: "\<And>g j. stub_ok g j (host (kern s2)) = stub_ok g j (host (kern s))"
    and ino: "inodes (host (kern s2)) j = inodes (host (kern s)) j"
    using fr2 f(3) by (simp_all add: paging_frame_def)
  have hf: "host_file u (s2\<lparr>kern := (kern s2)\<lparr>diskBuffer := buf\<rparr>\<rparr>) = Inr f"
    using f(1) more_fields(1) [OF more] by (simp add: host_file_def)
  have "stub_ok f j (host (kern s2))" using f(2) st by simp
  moreover have "0 \<le> int n" "int n \<le> int (length buf)" using buf(1) va(2) by simp_all
  ultimately obtain w where w: "stub_WriteAt f buf (int n) pos (host (kern s2)) = Inr (int n, w)"
      "inodes w = (inodes (host (kern s2)))(j := put_bytes (nat pos) (take (nat (int n)) buf) (inodes (host (kern s2)) j))"
      "\<And>g j. stub_ok g j w = stub_ok g j (host (kern s2))"
    by (rule stub_WriteAt_ok [OF _ pos]) (rule that)
  define s3 where "s3 = s2\<lparr>kern := (kern s2)\<lparr>host := w, diskBuffer := buf\<rparr>\<rparr>"
  have run: "write_chunk E u (int va) (int n) pos s = Inr s3"
    using z s2(1) fill hf w(1) by (simp add: write_chunk_def in_host_def s3_def)
  have wi: "inodes w i = inodes (host (kern s2)) i" using w(2) f(3) by simp
  note h3 = os_ok_host [OF s2(3) wi w(3) buf(1), folded s3_def]
  have "paging_frame {i, j} s s2" using fr2 by (simp add: paging_frame_def)
  moreover have "paging_frame {i, j} s2 s3" using w(2,3) by (simp add: s3_def paging_frame_def)
  ultimately have "paging_frame {i, j} s s3" by (rule paging_frame_trans)
  moreover have "inodes (host (kern s3)) j = put_bytes (nat pos) ?bs (inodes (host (kern s)) j)"
    using w(2) ino buf(2) by (simp add: s3_def)
  moreover have "pageTables s3 = pageTables s2" by (simp add: s3_def)
  ultimately show thesis using run h3 s2(4-6) by (intro that [of s3]) simp_all
qed

lemma write_loop_ok:
  assumes "os_ok invar pages i s" "user_ctx a t s" "ev_policy E = P"
    and "host_file u s = Inr f" "stub_ok f j (host (kern s))" "j \<noteq> i"
    and "va + n \<le> 128 * length (pageTables s t)" "0 \<le> pos"
  shows "\<exists>s'. write_loop E u (int va) (int n) pos s = Inr (pos + int n, s') \<and> paging_frame {i, j} s s' \<and>
    os_ok invar pages i s' \<and> user_ctx a t s' \<and> space_bytes i t s' = space_bytes i t s \<and>
    inodes (host (kern s')) j = (if n = 0 then inodes (host (kern s)) j
      else put_bytes (nat pos) (take n (drop va (space_bytes i t s))) (inodes (host (kern s)) j))"
  using assms
proof (induction n arbitrary: va pos s rule: less_induct)
  case (less n)
  note pre = less.prems
  show ?case
  proof (cases "n = 0")
    case True
    then show ?thesis using pre by (simp add: write_loop.simps)
  next
    case False
    let ?b = "space_bytes i t s"
    define m where "m = min n (128 - va mod 128)"
    have m: "chunk PageSize (int va) (int n) = int m" "m \<le> n" "0 < m" "va mod 128 + m \<le> 128" "va + m \<le> 128 * length (pageTables s t)"
      using False pre(7) by (auto simp: chunk_nat m_def)
    obtain s1 where s1: "write_chunk E u (int va) (int m) pos s = Inr s1" "paging_frame {i, j} s s1"
        "os_ok invar pages i s1" "user_ctx a t s1" "space_bytes i t s1 = ?b" "length (pageTables s1 t) = length (pageTables s t)"
        "inodes (host (kern s1)) j = put_bytes (nat pos) (take m (drop va ?b)) (inodes (host (kern s)) j)"
      by (rule write_chunk_ok [OF pre(1-6) m(5,4,3) pre(8)]) (rule that)
    have k1: "host_file u s1 = Inr f" "stub_ok f j (host (kern s1))"
      using pre(4,5) s1(2) more_fields(1) [of "kern s1" "kern s"] by (simp_all add: paging_frame_def host_file_def)
    have "n - m < n" "va + m + (n - m) \<le> 128 * length (pageTables s1 t)" "0 \<le> pos + int m" using m pre(7,8) s1(6) by simp_all
    from less.IH [OF this(1) s1(3,4) pre(3) k1 pre(6) this(2,3)] obtain s2 where
      s2: "write_loop E u (int (va + m)) (int (n - m)) (pos + int m) s1 = Inr (pos + int m + int (n - m), s2)"
        "paging_frame {i, j} s1 s2" "os_ok invar pages i s2" "user_ctx a t s2" "space_bytes i t s2 = ?b"
        "inodes (host (kern s2)) j = (if n - m = 0 then inodes (host (kern s1)) j
          else put_bytes (nat (pos + int m)) (take (n - m) (drop (va + m) ?b)) (inodes (host (kern s1)) j))"
      unfolding s1(5) by blast
    have run: "write_loop E u (int va) (int n) pos s = Inr (pos + int n, s2)"
      using False m(1,2) s1(1) s2(1) by (subst write_loop.simps) simp
    have "length (take m (drop va ?b)) = m" using os_space_length [OF pre(1), of t] m(5) by simp
    then have "inodes (host (kern s2)) j =
        put_bytes (nat pos) (take m (drop va ?b) @ take (n - m) (drop (va + m) ?b)) (inodes (host (kern s)) j)"
      using s2(6) s1(7) put_bytes_join [of "nat pos" "take m (drop va ?b)"] pre(8) by (simp add: nat_add_distrib)
    also have "take m (drop va ?b) @ take (n - m) (drop (va + m) ?b) = take n (drop va ?b)"
      using take_add [of m "n - m" "drop va ?b"] m(2) by (simp add: add.commute)
    finally show ?thesis using run paging_frame_trans [OF s1(2) s2(2)] s2(3-5) False by (intro exI [of _ s2]) simp
  qed
qed

lemma write_file_ok:
  assumes os: "os_ok invar pages i s" and c: "user_ctx a t s" and P: "ev_policy E = P"
    and u: "user_file fd s = Inr u" "user_files (pr (kern s)) u = Some uf" "0 \<le> uof_position uf"
    and f: "host_file u s = Inr f" "stub_ok f j (host (kern s))" "j \<noteq> i"
    and va: "va + n \<le> 128 * length (pageTables s t)"
  shows "\<exists>s' p'. write_file E (int va) (int n) fd s = Inr (set_pr p' s') \<and> paging_frame {i, j} s s' \<and>
    p' = (pr (kern s))\<lparr>user_files := (user_files (pr (kern s)))(u \<mapsto> uf\<lparr>uof_position := uof_position uf + int n\<rparr>)\<rparr> \<and>
    os_ok invar pages i (set_pr p' s') \<and> space_bytes i t (set_pr p' s') = space_bytes i t s \<and>
    inodes (host (kern s')) j = (if n = 0 then inodes (host (kern s)) j
      else put_bytes (nat (uof_position uf)) (take n (drop va (space_bytes i t s))) (inodes (host (kern s)) j))"
proof -
  from write_loop_ok [OF os c P f va u(3)] obtain s1 where
    s1: "write_loop E u (int va) (int n) (uof_position uf) s = Inr (uof_position uf + int n, s1)" "paging_frame {i, j} s s1"
      "os_ok invar pages i s1" "space_bytes i t s1 = space_bytes i t s"
      "inodes (host (kern s1)) j = (if n = 0 then inodes (host (kern s)) j
        else put_bytes (nat (uof_position uf)) (take n (drop va (space_bytes i t s))) (inodes (host (kern s)) j))"
    by (elim exE conjE)
  define p' where "p' = (pr (kern s))\<lparr>user_files := (user_files (pr (kern s)))(u \<mapsto> uf\<lparr>uof_position := uof_position uf + int n\<rparr>)\<rparr>"
  have pr1: "pr (kern s1) = pr (kern s)" using s1(2) by (intro more_fields(1)) (simp add: paging_frame_def)
  then have run: "write_file E (int va) (int n) fd s = Inr (set_pr p' s1)"
    using u(1,2) s1(1) by (simp add: write_file_def set_position_def deref_def p'_def)
  have tr: "vm.truncate ((kern s1)\<lparr>pr := p'\<rparr>) = vm.truncate (kern s1)" by (simp add: vm.defs)
  have "os_ok invar pages i (set_pr p' s1)" using s1(3) by (simp add: os_ok_other [OF tr])
  moreover have "space_bytes i t (set_pr p' s1) = space_bytes i t s" using s1(4) by (simp add: other_kernel_state(5) [OF tr])
  ultimately show ?thesis using run s1(2,5) p'_def by (intro exI [of _ s1] exI [of _ p']) simp
qed

text \<open>The page fault handler: the page comes into a frame, with its content, and its entry is valid.\<close>

lemma fault_in_ok:
  assumes os: "os_ok invar pages i s" and c: "user_ctx a t s" and P: "ev_policy E = P"
    and va: "va < 128 * length (pageTables s t)" and out: "table_pages t s ! (va div 128) \<notin> set (activePageMap (kern s))"
  obtains s' e u d where "fault_in E (int va) s = Inr s'" "os_ok invar pages i s'" "paging_frame {i} s s'" "same_pages s s'"
    "user_ctx a t s'" "space_bytes i t s' = space_bytes i t s" "\<forall>sq\<in>swap_used s. page_bytes i s' sq = page_bytes i s sq"
    "get_entry (PageEntry t (va div 128)) s = Inr e"
    "get_entry (PageEntry t (va div 128)) s' = Inr (e\<lparr>use := u, dirty := d, valid := True\<rparr>)" "swap_used s' = swap_used s"
    "table_pages t s ! (va div 128) \<in> swap_used s"
proof -
  let ?q = "PageEntry t (va div 128)" and ?sp = "table_pages t s ! (va div 128)"
  have v: "va div 128 < length (pageTables s t)" using va by (simp add: less_mult_imp_div_less mult.commute)
  have vm: "vm_ok invar pages i s" "pages_live s" using os by (simp_all add: os_ok_def)
  define e where "e = pageTables s t ! (va div 128)"
  have e: "get_entry ?q s = Inr e" "physicalPage e = ?sp" using v by (simp_all add: e_def table_entry table_pages_def)
  have used: "?sp \<in> swap_used s" using e vm(2) unfolding pages_live_def by metis
  obtain k s1 where s1: "vm_swap P ?q s = Inr (int k, s1)" "brings_in invar pages i ?sp k s s1"
    using vm_swap_ok [OF vm(1) e(1)] e(2) used out by auto
  have b: "vm_ok invar pages i s1" "same_map s s1" "swap_used s1 = swap_used s" "vm.more (kern s1) = vm.more (kern s)"
      "\<forall>sq\<in>swap_used s. page_bytes i s1 sq = page_bytes i s sq"
    using s1(2) by (auto simp: brings_in_def swap_used_def)
  obtain u d where e1: "get_entry ?q s1 = Inr (e\<lparr>use := u, dirty := d\<rparr>)" by (rule same_map_entry [OF b(2) e(1)])
  let ?e = "e\<lparr>use := u, dirty := d, valid := True\<rparr>"
  obtain s2 where s2: "set_entry ?q ?e s1 = Inr s2" using set_entry_exists [OF e1] by blast
  note t = vm_ok_entry [OF b(1) e1 s2]
  have t: "vm_ok invar pages i s2" "\<And>sq. page_bytes i s2 sq = page_bytes i s1 sq" "swap_used s2 = swap_used s1"
    by (rule t; simp)+
  have ge: "get_entry r s2 = (if r = ?q then Inr ?e else get_entry r s1)" for r by (rule set_entry_other [OF s2])
  have sp: "same_pages s s2"
    by (rule same_pages_trans [OF same_map_pages [OF b(2)]]) (simp add: same_pages_def ge e1)
  have sw: "swap_on i s" using vm(1) by (auto simp: vm_ok_def vm_base_def swap_on_def)
  have fr: "paging_frame {i} s s2"
    by (rule paging_frame_trans [OF vm_swap_frame [OF sw s1(1)] set_entry_paging [OF s2]])
  have m2: "vm.more (kern s2) = vm.more (kern s)" using fr by (simp add: paging_frame_def)
  have os2: "os_ok invar pages i s2" by (rule os_ok_paged [OF os t(1) sp]) (use t(3) b(3) more_fields(4) [OF m2] in simp_all)
  have pb: "\<forall>sq\<in>swap_used s. page_bytes i s2 sq = page_bytes i s sq" using t(2) b(5) by simp
  obtain b' where "cur_space s = Inr a"
      "spaces (kern s) a = Some \<lparr>as_pcb = Ptr b', numPages = int (length (pageTables s t)), as_pageTable = Ptr t\<rparr>"
    using c by (auto simp: user_ctx_def cur_space_def ptr_def)
  moreover have "int va sdiv 128 = int (va div 128)" by (simp add: sdiv_nonneg zdiv_int)
  ultimately have run: "fault_in E (int va) s = Inr s2"
    using v s1(1) P e1 s2 by (simp add: fault_in_def deref_def ptr_def)
  show thesis
    by (rule that [OF run os2 fr sp _ space_bytes_cong [OF os sp pb] pb e(1)])
      (use user_ctx_cong [OF m2 sp] c ge t(3) b(3) used in simp_all)
qed

end

subsection \<open>The interrupt level\<close>

text \<open>No handler is running and no interrupt is due at the next tick.\<close>

definition quiet :: "'k hw \<Rightarrow> bool" where
  "quiet s \<longleftrightarrow> \<not> inHandler s \<and> \<not> yieldOnReturn s \<and> (\<forall>(w, p)\<in>set (pending s). totalTicks (stats (tick s)) < w)"

lemma quiet_cong:
  fixes s s' :: "'k hw"
  assumes "inHandler s' = inHandler s" "yieldOnReturn s' = yieldOnReturn s" "pending s' = pending s" "stats s' = stats s"
    "status s' = status s"
  shows "quiet s' = quiet s"
proof -
  have "totalTicks (stats (tick s)) = totalTicks (stats s) + (if status s = SystemMode then SystemTick else UserTick)"
    for s :: "'k hw" by (simp add: tick_def)
  with assms show ?thesis by (simp add: quiet_def)
qed

lemma set_level_off: "set_level E IntOff s = Some (Inr (level s, s\<lparr>level := IntOff\<rparr>))"
  by (simp add: set_level_def SetLevel_def ChangeLevel_def)

lemma restore_level_off: "level s = IntOff \<Longrightarrow> restore_level E IntOff s = Some (Inr s)"
  by (simp add: restore_level_def set_level_def SetLevel_def ChangeLevel_def)

lemma restore_level_on:
  assumes "quiet s" "level s = IntOff"
  obtains pd where "restore_level E IntOn s = Some (Inr ((tick s)\<lparr>level := IntOn, pending := pd\<rparr>))"
proof -
  let ?s = "(tick s)\<lparr>level := IntOff\<rparr>"
  have t: "pending ?s = pending s" "yieldOnReturn (tick s) = yieldOnReturn s" "inHandler s = False"
    using assms(1) by (simp_all add: tick_def quiet_def)
  have "\<exists>pd. run_due True (ev_call E) ?s = Some (Inr (?s\<lparr>pending := pd\<rparr>))"
  proof (cases "pending s")
    case Nil
    have "?s\<lparr>pending := pending ?s\<rparr> = ?s" by simp
    then have "?s\<lparr>pending := []\<rparr> = ?s" using t(1) Nil by (simp only:)
    with Nil t show ?thesis by (subst run_due.simps) (intro exI [of _ "[]"], simp add: CheckIfDue_def)
  next
    case (Cons e es)
    obtain w p where e: "e = (w, p)" by (cases e)
    then have "\<not> w \<le> totalTicks (stats ?s)" using assms(1) Cons by (auto simp: quiet_def)
    then show ?thesis
      using t Cons e by (subst run_due.simps) (simp add: CheckIfDue_def Let_def, blast)
  qed
  then obtain pd where "run_due True (ev_call E) ?s = Some (Inr (?s\<lparr>pending := pd\<rparr>))" by blast
  moreover have "tick (s\<lparr>level := IntOn\<rparr>) = (tick s)\<lparr>level := IntOn\<rparr>" by (simp add: tick_def)
  ultimately have "restore_level E IntOn s = Some (Inr ((tick s)\<lparr>level := IntOn, pending := pd\<rparr>))"
    using assms t by (simp add: restore_level_def set_level_def SetLevel_def ChangeLevel_def OneTick_def Let_def quiet_def)
  then show thesis by (rule that)
qed

text \<open>Registers, levels, pending interrupts and statistics play no part in the memory of the processes.\<close>

definition same_core :: "'k hw \<Rightarrow> 'k hw \<Rightarrow> bool" where
  "same_core s s' \<longleftrightarrow>
     mainMemory s' = mainMemory s \<and> tlb s' = tlb s \<and> pageTables s' = pageTables s \<and> kern s' = kern s"

lemma same_coreD:
  fixes s s' :: "'p os"
  assumes "same_core s s'"
  shows "os_ok invar pages i s' = os_ok invar pages i s" "page_bytes i s' = page_bytes i s"
    "space_bytes i t s' = space_bytes i t s" "user_ctx a t s' = user_ctx a t s" "get_entry q s' = get_entry q s"
    "swap_used s' = swap_used s" "swap_bytes i s' = swap_bytes i s"
proof -
  have c: "mainMemory s' = mainMemory s" "tlb s' = tlb s" "pageTables s' = pageTables s" "kern s' = kern s"
    using assms by (simp_all add: same_core_def)
  show pb: "page_bytes i s' = page_bytes i s"
    by (simp add: fun_eq_iff page_bytes_def frame_bytes_def swap_bytes_def c split: option.split)
  show ge: "get_entry q s' = get_entry q s" for q by (simp add: get_entry_def c split: entry_ptr.split)
  show "space_bytes i t s' = space_bytes i t s" by (simp add: space_bytes_def table_pages_def pb c)
  show "user_ctx a t s' = user_ctx a t s" by (simp add: user_ctx_def c)
  show "swap_used s' = swap_used s" "swap_bytes i s' = swap_bytes i s" by (simp_all add: swap_used_def swap_bytes_def fun_eq_iff c)
  show "os_ok invar pages i s' = os_ok invar pages i s"
    by (simp add: os_ok_def vm_ok_def vm_base_def slot_ok_def swap_used_def active_def frame_bytes_def swap_bytes_def
        private_pages_def pages_live_def tables_new_def ge c)
qed

text \<open>The end of a system call that has run with interrupts disabled.\<close>

definition back_to_user :: "'p os \<Rightarrow> 'p os \<Rightarrow> bool" where
  "back_to_user s s' \<longleftrightarrow>
     same_core s s' \<and> level s' = IntOn \<and> inHandler s' = inHandler s \<and> pageTable s' = pageTable s \<and>
     pageTableSize s' = pageTableSize s \<and>
     registers s' = (registers s)(PrevPCReg := registers s PCReg, PCReg := registers s NextPCReg,
                                  NextPCReg := registers s NextPCReg + 4)"

lemma end_syscall_ok:
  assumes "quiet s" "level s = IntOff"
  obtains s' where "obind (completes (restore_level E IntOn s)) (\<lambda>r. returns (Inr (end_syscall r))) = Some (Inr (Completes, s'))"
    "back_to_user s s'"
proof -
  obtain pd where pd: "restore_level E IntOn s = Some (Inr ((tick s)\<lparr>level := IntOn, pending := pd\<rparr>))"
    by (rule restore_level_on [OF assms])
  let ?s = "(tick s)\<lparr>level := IntOn, pending := pd\<rparr>"
  have "back_to_user s (incrementPC ?s)"
    by (simp add: back_to_user_def same_core_def incrementPC_def tick_def reg_defs fun_eq_iff)
  moreover have "obind (completes (restore_level E IntOn s)) (\<lambda>r. returns (Inr (end_syscall r))) =
      Some (Inr (Completes, incrementPC ?s))" by (simp add: pd completes_def end_syscall_def)
  ultimately show thesis by (intro that)
qed

lemma syscall_registers:
  assumes "cur_pid s = Inr pid"
  shows "ExceptionHandler E SyscallException s =
    obind (syscall E (sint (registers s 2)) (sint (registers s 4)) (sint (registers s 5)) (sint (registers s 6)) s)
      (\<lambda>r. returns (Inr (end_syscall r)))"
  using assms by (simp add: ExceptionHandler_def ReadRegister_def reg_defs)

text \<open>
  C37: the system call Write copies the memory of the process to the file. For a process whose kernel state is
  consistent, an open descriptor, a buffer inside the address space and no interrupt due, the call returns to the instruction after
  it; the \<open>n\<close> bytes of the file from the position of the descriptor on are those of the memory of the
  process at the address, wherever its pages are and across page boundaries; the position has
  moved by \<open>n\<close>; the memory of the process, all other files and all other descriptors are as before.
\<close>

theorem write_call_copies_memory:
  fixes s :: "RandomReplacement os"
  assumes os: "os_ok rr_ok rr_pages i s" and c: "user_ctx a t s" and P: "ev_policy E = RandomReplacement_policy"
    and q: "quiet s" "level s = IntOn" and pid: "cur_pid s = Inr pid"
    and r: "sint (registers s 2) = SC_Write" "sint (registers s 4) = int va" "sint (registers s 5) = int n"
      "sint (registers s 6) = fd" "fd \<noteq> ConsoleOutput"
    and u: "user_file fd s = Inr u" "user_files (pr (kern s)) u = Some uf" "0 \<le> uof_position uf"
    and f: "host_file u s = Inr f" "stub_ok f j (host (kern s))" "j \<noteq> i"
    and va: "0 < n" "va + n \<le> 128 * length (pageTables s t)"
  shows "\<exists>s'. ExceptionHandler E SyscallException s = Some (Inr (Completes, s')) \<and> os_ok rr_ok rr_pages i s' \<and>
    inodes (host (kern s')) j =
      put_bytes (nat (uof_position uf)) (take n (drop va (space_bytes i t s))) (inodes (host (kern s)) j) \<and>
    user_files (pr (kern s')) = (user_files (pr (kern s)))(u \<mapsto> uf\<lparr>uof_position := uof_position uf + int n\<rparr>) \<and>
    space_bytes i t s' = space_bytes i t s \<and> (\<forall>k. k \<notin> {i, j} \<longrightarrow> inodes (host (kern s')) k = inodes (host (kern s)) k) \<and>
    registers s' PCReg = registers s NextPCReg \<and> registers s' NextPCReg = registers s NextPCReg + 4"
proof -
  let ?s = "s\<lparr>level := IntOff\<rparr>"
  have sc: "same_core s ?s" by (simp add: same_core_def)
  note d = same_coreD [OF sc]
  have pre: "os_ok rr_ok rr_pages i ?s" "user_ctx a t ?s" using os c d by simp_all
  have u1: "user_file fd ?s = Inr u" "user_files (pr (kern ?s)) u = Some uf" "host_file u ?s = Inr f" "stub_ok f j (host (kern ?s))"
      "va + n \<le> 128 * length (pageTables ?s t)"
    using u f va by (simp_all add: user_file_def cur_pcb_def cur_space_def space_pcb_def host_file_def)
  from random_policy.write_file_ok [OF pre P u1(1,2) u(3) u1(3,4) f(3) u1(5)] obtain s1 p' where
    s1: "write_file E (int va) (int n) fd ?s = Inr (set_pr p' s1)" "paging_frame {i, j} ?s s1"
      "p' = (pr (kern ?s))\<lparr>user_files := (user_files (pr (kern ?s)))(u \<mapsto> uf\<lparr>uof_position := uof_position uf + int n\<rparr>)\<rparr>"
      "os_ok rr_ok rr_pages i (set_pr p' s1)" "space_bytes i t (set_pr p' s1) = space_bytes i t ?s"
      "inodes (host (kern s1)) j = (if n = 0 then inodes (host (kern ?s)) j
        else put_bytes (nat (uof_position uf)) (take n (drop va (space_bytes i t ?s))) (inodes (host (kern ?s)) j))"
    by (elim exE conjE)
  have fr: "s1 = ?s\<lparr>mainMemory := mainMemory s1, tlb := tlb s1, pageTables := pageTables s1, kern := kern s1\<rparr>"
      "\<forall>k. k \<notin> {i, j} \<longrightarrow> inodes (host (kern s1)) k = inodes (host (kern s)) k"
    using s1(2) by (simp_all add: paging_frame_def)
  let ?s1 = "set_pr p' s1"
  have k: "level ?s1 = IntOff" "registers ?s1 = registers s" "inHandler ?s1 = inHandler s" "yieldOnReturn ?s1 = yieldOnReturn s"
      "pending ?s1 = pending s" "stats ?s1 = stats s" "status ?s1 = status s"
    by (subst fr(1), simp)+
  have q1: "quiet ?s1" using q(1) quiet_cong [OF k(3-7)] by simp
  obtain s' where s': "obind (completes (restore_level E IntOn ?s1)) (\<lambda>r. returns (Inr (end_syscall r))) = Some (Inr (Completes, s'))"
      "back_to_user ?s1 s'" by (rule end_syscall_ok [OF q1 k(1)])
  have "ExceptionHandler E SyscallException s = Some (Inr (Completes, s'))"
    using syscall_registers [OF pid] r s1(1) s'(1) q(2) by (simp add: syscall_def myWrite_def set_level_off syscall_consts)
  moreover have sc': "same_core ?s1 s'" "registers s' PCReg = registers s NextPCReg" "registers s' NextPCReg = registers s NextPCReg + 4"
    using s'(2) k(2) by (simp_all add: back_to_user_def reg_defs)
  moreover have "kern s' = kern ?s1" using sc'(1) by (simp add: same_core_def)
  ultimately show ?thesis
    using s1(3-6) fr(2) same_coreD [OF sc'(1)] d(3) va(1) by (intro exI [of _ s']) simp
qed

subsection \<open>Page faults\<close>

lemma os_space_put:
  assumes os: "os_ok invar pages i s" and k: "k < length (pageTables s t)" and sp: "same_pages s s'" and off: "off + length bs \<le> 128"
    and new: "page_bytes i s' (table_pages t s ! k) = put_bytes off bs (page_bytes i s (table_pages t s ! k))"
    and old: "\<forall>sq\<in>swap_used s - {table_pages t s ! k}. page_bytes i s' sq = page_bytes i s sq"
  shows "space_bytes i t s' = put_bytes (k * 128 + off) bs (space_bytes i t s)"
proof -
  let ?ps = "table_pages t s"
  have v: "vm_ok invar pages i s" "private_pages s" "pages_live s" using os by (simp_all add: os_ok_def)
  note ps = table_private(1,2) [OF v(2,3), of t]
  have kl: "k < length ?ps" using k by (simp add: table_pages_def)
  have "map (page_bytes i s') ?ps = (map (page_bytes i s) ?ps)[k := page_bytes i s' (?ps ! k)]"
    by (rule map_update_distinct) (use ps kl old in auto)
  then have "space_bytes i t s' = concat ((map (page_bytes i s) ?ps)[k := put_bytes off bs (map (page_bytes i s) ?ps ! k)])"
    using new kl by (simp add: space_bytes_def same_pages_table(1) [OF sp])
  also have "\<dots> = put_bytes (k * 128 + off) bs (space_bytes i t s)"
    unfolding space_bytes_def using length_page_bytes [OF v(1)] ps kl off by (intro concat_put) auto
  finally show ?thesis .
qed

text \<open>The handler of a page fault, called by the machine.\<close>

lemma page_fault_ok:
  fixes s :: "RandomReplacement os"
  assumes os: "os_ok rr_ok rr_pages i s" and c: "user_ctx a t s" and P: "ev_policy E = RandomReplacement_policy"
    and q: "quiet (s\<lparr>status := SystemMode\<rparr>)" "level s = IntOn" and pid: "cur_pid s = Inr pid" and lr: "unat (registers s LoadReg) < 32"
    and va: "unat va < 128 * length (pageTables s t)" "table_pages t s ! (unat va div 128) \<notin> set (activePageMap (kern s))"
    and EH: "\<forall>s1 s2. ExceptionHandler E PageFaultException s1 = Some (Inr (Completes, s2)) \<longrightarrow> EH PageFaultException s1 = Inr s2"
  obtains s' s1 e u d where "RaiseException EH PageFaultException va s = Inr s'" "same_core s1 s'" "level s' = IntOn" "status s' = UserMode"
    "os_ok rr_ok rr_pages i s1" "vm.more (kern s1) = vm.more (kern s)" "same_pages s s1" "user_ctx a t s1"
    "tlb s = None \<Longrightarrow> tlb s1 = None" "\<forall>sq\<in>swap_used s. page_bytes i s1 sq = page_bytes i s sq" "swap_used s1 = swap_used s"
    "get_entry (PageEntry t (unat va div 128)) s = Inr e"
    "get_entry (PageEntry t (unat va div 128)) s1 = Inr (e\<lparr>use := u, dirty := d, valid := True\<rparr>)"
    "registers s' PCReg = registers s PCReg" "pageTable s' = pageTable s" "pageTableSize s' = pageTableSize s"
proof -
  define R where "R = (registers s)(BadVAddrReg := va, unat (registers s LoadReg) := registers s LoadValueReg,
      LoadReg := 0, LoadValueReg := 0, 0 := 0)"
  have R: "R BadVAddrReg = va" "R PCReg = registers s PCReg" using lr by (auto simp: R_def reg_defs)
  have dl: "DelayedLoad 0 0 (s\<lparr>registers := (registers s)(BadVAddrReg := va)\<rparr>) = Inr (s\<lparr>registers := R\<rparr>)"
    using lr by (auto simp: DelayedLoad_def R_def reg_defs)
  define s0 where "s0 = s\<lparr>registers := R, status := SystemMode\<rparr>"
  let ?s0 = "s0\<lparr>level := IntOff\<rparr>"
  have "same_core s ?s0" by (simp add: same_core_def s0_def)
  note d0 = same_coreD [OF this]
  have pre: "os_ok rr_ok rr_pages i ?s0" "user_ctx a t ?s0" "unat va < 128 * length (pageTables ?s0 t)"
      "table_pages t ?s0 ! (unat va div 128) \<notin> set (activePageMap (kern ?s0))"
    using os c va d0 by (simp_all add: s0_def table_pages_def)
  obtain s1 e u d where s1: "fault_in E (int (unat va)) ?s0 = Inr s1" "os_ok rr_ok rr_pages i s1" "paging_frame {i} ?s0 s1"
      "same_pages ?s0 s1" "user_ctx a t s1" "\<forall>sq\<in>swap_used ?s0. page_bytes i s1 sq = page_bytes i ?s0 sq"
      "get_entry (PageEntry t (unat va div 128)) ?s0 = Inr e"
      "get_entry (PageEntry t (unat va div 128)) s1 = Inr (e\<lparr>use := u, dirty := d, valid := True\<rparr>)" "swap_used s1 = swap_used ?s0"
    by (rule random_policy.fault_in_ok [OF pre(1,2) P pre(3,4)]) (rule that)
  have fr: "s1 = ?s0\<lparr>mainMemory := mainMemory s1, tlb := tlb s1, pageTables := pageTables s1, kern := kern s1\<rparr>"
    using s1(3) by (simp add: paging_frame_def)
  have k: "level s1 = IntOff" "registers s1 = R" "inHandler s1 = inHandler (s\<lparr>status := SystemMode\<rparr>)"
      "yieldOnReturn s1 = yieldOnReturn (s\<lparr>status := SystemMode\<rparr>)" "pending s1 = pending (s\<lparr>status := SystemMode\<rparr>)"
      "stats s1 = stats (s\<lparr>status := SystemMode\<rparr>)" "status s1 = status (s\<lparr>status := SystemMode\<rparr>)"
      "pageTable s1 = pageTable s" "pageTableSize s1 = pageTableSize s"
    by (subst fr, simp add: s0_def)+
  have q1: "quiet s1" using q(1) quiet_cong [OF k(3-7)] by simp
  obtain pd where pd: "restore_level E IntOn s1 = Some (Inr ((tick s1)\<lparr>level := IntOn, pending := pd\<rparr>))"
    by (rule restore_level_on [OF q1 k(1)])
  let ?s2 = "(tick s1)\<lparr>level := IntOn, pending := pd\<rparr>"
  have "unat va < 2 ^ 31" using va(1) table_bound [OF os, of t] by simp
  then have "uint va < 2 ^ 31" by (simp only: unat_eq_nat_uint nat_less_iff uint_ge_0 of_nat_power of_nat_numeral)
  moreover have "- (2 ^ 31) \<le> uint va" by (rule order_trans [OF _ uint_ge_0]) simp
  ultimately have "signed_take_bit 31 (uint va) = uint va" by (intro signed_take_bit_int_eq_self)
  then have sv: "sint va = int (unat va)" by (simp add: sint_uint)
  have "cur_pid s0 = Inr pid" using pid by (simp add: cur_pid_def cur_pcb_def cur_space_def space_pcb_def s0_def)
  then have "ExceptionHandler E PageFaultException s0 = Some (Inr (Completes, ?s2))"
    using s1(1) pd q(2) R(1) sv
    by (simp add: ExceptionHandler_def ReadRegister_def reg_defs myPageFaultHandler_def set_level_off completes_def s0_def)
  with EH have "EH PageFaultException s0 = Inr ?s2" by blast
  then have "RaiseException EH PageFaultException va s = Inr (?s2\<lparr>status := UserMode\<rparr>)"
    using dl by (simp add: RaiseException_def s0_def)
  moreover have "same_core s1 (?s2\<lparr>status := UserMode\<rparr>)" by (simp add: same_core_def tick_def)
  moreover have "vm.more (kern s1) = vm.more (kern s)" "tlb s = None \<Longrightarrow> tlb s1 = None" using s1(3) by (simp_all add: paging_frame_def s0_def)
  moreover have "same_pages s s1" using s1(4) d0(5) by (simp add: same_pages_def)
  ultimately show thesis
    using s1(2,5-9) d0 k R(2) by (intro that [of "?s2\<lparr>status := UserMode\<rparr>" s1 e d u]) (simp_all add: tick_def)
qed

text \<open>
  C38: a page fault is transparent to the program. A store to a page of the process that has not been touched yet raises a page fault, which
  the kernel handles: the program counter, the memory of the process and that of all other processes are as before. The
  instruction is executed again, and then the store succeeds, and changes the bytes at its address and nothing
  else. \<open>EH\<close> is the exception handler of the kernel, for the calls that return.
\<close>

theorem page_fault_is_transparent:
  fixes s :: "RandomReplacement os"
  assumes os: "os_ok rr_ok rr_pages i s" and c: "user_ctx a t s" and P: "ev_policy E = RandomReplacement_policy"
    and m: "tlb s = None" "pageTable s = Some t" "unat (pageTableSize s) = length (pageTables s t)"
    and q: "quiet (s\<lparr>status := SystemMode\<rparr>)" "level s = IntOn" and pid: "cur_pid s = Inr pid" and lr: "unat (registers s LoadReg) < 32"
    and sz: "sz \<in> {1, 2, 4}" "\<not> misaligned va sz" and va: "unat va < 128 * length (pageTables s t)"
    and e: "\<not> valid (pageTables s t ! (unat va div 128))" "\<not> readOnly (pageTables s t ! (unat va div 128))"
      "table_pages t s ! (unat va div 128) \<notin> set (activePageMap (kern s))"
    and EH: "\<forall>s1 s2. ExceptionHandler E PageFaultException s1 = Some (Inr (Completes, s2)) \<longrightarrow> EH PageFaultException s1 = Inr s2"
  shows "\<exists>s1 s2. WriteMem (vm_frame RandomReplacement_policy) EH va sz v s = Inr (False, s1) \<and>
    registers s1 PCReg = registers s PCReg \<and> (\<forall>sq\<in>swap_used s. page_bytes i s1 sq = page_bytes i s sq) \<and>
    WriteMem (vm_frame RandomReplacement_policy) EH va sz v s1 = Inr (True, s2) \<and> os_ok rr_ok rr_pages i s2 \<and>
    space_bytes i t s2 = put_bytes (unat va) (store_bytes sz v) (space_bytes i t s) \<and>
    (\<forall>sq\<in>swap_used s - {table_pages t s ! (unat va div 128)}. page_bytes i s2 sq = page_bytes i s sq)"
proof -
  let ?P = "RandomReplacement_policy" and ?k = "unat va div 128" and ?sp = "table_pages t s ! (unat va div 128)"
  have k: "?k < length (pageTables s t)" using va by (simp add: less_mult_imp_div_less mult.commute)
  have vpn: "unat (page_of va) = ?k" "uint (page_of va) = int ?k" by (simp_all add: unat_div uint_div zdiv_int)
  have in_table: "\<not> pageTableSize s \<le> page_of va" using k m(3) vpn(1) by (simp add: word_le_nat_alt)
  have "find_entry (page_of va) s = Inr (Inl PageFaultException)" using m in_table vpn(2) k e(1) by (simp add: find_entry_def)
  then have "Translate (vm_frame ?P) va sz True s = Inr (Exc PageFaultException, s)"
    using m sz(2) by (simp add: Translate_def misaligned_def)
  then have w0: "WriteMem (vm_frame ?P) EH va sz v s = rbind (RaiseException EH PageFaultException va s) (\<lambda>s. Inr (False, s))"
    by (simp add: WriteMem_def)
  obtain s' s1 x u d where s1: "RaiseException EH PageFaultException va s = Inr s'" "same_core s1 s'" "os_ok rr_ok rr_pages i s1"
    "vm.more (kern s1) = vm.more (kern s)" "same_pages s s1" "tlb s = None \<Longrightarrow> tlb s1 = None"
    "\<forall>sq\<in>swap_used s. page_bytes i s1 sq = page_bytes i s sq" "swap_used s1 = swap_used s"
    "get_entry (PageEntry t ?k) s = Inr x" "get_entry (PageEntry t ?k) s1 = Inr (x\<lparr>use := u, dirty := d, valid := True\<rparr>)"
    "registers s' PCReg = registers s PCReg" "pageTable s' = pageTable s" "pageTableSize s' = pageTableSize s"
    by (rule page_fault_ok [where EH = EH, OF os c P q pid lr va e(3) EH]) (rule that)
  note d' = same_coreD [OF s1(2)]
  have c': "tlb s' = None" "pageTables s' = pageTables s1" "kern s' = kern s1" using s1(2,6) m(1) by (simp_all add: same_core_def)
  note len = same_pages_table [OF s1(5), of t]
  have os': "os_ok rr_ok rr_pages i s'" using d' s1(3) by simp
  then have v': "vm_ok rr_ok rr_pages i s'" "private_pages s'" "pages_live s'" by (simp_all add: os_ok_def)
  have wf: "mmu_wf s'" using c' m s1(12,13) len(2) by (simp add: mmu_wf_def)
  have x: "x = pageTables s t ! ?k" using s1(9) k by (simp add: table_entry)
  have e': "get_entry (PageEntry t ?k) s' = Inr (x\<lparr>use := u, dirty := d, valid := True\<rparr>)" using s1(10) d' by simp
  then have "pageTables s' t ! ?k = x\<lparr>use := u, dirty := d, valid := True\<rparr>" using k len(2) c'(2) by (simp add: table_entry)
  then have "find_entry (page_of va) s' = Inr (Inr (PageEntry t ?k))"
    using c' m(2) s1(12,13) in_table vpn k len(2) by (simp add: find_entry_def)
  moreover have spx: "physicalPage x = ?sp" using x k by (simp add: table_pages_def)
  moreover have used: "?sp \<in> swap_used s'" using v'(3) [unfolded pages_live_def, rule_format, OF e'] spx by simp
  ultimately have mp: "mapped va True ?sp s'" using e' e(2) x by (auto simp: mapped_def)
  from random_policy.WriteMem_vm [OF v'(1) wf v'(2) sz mp, of EH v] obtain s2 where
    s2: "WriteMem (vm_frame ?P) EH va sz v s' = Inr (True, s2)" "vm_ok rr_ok rr_pages i s2" "same_map s' s2" "swap_used s2 = swap_used s'"
      "page_bytes i s2 ?sp = put_bytes (unat va mod 128) (store_bytes sz v) (page_bytes i s' ?sp)"
      "\<forall>sq\<in>swap_used s' - {?sp}. page_bytes i s2 sq = page_bytes i s' sq" "vm.more (kern s2) = vm.more (kern s')"
    by (elim exE conjE)
  have "same_pages s s'" using s1(5) d'(5) by (simp add: same_pages_def)
  then have sp2: "same_pages s s2" by (rule same_pages_trans [OF _ same_map_pages [OF s2(3)]])
  have os2: "os_ok rr_ok rr_pages i s2"
    by (rule os_ok_paged [OF os' s2(2) same_map_pages [OF s2(3)] s2(4) more_fields(4) [OF s2(7)]])
  have pb: "page_bytes i s2 ?sp = put_bytes (unat va mod 128) (store_bytes sz v) (page_bytes i s ?sp)"
      "\<forall>sq\<in>swap_used s - {?sp}. page_bytes i s2 sq = page_bytes i s sq" "\<forall>sq\<in>swap_used s. page_bytes i s' sq = page_bytes i s sq"
    using s2(5,6) d' s1(7,8) used by simp_all
  have "space_bytes i t s2 = put_bytes (?k * 128 + unat va mod 128) (store_bytes sz v) (space_bytes i t s)"
    by (rule os_space_put [OF os k sp2 _ pb(1,2)]) (use aligned_in_page [OF sz] length_store_bytes [OF sz(1)] in simp)
  then show ?thesis using w0 s1(1,11) s2(1) os2 pb by (intro exI [of _ s'] exI [of _ s2]) simp
qed

subsection \<open>Input to a page that the program has not changed\<close>

lemma slot_clean:
  assumes os: "os_ok invar pages i s" and k: "k < 32" "activePageMap (kern s) ! k = sp"
    and e: "get_entry q s = Inr e" "physicalPage e = sp" "\<not> dirty e"
  shows "activePages (kern s) ! k = Some q" "frame_bytes s k = swap_bytes i s sp" "sp \<in> swap_used s" "sp \<noteq> -1"
proof -
  have v: "vm_ok invar pages i s" "private_pages s" "pages_live s" using os by (simp_all add: os_ok_def)
  show used: "sp \<in> swap_used s" using v(3) [unfolded pages_live_def, rule_format, OF e(1)] e(2) by simp
  show sp1: "sp \<noteq> -1" using v(1) used swap_used_range by (fastforce simp: vm_ok_def)
  have "slot_ok i s k" using v(1) k(1) by (simp add: vm_ok_def)
  then obtain r x where r: "activePages (kern s) ! k = Some r" "get_entry r s = Inr x" "physicalPage x = sp"
      "dirty x \<or> frame_bytes s k = swap_bytes i s sp"
    using sp1 unfolding slot_ok_def Let_def k(2) by blast
  have "r = q" by (rule private_pagesD [OF v(2) r(2) e(1)]) (use r(3) e(2) used in simp_all)
  with r e show "activePages (kern s) ! k = Some q" "frame_bytes s k = swap_bytes i s sp" by auto
qed

text \<open>Evicting a frame whose entry is clean loses what was written to the frame.\<close>

lemma evict_clean:
  assumes "k < length (activePages (kern s))" "activePages (kern s) ! k = Some q" "get_entry q s = Inr e" "\<not> dirty e"
  obtains s' where "evict (int k) s = Inr s'" "swap_bytes i s' = swap_bytes i s"
proof -
  obtain s' where "set_entry q (e\<lparr>use := False\<rparr>) s = Inr s'" using set_entry_exists [OF assms(3)] by blast
  moreover from this have "swap_bytes i s' = swap_bytes i s" by (rule vm_base_entry(2))
  ultimately show thesis using assms by (intro that [of s']) (simp_all add: evict_def)
qed

text \<open>A round of \<^verbatim>\<open>myRead\<close> into a page that is in frame \<open>k\<close>.\<close>

lemma read_chunk_active:
  fixes s :: "'p os"
  assumes os: "os_ok invar pages i s" and c: "user_ctx a t s"
    and f: "host_file u s = Inr f" "stub_ok f j (host (kern s))"
    and va: "va div 128 < length (pageTables s t)" "va mod 128 + n \<le> 128" "k < 32"
      "activePageMap (kern s) ! k = table_pages t s ! (va div 128)"
    and pos: "0 \<le> pos" "nat pos + n \<le> length (inodes (host (kern s)) j)"
  defines "bs \<equiv> take n (drop (nat pos) (inodes (host (kern s)) j))"
  obtains w b where
    "read_chunk E u (int va) (int n) pos s = Inr (int n, s\<lparr>mainMemory := mem_put (mainMemory s) (k * 128 + va mod 128) bs,
       kern := (kern s)\<lparr>host := w, diskBuffer := b\<rparr>\<rparr>)" "inodes w = inodes (host (kern s))"
proof -
  have v: "vm_ok invar pages i s" "private_pages s" "pages_live s" using os by (simp_all add: os_ok_def)
  let ?sp = "table_pages t s ! (va div 128)" and ?q = "PageEntry t (va div 128)"
  have len: "length bs = n" using pos(2) by (simp add: bs_def)
  have db: "length (diskBuffer (kern s)) = 128" using v(1) by (simp add: vm_ok_def vm_base_def)
  obtain w where "stub_ReadAt f (int n) pos (host (kern s)) =
        Inr (int (length (take (nat (int n)) (drop (nat pos) (inodes (host (kern s)) j)))),
          take (nat (int n)) (drop (nat pos) (inodes (host (kern s)) j)), w)" and w': "inodes w = inodes (host (kern s))"
    by (rule stub_ReadAt_ok [OF f(2) pos(1), of "int n"]) (rule that)
  then have w: "stub_ReadAt f (int n) pos (host (kern s)) = Inr (int n, bs, w)" using len by (simp add: bs_def)
  define b where "b = bs @ replicate (128 - n) 0"
  define s1 where "s1 = s\<lparr>kern := (kern s)\<lparr>host := w, diskBuffer := b\<rparr>\<rparr>"
  have e: "get_entry ?q s = Inr (pageTables s t ! (va div 128))" "physicalPage (pageTables s t ! (va div 128)) = ?sp"
    using va(1) by (simp_all add: table_entry table_pages_def)
  have used: "?sp \<in> swap_used s" using v(3) [unfolded pages_live_def, rule_format, OF e(1)] e(2) by simp
  then have sp1: "?sp \<noteq> -1" using v(1) swap_used_range by (fastforce simp: vm_ok_def)
  let ?m = "activePageMap (kern s)"
  have m32: "length ?m = 32" using vm_ok_lengths [OF v(1)] by simp
  have "?sp \<notin> set (take k ?m)"
  proof
    assume "?sp \<in> set (take k ?m)"
    then obtain j where "j < k" "?m ! j = ?sp" using va(3) m32 by (auto simp: in_set_conv_nth)
    with vm_ok_unique [OF v(1), of j k ?sp] va(3,4) sp1 show False by simp
  qed
  moreover have "?m = take k ?m @ ?sp # drop (Suc k) ?m" using va(3,4) m32 id_take_nth_drop [of k ?m] by simp
  ultimately have "find_slot ?m ?sp [0..31] = Inr (int (length (take k ?m)))" using m32 by (intro find_slot_first)
  then have fs: "find_slot ?m ?sp [0..31] = Inr (int k)" using va(3) m32 by simp
  have ctx: "cur_space s1 = Inr a" "\<exists>b. spaces (kern s1) a = Some \<lparr>as_pcb = Ptr b, numPages = int (length (pageTables s t)), as_pageTable = Ptr t\<rparr>"
    using c by (auto simp: user_ctx_def cur_space_def ptr_def s1_def)
  have gp: "vm_getPhysicalPage (ev_policy E) ?q s1 = Inr (int k, s1)"
    using e fs va(3) by (simp add: vm_getPhysicalPage_def s1_def get_entry_cong)
  have "int va sdiv 128 = int (va div 128)" "int va smod 128 = int (va mod 128)" by (simp_all add: sdiv_nonneg smod_nonneg zdiv_int zmod_int)
  moreover have "va div 128 < 2 ^ 32" using va(1) table_bound [OF os, of t] by simp
  then have "uint (word_of_int (int (va div 128)) :: 32 word) = int (va div 128)" by (simp add: unsigned_of_nat take_bit_nat_eq_self)
  ultimately have ua: "user_addr E (int va) s1 = Inr (int (k * 128 + va mod 128), s1)"
    using ctx va(1) gp by (auto simp: user_addr_def space_Translate_def deref_def ptr_def)
  have room: "n \<le> 128" "int k * 128 + int (va mod 128) + int n \<le> 4096"
      "nat (int k * 128 + int (va mod 128)) = k * 128 + va mod 128"
    using va(2,3) by linarith+
  define z where "z = s\<lparr>kern := (kern s)\<lparr>diskBuffer := replicate 128 0\<rparr>\<rparr>"
  have "bzero_buffer s = Inr z" using db by (simp add: bzero_buffer_def fill_buffer_def z_def)
  moreover have "host_file u z = Inr f" "stub_ReadAt f (int n) pos (host (kern z)) = Inr (int n, bs, w)"
    using f(1) w by (simp_all add: z_def host_file_def)
  moreover have "fill_buffer bs (z\<lparr>kern := (kern z)\<lparr>host := w\<rparr>\<rparr>) = Inr s1"
    using len va(2) by (simp add: fill_buffer_def z_def s1_def b_def)
  moreover have "putMemIntoVAddr E (diskBuffer (kern s1)) (int va) (int n) s1 =
      Inr (s1\<lparr>mainMemory := mem_put (mainMemory s) (k * 128 + va mod 128) bs\<rparr>)"
    using ua len room by (simp add: putMemIntoVAddr_def main_put_def s1_def b_def)
  ultimately have "read_chunk E u (int va) (int n) pos s =
      Inr (int n, s1\<lparr>mainMemory := mem_put (mainMemory s) (k * 128 + va mod 128) bs\<rparr>)"
    by (simp add: read_chunk_def)
  then show thesis using w' by (intro that [of b w]) (simp_all add: s1_def)
qed

lemma read_loop_once:
  assumes "va mod 128 + n \<le> 128" "0 < n" "read_chunk E u (int va) (int n) pos s = Inr (int n, s')"
  shows "read_loop E u (int va) (int n) pos 0 s = Inr (int n, s')"
proof -
  have "min n (128 - va mod 128) = n" using assms(1) by simp
  then have "chunk 128 (int va) (int n) = int n" using chunk_nat [OF assms(2)] by simp
  with assms(2,3) show ?thesis by (subst read_loop.simps) (simp add: read_loop.simps)
qed

text \<open>
  C39: input can be lost. When a process reads from a file into a page that is in memory and that it has not changed since the page
  was brought in, the system call returns with the bytes of the file in the memory of the process. But the page is not marked as
  changed, since the kernel copies to the frame directly: when the frame is given to another page, nothing is written, and the swap
  file, from which the page comes back, holds what the page contained before the call.
\<close>

theorem read_call_is_lost_on_eviction:
  fixes s :: "RandomReplacement os"
  assumes os: "os_ok rr_ok rr_pages i s" and c: "user_ctx a t s"
    and q: "quiet s" "level s = IntOn" and pid: "cur_pid s = Inr pid"
    and r: "sint (registers s 2) = SC_Read" "sint (registers s 4) = int va" "sint (registers s 5) = int n"
      "sint (registers s 6) = fd" "fd \<noteq> ConsoleInput"
    and u: "user_file fd s = Inr u" "user_files (pr (kern s)) u = Some uf" "0 \<le> uof_position uf"
    and f: "host_file u s = Inr f" "stub_ok f j (host (kern s))"
      "nat (uof_position uf) + n \<le> length (inodes (host (kern s)) j)"
    and va: "0 < n" "va div 128 < length (pageTables s t)" "va mod 128 + n \<le> 128"
    and k: "k < 32" "activePageMap (kern s) ! k = table_pages t s ! (va div 128)" "\<not> dirty (pageTables s t ! (va div 128))"
  shows "\<exists>s' s''. ExceptionHandler E SyscallException s = Some (Inr (Completes, s')) \<and>
    take n (drop (va mod 128) (page_bytes i s' (table_pages t s ! (va div 128)))) =
      take n (drop (nat (uof_position uf)) (inodes (host (kern s)) j)) \<and>
    evict (int k) s' = Inr s'' \<and>
    swap_bytes i s'' (table_pages t s ! (va div 128)) = page_bytes i s (table_pages t s ! (va div 128))"
proof -
  let ?s = "s\<lparr>level := IntOff\<rparr>" and ?sp = "table_pages t s ! (va div 128)" and ?q = "PageEntry t (va div 128)"
  let ?bs = "take n (drop (nat (uof_position uf)) (inodes (host (kern s)) j))"
  have e: "get_entry ?q s = Inr (pageTables s t ! (va div 128))" "physicalPage (pageTables s t ! (va div 128)) = ?sp"
    using va(2) by (simp_all add: table_entry table_pages_def)
  note cl = slot_clean [OF os k(1,2) e k(3)]
  have vm: "vm_ok rr_ok rr_pages i s" using os by (simp add: os_ok_def)
  have "same_core s ?s" by (simp add: same_core_def)
  note d = same_coreD [OF this]
  have pre: "os_ok rr_ok rr_pages i ?s" "user_ctx a t ?s" "host_file u ?s = Inr f" "stub_ok f j (host (kern ?s))"
      "va div 128 < length (pageTables ?s t)" "activePageMap (kern ?s) ! k = table_pages t ?s ! (va div 128)"
      "nat (uof_position uf) + n \<le> length (inodes (host (kern ?s)) j)"
    using os c f va(2) k(2) d by (simp_all add: host_file_def table_pages_def)
  obtain w b where w: "read_chunk E u (int va) (int n) (uof_position uf) ?s = Inr (int n, ?s\<lparr>mainMemory := mem_put (mainMemory ?s)
        (k * 128 + va mod 128) (take n (drop (nat (uof_position uf)) (inodes (host (kern ?s)) j))),
       kern := (kern ?s)\<lparr>host := w, diskBuffer := b\<rparr>\<rparr>)" "inodes w = inodes (host (kern ?s))"
    by (rule read_chunk_active [OF pre(1-5) va(3) k(1) pre(6) u(3) pre(7)]) (rule that)
  define s1 where "s1 = s\<lparr>level := IntOff, mainMemory := mem_put (mainMemory s) (k * 128 + va mod 128) ?bs,
      kern := (kern s)\<lparr>host := w, diskBuffer := b\<rparr>\<rparr>"
  have "read_chunk E u (int va) (int n) (uof_position uf) ?s = Inr (int n, s1)" using w(1) by (simp add: s1_def)
  note loop = read_loop_once [OF va(3,1) this]
  define p' where "p' = (pr (kern s))\<lparr>user_files := (user_files (pr (kern s)))(u \<mapsto> uf\<lparr>uof_position := uof_position uf + int n\<rparr>)\<rparr>"
  define s2 where "s2 = (set_pr p' s1)\<lparr>registers := (registers s)(2 := word_of_int (int n))\<rparr>"
  have "user_file fd ?s = Inr u" using u(1) by (simp add: user_file_def cur_pcb_def cur_space_def space_pcb_def)
  then have rf: "read_file E (int va) (int n) fd ?s = Inr s2"
    using u(2) loop by (simp add: read_file_def deref_def set_position_def p'_def s1_def s2_def WriteRegister_def reg_defs)
  have "quiet s2" using q(1) by (subst quiet_cong [of _ s]) (simp_all add: s2_def s1_def)
  then obtain s' where s': "obind (completes (restore_level E IntOn s2)) (\<lambda>r. returns (Inr (end_syscall r))) = Some (Inr (Completes, s'))"
      "back_to_user s2 s'" by (rule end_syscall_ok) (simp add: s2_def s1_def)
  have run: "ExceptionHandler E SyscallException s = Some (Inr (Completes, s'))"
    using syscall_registers [OF pid] r rf s'(1) q(2) by (simp add: syscall_def myRead_def set_level_off syscall_consts)
  have c': "mainMemory s' = mainMemory s2" "tlb s' = tlb s" "pageTables s' = pageTables s" "kern s' = kern s2"
    using s'(2) by (simp_all add: back_to_user_def same_core_def s2_def s1_def)
  have k': "activePageMap (kern s') = activePageMap (kern s)" "activePages (kern s') = activePages (kern s)"
      "swap_bytes i s' = swap_bytes i s" "get_entry ?q s' = get_entry ?q s"
    using c' w(2) by (simp_all add: s2_def s1_def swap_bytes_def fun_eq_iff get_entry_def split: entry_ptr.split)
  have len: "length (activePageMap (kern s)) = 32" "length (activePages (kern s)) = 32" using vm_ok_lengths [OF vm] by simp_all
  obtain s'' where s'': "evict (int k) s' = Inr s''" "swap_bytes i s'' = swap_bytes i s'"
    by (rule evict_clean [of k s' ?q, where i = i]) (use k' len k(1,3) cl(1) e(1) in auto)
  have "page_bytes i s ?sp = frame_bytes s k" by (rule random_policy.page_bytes_frame(1) [OF vm k(1,2) cl(3)])
  then have lost: "swap_bytes i s'' ?sp = page_bytes i s ?sp" using s''(2) k'(3) cl(2) by simp
  have lb: "length ?bs = n" using f(3) by simp
  have "page_bytes i s' ?sp = frame_bytes s' k"
    using k(1,2) cl(4) k'(1) len vm_ok_unique [OF vm] by (intro page_bytes_active) auto
  also have "\<dots> = put_bytes (va mod 128) ?bs (frame_bytes s k)"
    using mem_bytes_put_inside [of "va mod 128" ?bs 128 "mainMemory s" "k * 128"] va(3) lb c'(1)
    by (simp add: frame_bytes_def s2_def s1_def)
  finally have "take n (drop (va mod 128) (page_bytes i s' ?sp)) = ?bs" using put_bytes_read [of ?bs] lb by simp
  with run s''(1) lost show ?thesis by blast
qed

subsection \<open>Context switches\<close>

lemma SaveUserState_ok:
  "SaveUserState th s = Inr (s\<lparr>kern := (kern s)\<lparr>userRegisters := (userRegisters (kern s))
     (th := \<lambda>r. if r < 40 then registers s r else userRegisters (kern s) th r)\<rparr>\<rparr>)"
proof -
  let ?R = "\<lambda>n. s\<lparr>kern := (kern s)\<lparr>userRegisters := (userRegisters (kern s))
     (th := \<lambda>r. if int r < n then registers s r else userRegisters (kern s) th r)\<rparr>\<rparr>"
  let ?body = "\<lambda>i s. rbind (ReadRegister i s) (\<lambda>v. Inr (s\<lparr>kern := (kern s)\<lparr>userRegisters := (userRegisters (kern s))
             (th := (userRegisters (kern s) th)(nat i := v))\<rparr>\<rparr>))"
  have "\<exists>s'. for_each [0..40 - 1] ?body s = Inr s' \<and> s' = ?R 40"
  proof (rule for_loop_invariant)
    show "s = ?R 0" by simp
    fix i s' assume i: "0 \<le> i" "i < 40" and s': "s' = ?R i"
    have "(\<lambda>r. if int r < i then registers s r else userRegisters (kern s) th r)(nat i := registers s (nat i)) =
        (\<lambda>r. if int r < i + 1 then registers s r else userRegisters (kern s) th r)"
      using i(1) by (auto simp: fun_eq_iff)
    then show "\<exists>s''. ?body i s' = Inr s'' \<and> s'' = ?R (i + 1)"
      using i by (simp add: s' ReadRegister_def NumTotalRegs_def)
  qed simp
  then show ?thesis by (simp add: SaveUserState_def NumTotalRegs_def)
qed

lemma RestoreUserState_ok:
  "RestoreUserState th s = Inr (s\<lparr>registers := \<lambda>r. if r < 40 then userRegisters (kern s) th r else registers s r\<rparr>)"
proof -
  let ?R = "\<lambda>n. s\<lparr>registers := \<lambda>r. if int r < n then userRegisters (kern s) th r else registers s r\<rparr>"
  let ?body = "\<lambda>i s. WriteRegister i (userRegisters (kern s) th (nat i)) s"
  have "\<exists>s'. for_each [0..40 - 1] ?body s = Inr s' \<and> s' = ?R 40"
  proof (rule for_loop_invariant)
    show "s = ?R 0" by simp
    fix i s' assume i: "0 \<le> i" "i < 40" and s': "s' = ?R i"
    have "(\<lambda>r. if int r < i then userRegisters (kern s) th r else registers s r)(nat i := userRegisters (kern s) th (nat i)) =
        (\<lambda>r. if int r < i + 1 then userRegisters (kern s) th r else registers s r)"
      using i(1) by (auto simp: fun_eq_iff)
    then show "\<exists>s''. ?body i s' = Inr s'' \<and> s'' = ?R (i + 1)"
      using i by (simp add: s' WriteRegister_def NumTotalRegs_def)
  qed simp
  then show ?thesis by (simp add: RestoreUserState_def NumTotalRegs_def)
qed

lemma Run_save_ok:
  assumes "space_of (kern s) (thread s) \<noteq> Uninit"
  obtains R where "Run_save s = Inr (s\<lparr>kern := (kern s)\<lparr>userRegisters := R\<rparr>\<rparr>)" "\<And>th. th \<noteq> thread s \<Longrightarrow> R th = userRegisters (kern s) th"
    "\<And>a r. space_of (kern s) (thread s) = Ptr a \<Longrightarrow> r < 40 \<Longrightarrow> R (thread s) r = registers s r"
proof (cases "space_of (kern s) (thread s)")
  case (Ptr a)
  let ?R = "(userRegisters (kern s))(thread s := \<lambda>r. if r < 40 then registers s r else userRegisters (kern s) (thread s) r)"
  show thesis by (rule that [of ?R]) (use Ptr in \<open>simp_all add: Run_save_def SaveUserState_ok SaveState_def\<close>)
next
  case Null
  show thesis by (rule that [of "userRegisters (kern s)"]) (use Null in \<open>simp_all add: Run_save_def\<close>)
qed (use assms in simp)

lemma Run_thread [simp]: "currentThread (Run th k) = th"
  by (simp add: Run_def Let_def split: option.split)

text \<open>
  C40: a context switch is invisible to the program. A thread that runs a user program is switched out; later, when other threads have run and
  have neither touched its saved registers nor its address space, it is switched in again. Then all its registers
  have the values they had, and the machine translates with the page table of its address space.
\<close>

theorem context_switch_restores_user_state:
  assumes sp: "space_of (kern s) (thread s) = Ptr a" and out: "Run_user other s = Inr s1" "other \<noteq> thread s"
    and s2: "userRegisters (kern s2) (thread s) = userRegisters (kern s1) (thread s)" "space_of (kern s2) (thread s) = Ptr a"
      "spaces (kern s2) a = Some sp2" "as_pageTable sp2 = Ptr t" "thread s \<in> switched (ks (pr (kern s2)))"
      "thread s2 \<noteq> thread s" "space_of (kern s2) (thread s2) \<noteq> Uninit"
  shows "\<exists>s3. Run_user (thread s) s2 = Inr s3 \<and> thread s3 = thread s \<and> (\<forall>r < NumTotalRegs. registers s3 r = registers s r) \<and>
    pageTable s3 = Some t \<and> pageTableSize s3 = word_of_int (numPages sp2) \<and> mainMemory s3 = mainMemory s2"
proof -
  obtain R where R: "Run_save s = Inr (s\<lparr>kern := (kern s)\<lparr>userRegisters := R\<rparr>\<rparr>)"
      "\<And>a r. space_of (kern s) (thread s) = Ptr a \<Longrightarrow> r < 40 \<Longrightarrow> R (thread s) r = registers s r"
    by (rule Run_save_ok [of s]) (use sp in auto)
  have "userRegisters (kern s1) = R"
    using out(1) R(1)
    by (auto simp: Run_user_def Let_def Run_restore_def RestoreUserState_ok RestoreState_def rbind_eq_Inr_iff split: if_splits slot.splits)
  then have saved: "userRegisters (kern s2) (thread s) r = registers s r" if "r < 40" for r using R(2) [OF sp that] s2(1) by simp
  obtain R2 where R2: "Run_save s2 = Inr (s2\<lparr>kern := (kern s2)\<lparr>userRegisters := R2\<rparr>\<rparr>)"
      "\<And>th. th \<noteq> thread s2 \<Longrightarrow> R2 th = userRegisters (kern s2) th"
    by (rule Run_save_ok [OF s2(7)]) (rule that)
  have "R2 (thread s) r = registers s r" if "r < 40" for r using R2(2) [of "thread s"] s2(6) saved [OF that] by simp
  then show ?thesis
    using s2(2-5) R2(1)
    by (simp add: Run_user_def Let_def Run_restore_def RestoreUserState_ok RestoreState_def deref_def ptr_def NumTotalRegs_def)
qed

subsection \<open>A running example\<close>

text \<open>The process of theory \<open>Space_Lifecycle\<close> runs, and has its own object file open as descriptor 2.\<close>

abbreviation sample_file :: UserOpenFile where
  "sample_file \<equiv> \<lparr>uof_fileName = [112], uof_sysOpenFile = 0, uof_position = 0, uof_fd = 2\<rparr>"

definition sample_env :: "RandomReplacement env" where
  "sample_env = \<lparr>ev_policy = RandomReplacement_policy, ev_call = (\<lambda>_ _ s. Inr s), ev_yield = Inr, ev_raw = sample_raw,
     ev_thread = (\<lambda>s. Suc (thread s)), ev_room = (\<lambda>n. n + 8)\<rparr>"

lemma sample_user:
  obtains i and s :: "RandomReplacement os" and a t where "os_ok rr_ok rr_pages i s" "user_ctx a t s" "length (pageTables s t) = 9"
    "take 6 (space_bytes i t s) = [1, 2, 3, 4, 5, 6]" "quiet (s\<lparr>status := SystemMode\<rparr>)" "quiet s" "level s = IntOn" "registers s = R"
    "cur_pid s = Inr 0" "user_file 2 s = Inr 0" "user_files (pr (kern s)) 0 = Some sample_file" "host_file 0 s = Inr (new_StubFile 3)"
    "stub_ok (new_StubFile 3) 0 (host (kern s))" "0 \<noteq> i" "inodes (host (kern s)) 0 = sample_noff" "tlb s = None"
    "pageTable s = Some t" "unat (pageTableSize s) = 9" "set (activePageMap (kern s)) = {-1}"
    "pageTables s t = table_of (table_pages t s)"
proof -
  obtain i and s :: "RandomReplacement os" and a b t where s: "os_ok rr_ok rr_pages i s"
    "spaces (kern s) a = Some \<lparr>as_pcb = Ptr b, numPages = int (length (pageTables s t)), as_pageTable = Ptr t\<rparr>"
    "take 6 (space_bytes i t s) = [1, 2, 3, 4, 5, 6]" "length (pageTables s t) = 9"
    "stub_ok (new_StubFile 3) 0 (host (kern s))" "0 \<noteq> i" "inodes (host (kern s)) 0 = sample_noff" "tlb s = None"
    "set (activePageMap (kern s)) = {-1}" "pageTables s t = table_of (table_pages t s)"
    by (rule sample_process) (rule that)
  obtain f0 where f0: "bm_wf f0" "numBits f0 = 20" using BitMap_ok [of 20 "\<lambda>_. 0"] by auto
  obtain fb where fb: "bm_wf fb" "numBits fb = 20" "2 \<in> marked fb"
    by (rule Mark_ok [OF f0(1), of 2]) (use f0 in \<open>auto simp: in_range_def intro: that\<close>)
  have t2: "Test fb 2 = Inr True" using Test_ok [OF fb(1), of 2] fb by (simp add: in_range_def)
  define p where "p = (pr (kern s))\<lparr>pcbs := [0 \<mapsto> \<lparr>PID = 0, parentPID = -1, pcb_thread = 0, openFileTable = replicate 20 (Ptr 0), openFileMap = fb\<rparr>],
      user_files := [0 \<mapsto> sample_file], sys_files := [0 \<mapsto> new_SysOpenFile (Some (new_StubFile 3)) [112] 2]\<rparr>"
  define k where "k = (kern s)\<lparr>space_of := (\<lambda>_. Ptr a), pr := p, spaces := [a \<mapsto> \<lparr>as_pcb = Ptr 0, numPages = 9, as_pageTable = Ptr t\<rparr>]\<rparr>"
  define s' where "s' = s\<lparr>registers := R, level := IntOn, pending := [], inHandler := False, yieldOnReturn := False,
      pageTable := Some t, pageTableSize := 9, kern := k\<rparr>"
  have tr: "vm.truncate k = vm.truncate (kern s)" "next_table k = next_table (kern s)" by (simp_all add: k_def vm.defs)
  have sc: "same_core (s\<lparr>kern := k\<rparr>) s'" by (simp add: same_core_def s'_def)
  note d = same_coreD [OF sc] other_kernel_state [OF tr(1)] os_ok_other [OF tr] truncate_fields [OF tr(1)]
  have tp: "table_pages t s' = table_pages t s" by (simp add: table_pages_def s'_def)
  have "user_file 2 s' = Inr 0" "cur_pid s' = Inr 0" "host_file 0 s' = Inr (new_StubFile 3)"
    using t2 by (simp_all add: user_file_def cur_pcb_def cur_pid_def cur_space_def space_pcb_def ptr_def deref_def pcb_fileOf_def
        host_file_def new_SysOpenFile_def s'_def k_def p_def aget_def)
  moreover have "os_ok rr_ok rr_pages i s'" "space_bytes i t s' = space_bytes i t s" using s(1) d by simp_all
  moreover have "registers s' = R" "level s' = IntOn" "quiet s'" "quiet (s'\<lparr>status := SystemMode\<rparr>)" "tlb s' = tlb s"
      "pageTable s' = Some t" "pageTableSize s' = 9" "pageTables s' = pageTables s" "kern s' = k"
    by (simp_all add: s'_def quiet_def)
  moreover have "user_ctx a t s'" "user_files (pr k) 0 = Some sample_file" using s(4) by (simp_all add: user_ctx_def s'_def k_def p_def)
  ultimately show thesis using s(3-10) d(15-) tp by (intro that [of i s' a t]) simp_all
qed

lemma sample_consts: "ev_policy sample_env = RandomReplacement_policy" "length sample_noff = 46"
  by (simp_all add: sample_env_def sample_noff_def)

theorem write_call_copies_memory_witness:
  "\<exists>(s :: RandomReplacement os) s'. ExceptionHandler sample_env SyscallException s = Some (Inr (Completes, s')) \<and>
    take 6 (inodes (host (kern s')) 0) = [1, 2, 3, 4, 5, 6]"
proof -
  obtain i and s :: "RandomReplacement os" and a t where s: "os_ok rr_ok rr_pages i s" "user_ctx a t s" "length (pageTables s t) = 9"
    "take 6 (space_bytes i t s) = [1, 2, 3, 4, 5, 6]" "quiet s" "level s = IntOn" "registers s = (\<lambda>_. 0)(2 := 7, 5 := 6, 6 := 2)"
    "cur_pid s = Inr 0" "user_file 2 s = Inr 0" "user_files (pr (kern s)) 0 = Some sample_file" "host_file 0 s = Inr (new_StubFile 3)"
    "stub_ok (new_StubFile 3) 0 (host (kern s))" "0 \<noteq> i" "inodes (host (kern s)) 0 = sample_noff"
    by (rule sample_user) (rule that)
  have r: "sint (registers s 2) = SC_Write" "sint (registers s 4) = int 0" "sint (registers s 5) = int 6" "sint (registers s 6) = 2"
      "(2 :: int) \<noteq> ConsoleOutput" "0 \<le> uof_position sample_file" "0 < (6 :: nat)" "0 + 6 \<le> 128 * length (pageTables s t)"
    using s(3) by (simp_all add: s(7) syscall_consts)
  from write_call_copies_memory [OF s(1,2) sample_consts(1) s(5,6,8) r(1-5) s(9,10) r(6) s(11-13) r(7,8)] obtain s' where
    s': "ExceptionHandler sample_env SyscallException s = Some (Inr (Completes, s'))"
      "inodes (host (kern s')) 0 = put_bytes (nat (uof_position sample_file)) (take 6 (drop 0 (space_bytes i t s))) (inodes (host (kern s)) 0)"
    by (elim exE conjE)
  have "take 6 (inodes (host (kern s')) 0) = [1, 2, 3, 4, 5, 6]" using s'(2) s(4) by (simp add: put_bytes_def)
  with s'(1) show ?thesis by blast
qed

theorem page_fault_is_transparent_witness:
  "\<exists>i t (s :: RandomReplacement os) EH s1 s2. WriteMem (vm_frame RandomReplacement_policy) EH 4 4 99 s = Inr (False, s1) \<and>
    WriteMem (vm_frame RandomReplacement_policy) EH 4 4 99 s1 = Inr (True, s2) \<and>
    take 4 (drop 4 (space_bytes i t s2)) = store_bytes 4 99"
proof -
  obtain i and s :: "RandomReplacement os" and a t where s: "os_ok rr_ok rr_pages i s" "user_ctx a t s" "length (pageTables s t) = 9"
    "quiet (s\<lparr>status := SystemMode\<rparr>)" "level s = IntOn" "registers s = (\<lambda>_. 0)" "cur_pid s = Inr 0" "tlb s = None"
    "pageTable s = Some t" "unat (pageTableSize s) = 9" "set (activePageMap (kern s)) = {-1}" "pageTables s t = table_of (table_pages t s)"
    by (rule sample_user) (rule that)
  let ?EH = "\<lambda>w s. case ExceptionHandler sample_env w s of Some (Inr (_, s')) \<Rightarrow> Inr s' | _ \<Rightarrow> Inl AssertFailed"
  have lt: "0 < length (table_pages t s)" using s(3) by (simp add: table_pages_def)
  have "set (table_pages t s) \<subseteq> swap_used s" "vm_base i s" using s(1) table_private(2) by (auto simp: os_ok_def vm_ok_def)
  then have "0 \<le> table_pages t s ! 0" using swap_used_range nth_mem [OF lt] by blast
  then have e: "\<not> valid (pageTables s t ! (unat (4 :: 32 word) div 128))" "\<not> readOnly (pageTables s t ! (unat (4 :: 32 word) div 128))"
      "table_pages t s ! (unat (4 :: 32 word) div 128) \<notin> set (activePageMap (kern s))"
    using s(11) lt by (subst s(12), simp add: page_entry_def, subst s(12), simp add: page_entry_def, simp)
  have m: "unat (pageTableSize s) = length (pageTables s t)" "unat (registers s LoadReg) < 32" "(4 :: int) \<in> {1, 2, 4}"
      "\<not> misaligned 4 4" "unat (4 :: 32 word) < 128 * length (pageTables s t)"
    using s(3,6,10) by (simp_all add: misaligned_def)
  have "\<forall>s1 s2. ExceptionHandler sample_env PageFaultException s1 = Some (Inr (Completes, s2)) \<longrightarrow> ?EH PageFaultException s1 = Inr s2"
    by simp
  from page_fault_is_transparent [where EH = ?EH and v = 99, OF s(1,2) sample_consts(1) s(8,9) m(1) s(4,5,7) m(2-5) e this] obtain s1 s2 where
    s1: "WriteMem (vm_frame RandomReplacement_policy) ?EH 4 4 99 s = Inr (False, s1)"
      "WriteMem (vm_frame RandomReplacement_policy) ?EH 4 4 99 s1 = Inr (True, s2)"
      "space_bytes i t s2 = put_bytes (unat (4 :: 32 word)) (store_bytes 4 99) (space_bytes i t s)" by (elim exE conjE)
  have "take 4 (drop 4 (space_bytes i t s2)) = store_bytes 4 99"
    using s1(3) put_bytes_read [of "store_bytes 4 99" 4] length_store_bytes [of 4 99] by simp
  with s1(1,2) show ?thesis by (intro exI [of _ i] exI [of _ t] exI [of _ s] exI [of _ ?EH] exI [of _ s1] exI [of _ s2] conjI)
qed

text \<open>The first page of the process has been brought in, and is clean.\<close>

lemma sample_user_page:
  obtains i and s :: "RandomReplacement os" and a t k where "os_ok rr_ok rr_pages i s" "user_ctx a t s" "0 < length (pageTables s t)"
    "quiet s" "level s = IntOn" "registers s = R" "cur_pid s = Inr 0" "user_file 2 s = Inr 0"
    "user_files (pr (kern s)) 0 = Some sample_file" "host_file 0 s = Inr (new_StubFile 3)"
    "stub_ok (new_StubFile 3) 0 (host (kern s))" "inodes (host (kern s)) 0 = sample_noff"
    "k < 32" "activePageMap (kern s) ! k = table_pages t s ! 0" "\<not> dirty (pageTables s t ! 0)"
proof -
  obtain i and s :: "RandomReplacement os" and a t where s: "os_ok rr_ok rr_pages i s" "user_ctx a t s" "length (pageTables s t) = 9"
    "quiet s" "level s = IntOn" "registers s = R" "cur_pid s = Inr 0" "user_file 2 s = Inr 0"
    "user_files (pr (kern s)) 0 = Some sample_file" "host_file 0 s = Inr (new_StubFile 3)"
    "stub_ok (new_StubFile 3) 0 (host (kern s))" "0 \<noteq> i" "inodes (host (kern s)) 0 = sample_noff"
    "pageTables s t = table_of (table_pages t s)"
    by (rule sample_user) (rule that)
  have v: "vm_ok rr_ok rr_pages i s" "pages_live s" using s(1) by (simp_all add: os_ok_def)
  have e: "get_entry (PageEntry t 0) s = Inr (pageTables s t ! 0)" using s(3) by (simp add: table_entry)
  have "physicalPage (pageTables s t ! 0) \<in> swap_used s" by (rule v(2) [unfolded pages_live_def, rule_format, OF e])
  from random_policy.vm_getPhysicalPage_ok [OF v(1) e this] obtain k s' where
    s': "vm_getPhysicalPage RandomReplacement_policy (PageEntry t 0) s = Inr (int k, s')"
      "brings_in rr_ok rr_pages i (physicalPage (pageTables s t ! 0)) k s s'" "get_entry (PageEntry t 0) s' = Inr (pageTables s t ! 0)"
    by blast
  have "swap_on i s" using v(1) by (auto simp: vm_ok_def vm_base_def swap_on_def)
  note fr = vm_getPhysicalPage_frame [OF this s'(1)]
  have b: "vm_ok rr_ok rr_pages i s'" "same_map s s'" "k < 32" "activePageMap (kern s') ! k = physicalPage (pageTables s t ! 0)"
      "swap_used s' = swap_used s" "vm.more (kern s') = vm.more (kern s)"
    using s'(2) by (simp_all add: brings_in_def swap_used_def)
  note m = more_fields [OF b(6)] and len = same_map_table [OF b(2)]
  have os': "os_ok rr_ok rr_pages i s'" by (rule os_ok_paged [OF s(1) b(1) same_map_pages [OF b(2)] b(5) m(4)])
  have ctx: "user_ctx a t s'" using user_ctx_cong [OF b(6) same_map_pages [OF b(2)]] s(2) by simp
  have e': "pageTables s' t ! 0 = pageTables s t ! 0" using s'(3) s(3) len(2) by (simp add: table_entry)
  have eq: "s' = s\<lparr>mainMemory := mainMemory s', tlb := tlb s', pageTables := pageTables s', kern := kern s'\<rparr>"
    using fr by (simp add: paging_frame_def)
  have "\<not> dirty (pageTables s t ! 0)" using s(3) by (subst s(14)) (simp add: page_entry_def table_pages_def)
  moreover have "registers s' = registers s" "level s' = level s" by (subst eq, simp)+
  moreover have "quiet s' = quiet s" by (rule quiet_cong; subst eq, simp)
  moreover have "user_file 2 s' = user_file 2 s" "cur_pid s' = cur_pid s" "host_file 0 s' = host_file 0 s"
    using m by (simp_all add: user_file_def cur_pcb_def cur_pid_def cur_space_def space_pcb_def host_file_def)
  moreover have "stub_ok (new_StubFile 3) 0 (host (kern s'))" "inodes (host (kern s')) 0 = sample_noff"
    using fr s(11-13) by (simp_all add: paging_frame_def)
  moreover have "table_pages t s' ! 0 = physicalPage (pageTables s t ! 0)" using len(1) s(3) by (simp add: table_pages_def)
  ultimately show thesis
    using s(3-10) m(1) b(3,4) e' len(2) by (intro that [OF os' ctx]) simp_all
qed

theorem read_call_is_lost_on_eviction_witness:
  "\<exists>(s :: RandomReplacement os) s' s'' k. ExceptionHandler sample_env SyscallException s = Some (Inr (Completes, s')) \<and>
    evict k s' = Inr s''"
proof -
  obtain i and s :: "RandomReplacement os" and a t k where s: "os_ok rr_ok rr_pages i s" "user_ctx a t s" "0 < length (pageTables s t)"
    "quiet s" "level s = IntOn" "registers s = (\<lambda>_. 0)(2 := 6, 5 := 4, 6 := 2)" "cur_pid s = Inr 0" "user_file 2 s = Inr 0"
    "user_files (pr (kern s)) 0 = Some sample_file" "host_file 0 s = Inr (new_StubFile 3)"
    "stub_ok (new_StubFile 3) 0 (host (kern s))" "inodes (host (kern s)) 0 = sample_noff"
    "k < 32" "activePageMap (kern s) ! k = table_pages t s ! 0" "\<not> dirty (pageTables s t ! 0)"
    by (rule sample_user_page)
  have r: "sint (registers s 2) = SC_Read" "sint (registers s 4) = int 0" "sint (registers s 5) = int 4" "sint (registers s 6) = 2"
      "(2 :: int) \<noteq> ConsoleInput" "0 \<le> uof_position sample_file" "0 < (4 :: nat)" "0 div 128 < length (pageTables s t)"
      "0 mod 128 + 4 \<le> (128 :: nat)" "nat (uof_position sample_file) + 4 \<le> length (inodes (host (kern s)) 0)"
      "activePageMap (kern s) ! k = table_pages t s ! (0 div 128)" "\<not> dirty (pageTables s t ! (0 div 128))"
    using s(3,14,15) sample_consts(2) by (simp_all add: s(6,12) syscall_consts)
  from read_call_is_lost_on_eviction [OF s(1,2,4,5,7) r(1-5) s(8,9) r(6) s(10,11) r(10,7-9) s(13) r(11,12), of sample_env]
  show ?thesis by blast
qed

theorem context_switch_restores_user_state_witness:
  "\<exists>(s :: RandomReplacement os) s1 s2. Run_user 1 s = Inr s1 \<and> thread s1 = 1 \<and> Run_user 0 s1 = Inr s2 \<and> thread s2 = 0 \<and>
    registers s2 7 = 42"
proof -
  obtain s0 :: "RandomReplacement os" and a t where s0: "user_ctx a t s0" "registers s0 = (\<lambda>_. 42)"
    by (rule sample_user) (rule that)
  define s where "s = s0\<lparr>kern := (kern s0)\<lparr>space_of := (\<lambda>_. Ptr a), pr := (pr (kern s0))\<lparr>ks := (ks (pr (kern s0)))\<lparr>currentThread := 0, switched := {}\<rparr>\<rparr>\<rparr>\<rparr>"
  obtain b where b: "spaces (kern s) a = Some \<lparr>as_pcb = Ptr b, numPages = int (length (pageTables s t)), as_pageTable = Ptr t\<rparr>"
    using s0(1) by (auto simp: user_ctx_def s_def)
  have sp: "space_of (kern s) (thread s) = Ptr a" "thread s = 0" by (simp_all add: s_def)
  obtain R where R: "Run_save s = Inr (s\<lparr>kern := (kern s)\<lparr>userRegisters := R\<rparr>\<rparr>)" by (rule Run_save_ok [of s]) (use sp in auto)
  define s1 where "s1 = s\<lparr>kern := (kern s)\<lparr>userRegisters := R, pr := (pr (kern s))\<lparr>ks := Run 1 (ks (pr (kern s)))\<rparr>\<rparr>\<rparr>"
  have out: "Run_user 1 s = Inr s1" "1 \<noteq> thread s" using R by (simp_all add: Run_user_def Let_def s1_def s_def)
  have "thread s \<in> switched (ks (pr (kern s1)))" by (simp add: s1_def s_def Run_def Let_def split: option.split)
  moreover have "space_of (kern s1) (thread s) = Ptr a" "thread s1 \<noteq> thread s" "space_of (kern s1) (thread s1) \<noteq> Uninit" "thread s1 = 1"
    by (simp_all add: s1_def s_def)
  moreover have "spaces (kern s1) a = Some \<lparr>as_pcb = Ptr b, numPages = int (length (pageTables s t)), as_pageTable = Ptr t\<rparr>"
    using b by (simp add: s1_def)
  ultimately obtain s2 where "Run_user (thread s) s1 = Inr s2" "thread s2 = thread s" "\<forall>r < NumTotalRegs. registers s2 r = registers s r"
    using context_switch_restores_user_state [OF sp(1) out refl, of _ t] by fastforce
  moreover have "registers s 7 = 42" using s0(2) by (simp add: s_def)
  ultimately show ?thesis
    using out(1) sp(2) \<open>thread s1 = 1\<close> by (intro exI [of _ s] exI [of _ s1] exI [of _ s2]) (simp add: NumTotalRegs_def)
qed

end
