(* ===== verification/Spec2Isabelle.thy ===== *)
theory Spec2Isabelle
  imports Nachos_Prelude Bitmap Memory_Manager NList Mips_Mult Hardware Byte_Order Translation
    Mips_Decode Mips_Exec Interrupts Synch Synch_Safety Devices Synch_Disk File_Header Open_File Directories File_System
    Replacement Stub_Files Virtual_Memory Paged_Access Processes Address_Space Space_Lifecycle
    Syscalls User_Programs
begin

text \<open>Nachos.\<close>

end
